(* ===== verification/Prelude.thy ===== *)
theory Prelude
  imports Main "HOL-Library.Word" "HOL-Library.Monad_Syntax"
begin

text \<open>
  Shared material of the development: the types that stand for C's integers and bytes, the
  byte-addressed memory blocks on which the packed encodings (intset, ziplist) live, and
  generic lemmas on lists.

  A heap block is a list of bytes. Every access is checked: \<open>mem_read\<close>, \<open>mem_write\<close> and
  \<open>mem_move\<close> return \<open>None\<close> when they would touch a byte outside of the block, where C has
  undefined behaviour. A theorem that an operation returns \<open>Some\<close> is therefore also a proof
  of its memory safety. The bytes that \<open>realloc\<close> adds have no specified contents: they come
  from an arbitrary function \<open>junk\<close>, over which the theorems are universally quantified.
\<close>

type_synonym byte = "8 word"
type_synonym u16 = "16 word"
type_synonym u32 = "32 word"
type_synonym u64 = "64 word"

named_theorems mem_simps \<open>equations for checked accesses to memory blocks\<close>
named_theorems codec_simps \<open>equations for integer encodings\<close>

subsection \<open>Ranges of the C integer types\<close>

abbreviation INT16_MIN :: int where "INT16_MIN \<equiv> - 32768"
abbreviation INT16_MAX :: int where "INT16_MAX \<equiv> 32767"
abbreviation INT32_MIN :: int where "INT32_MIN \<equiv> - 2147483648"
abbreviation INT32_MAX :: int where "INT32_MAX \<equiv> 2147483647"
abbreviation INT64_MIN :: int where "INT64_MIN \<equiv> - 9223372036854775808"
abbreviation INT64_MAX :: int where "INT64_MAX \<equiv> 9223372036854775807"

definition fits :: "nat \<Rightarrow> int \<Rightarrow> bool" where
  "fits n v \<longleftrightarrow> - (2 ^ (8 * n - 1)) \<le> v \<and> v < 2 ^ (8 * n - 1)"

lemma fits_numeral [codec_simps]:
  "fits 2 v \<longleftrightarrow> INT16_MIN \<le> v \<and> v \<le> INT16_MAX"
  "fits 4 v \<longleftrightarrow> INT32_MIN \<le> v \<and> v \<le> INT32_MAX"
  "fits 8 v \<longleftrightarrow> INT64_MIN \<le> v \<and> v \<le> INT64_MAX"
  by (auto simp: fits_def)

lemma fits_mono: "w \<le> w' \<Longrightarrow> fits w v \<Longrightarrow> fits w' v"
proof -
  assume "w \<le> w'" "fits w v"
  moreover have "(2 :: int) ^ (8 * w - 1) \<le> 2 ^ (8 * w' - 1)"
    using \<open>w \<le> w'\<close> by (intro power_increasing) auto
  ultimately show ?thesis unfolding fits_def by linarith
qed

subsection \<open>Little endian integers\<close>

text \<open>
  \<open>le_bytes n v\<close> are the \<open>n\<close> low bytes of the two's complement representation of \<open>v\<close>, least
  significant first; \<open>le_uint\<close> and \<open>le_sint\<close> read such bytes back as an unsigned and as a
  signed number.
\<close>

primrec le_bytes :: "nat \<Rightarrow> int \<Rightarrow> byte list" where
  "le_bytes 0 v = []"
| "le_bytes (Suc n) v = word_of_int v # le_bytes n (v div 256)"

primrec le_uint :: "byte list \<Rightarrow> int" where
  "le_uint [] = 0"
| "le_uint (b # bs) = uint b + 256 * le_uint bs"

definition le_sint :: "byte list \<Rightarrow> int" where
  "le_sint bs =
     (let u = le_uint bs; n = 8 * length bs
      in if 2 * u < 2 ^ n then u else u - 2 ^ n)"

lemma length_le_bytes [simp, mem_simps]: "length (le_bytes n v) = n"
  by (induction n arbitrary: v) auto

lemma uint_byte_lt [simp]: "uint (b :: byte) < 256"
  using uint_lt2p [of b] by simp

lemma le_uint_nonneg [simp]: "0 \<le> le_uint bs"
  by (induction bs) auto

lemma le_uint_lt: "le_uint bs < 256 ^ length bs"
proof (induction bs)
  case Nil
  then show ?case by simp
next
  case (Cons b bs)
  have "uint b < 256" by simp
  with Cons show ?case by (simp, linarith)
qed

lemma le_uint_le_bytes: "le_uint (le_bytes n v) = v mod 256 ^ n"
proof (induction n arbitrary: v)
  case 0
  then show ?case by simp
next
  case (Suc n)
  have "v mod (256 * 256 ^ n) = 256 * (v div 256 mod 256 ^ n) + v mod 256"
    by (rule zmod_zmult2_eq) simp
  with Suc show ?case by (simp add: uint_word_of_int)
qed

lemma pow_256: "(256 :: int) ^ n = 2 ^ (8 * n)"
  by (simp add: power_mult)

lemma pow_8_half: "0 < n \<Longrightarrow> (2 :: int) ^ (8 * n) = 2 * 2 ^ (8 * n - 1)"
  by (simp flip: power_Suc)

lemma le_sint_le_bytes [codec_simps]:
  assumes "0 < n" "fits n v"
  shows "le_sint (le_bytes n v) = v"
proof -
  let ?h = "2 ^ (8 * n - 1) :: int"
  have two: "2 ^ (8 * n) = 2 * ?h"
    using assms(1) by (rule pow_8_half)
  have range: "- ?h \<le> v" "v < ?h"
    using assms(2) by (auto simp: fits_def)
  show ?thesis
  proof (cases "0 \<le> v")
    case True
    then have "v mod 2 ^ (8 * n) = v"
      using range two by simp
    with range two show ?thesis
      by (simp add: le_sint_def le_uint_le_bytes pow_256)
  next
    case False
    have "v mod 2 ^ (8 * n) = (v + 2 ^ (8 * n)) mod 2 ^ (8 * n)"
      by simp
    also have "\<dots> = v + 2 ^ (8 * n)"
      using range two False by (intro mod_pos_pos_trivial) auto
    finally have "v mod 2 ^ (8 * n) = v + 2 ^ (8 * n)" .
    with range two show ?thesis
      by (simp add: le_sint_def le_uint_le_bytes pow_256)
  qed
qed

lemma le_bytes_le_uint: "le_bytes (length bs) (le_uint bs) = bs"
proof (induction bs)
  case Nil
  then show ?case by simp
next
  case (Cons b bs)
  have "(uint b + 256 * le_uint bs) div 256 = le_uint bs"
    using uint_byte_lt [of b] by (simp add: div_pos_pos_trivial)
  moreover have "word_of_int (uint b + 256 * le_uint bs) = b"
  proof -
    have zero: "(256 :: byte) = 0" by simp
    have "word_of_int (uint b + 256 * le_uint bs) = b + 256 * word_of_int (le_uint bs)"
      by simp
    then show ?thesis by (simp only: zero mult_zero_left add_0_right)
  qed
  ultimately show ?case using Cons by simp
qed

lemma fits_le_sint: "bs \<noteq> [] \<Longrightarrow> fits (length bs) (le_sint bs)"
proof -
  assume "bs \<noteq> []"
  then have "2 ^ (8 * length bs) = 2 * (2 ^ (8 * length bs - 1) :: int)"
    by (intro pow_8_half) simp
  with le_uint_lt [of bs] le_uint_nonneg [of bs] show ?thesis
    unfolding le_sint_def fits_def Let_def pow_256 by (auto simp del: le_uint_nonneg)
qed

lemma le_bytes_mod: "le_bytes n (v + k * 256 ^ n) = le_bytes n v"
proof (induction n arbitrary: v k)
  case 0
  then show ?case by simp
next
  case (Suc n)
  have "v + k * 256 ^ Suc n = v + 256 * (k * 256 ^ n)" by simp
  then have "(v + k * 256 ^ Suc n) div 256 = v div 256 + k * 256 ^ n" by simp
  moreover have "word_of_int (v + k * 256 ^ Suc n) = (word_of_int v :: byte)"
  proof -
    have zero: "(256 :: byte) = 0" by simp
    have "word_of_int (v + k * 256 ^ Suc n) =
      (word_of_int v + 256 * (word_of_int k * 256 ^ n) :: byte)" by simp
    then show ?thesis by (simp only: zero mult_zero_left add_0_right)
  qed
  ultimately show ?case using Suc by simp
qed

lemma le_bytes_le_sint: "le_bytes (length bs) (le_sint bs) = bs"
  using le_bytes_mod [of "length bs" "le_uint bs" "-1"]
  by (simp add: le_sint_def Let_def le_bytes_le_uint pow_256)

lemma sint_u32 [codec_simps]: "unat (x :: u32) < 2 ^ 31 \<Longrightarrow> sint x = int (unat x)"
proof -
  assume "unat x < 2 ^ 31"
  then have "int (unat x) < int (2 ^ 31)" by (simp only: of_nat_less_iff)
  then have "signed_take_bit 31 (uint x) = uint x"
    by (intro signed_take_bit_int_eq_self) (simp_all add: order_trans [OF _ uint_ge_0])
  then show ?thesis by (simp add: sint_uint)
qed

lemma unat_u32_u64 [codec_simps]: "unat (ucast (x :: u32) :: u64) = unat x"
proof -
  have "unat x < 2 ^ LENGTH(32)" by (rule unsigned_less)
  then show ?thesis by (simp add: unsigned_ucast_eq take_bit_nat_eq_self)
qed

subsection \<open>Memory blocks\<close>

definition mem_read :: "nat \<Rightarrow> nat \<Rightarrow> byte list \<Rightarrow> byte list option" where
  "mem_read off n m = (if off + n \<le> length m then Some (take n (drop off m)) else None)"

definition mem_write :: "nat \<Rightarrow> byte list \<Rightarrow> byte list \<Rightarrow> byte list option" where
  "mem_write off bs m =
     (if off + length bs \<le> length m
      then Some (take off m @ bs @ drop (off + length bs) m) else None)"

text \<open>\<open>memmove (dst, src, n)\<close>: the source bytes are read before any is written.\<close>

definition mem_move :: "nat \<Rightarrow> nat \<Rightarrow> nat \<Rightarrow> byte list \<Rightarrow> byte list option" where
  "mem_move dst src n m = do { bs \<leftarrow> mem_read src n m; mem_write dst bs m }"

definition mem_realloc :: "(nat \<Rightarrow> byte) \<Rightarrow> nat \<Rightarrow> byte list \<Rightarrow> byte list" where
  "mem_realloc junk n m = take n m @ map junk [length m..<n]"

lemma length_mem_realloc [simp, mem_simps]: "length (mem_realloc junk n m) = n"
  by (simp add: mem_realloc_def)

lemma mem_write_length: "mem_write off bs m = Some m' \<Longrightarrow> length m' = length m"
  by (auto simp: mem_write_def split: if_splits)

lemma take_mem_realloc: "k \<le> length m \<Longrightarrow> k \<le> n \<Longrightarrow> take k (mem_realloc junk n m) = take k m"
  by (simp add: mem_realloc_def min_def)

subsection \<open>Arrays of fixed-width integers in a memory block\<close>

definition arr :: "nat \<Rightarrow> int list \<Rightarrow> byte list" where
  "arr w xs = concat (map (le_bytes w) xs)"

lemma arr_simps [simp]:
  "arr w [] = []" "arr w (x # xs) = le_bytes w x @ arr w xs"
  "arr w (xs @ ys) = arr w xs @ arr w ys"
  by (simp_all add: arr_def)

lemma length_arr [simp]: "length (arr w xs) = length xs * w"
  by (induction xs) auto

lemma take_arr: "take (i * w) (arr w xs) = arr w (take i xs)"
proof (cases "i \<le> length xs")
  case True
  have "arr w xs = arr w (take i xs) @ arr w (drop i xs)"
    by (simp flip: arr_simps)
  moreover have "length (arr w (take i xs)) = i * w"
    using True by simp
  ultimately show ?thesis by (metis append_eq_conv_conj)
qed auto

lemma drop_arr: "drop (i * w) (arr w xs) = arr w (drop i xs)"
proof (cases "i \<le> length xs")
  case True
  have "arr w xs = arr w (take i xs) @ arr w (drop i xs)"
    by (simp flip: arr_simps)
  moreover have "length (arr w (take i xs)) = i * w"
    using True by simp
  ultimately show ?thesis by (metis append_eq_conv_conj)
qed auto

lemma mem_read_arr [mem_simps]:
  assumes "i < length xs"
  shows "mem_read (i * w) w (arr w xs) = Some (le_bytes w (xs ! i))"
proof -
  have "i * w + w \<le> length xs * w"
    using assms by (metis Suc_leI add.commute mult_Suc mult_le_mono1)
  moreover have "take w (drop (i * w) (arr w xs)) = le_bytes w (xs ! i)"
    using assms by (simp add: drop_arr flip: Cons_nth_drop_Suc)
  ultimately show ?thesis by (simp add: mem_read_def)
qed

lemma mem_write_arr [mem_simps]:
  assumes "i < length xs"
  shows "mem_write (i * w) (le_bytes w v) (arr w xs) = Some (arr w (xs[i := v]))"
proof -
  have "i * w + w \<le> length xs * w"
    using assms by (metis Suc_leI add.commute mult_Suc mult_le_mono1)
  moreover have "drop (i * w + w) (arr w xs) = arr w (drop (Suc i) xs)"
    using drop_arr [of "Suc i" w xs] by (simp add: add.commute)
  ultimately show ?thesis
    using assms by (simp add: mem_write_def take_arr upd_conv_take_nth_drop)
qed

lemma mem_move_arr [mem_simps]:
  assumes "src + n \<le> length xs" "dst + n \<le> length xs"
  shows "mem_move (dst * w) (src * w) (n * w) (arr w xs) =
    Some (arr w (take dst xs @ take n (drop src xs) @ drop (dst + n) xs))"
proof -
  have "src * w + n * w \<le> length xs * w" "dst * w + n * w \<le> length xs * w"
    using assms by (metis add_mult_distrib mult_le_mono1)+
  moreover have "take (n * w) (drop (src * w) (arr w xs)) = arr w (take n (drop src xs))"
    by (simp add: drop_arr take_arr)
  moreover have "min (length xs - src) n = n"
    using assms by simp
  ultimately show ?thesis
    by (simp add: mem_move_def mem_read_def mem_write_def take_arr
        drop_arr flip: add_mult_distrib)
qed

lemma arr_of_bytes: "0 < w \<Longrightarrow> length m = n * w \<Longrightarrow> \<exists>xs. length xs = n \<and> m = arr w xs"
proof (induction n arbitrary: m)
  case 0
  then show ?case by simp
next
  case (Suc n)
  then obtain xs where xs: "length xs = n" "drop w m = arr w xs"
    by (metis add_diff_cancel_left' length_drop mult_Suc)
  have "le_bytes w (le_uint (take w m)) = take w m"
    using le_bytes_le_uint [of "take w m"] Suc.prems by simp
  then have "m = arr w (le_uint (take w m) # xs)"
    using xs by (metis append_take_drop_id arr_simps(2))
  with xs show ?case by (metis length_Cons)
qed

lemma mem_realloc_arr_grow:
  assumes "0 < w" "length xs \<le> n"
  obtains ys where "length ys = n - length xs"
    "mem_realloc junk (n * w) (arr w xs) = arr w (xs @ ys)"
proof -
  let ?t = "map junk [length xs * w..<n * w]"
  have "length ?t = (n - length xs) * w"
    by (simp add: diff_mult_distrib)
  then obtain ys where "length ys = n - length xs" "?t = arr w ys"
    using arr_of_bytes [OF assms(1)] by blast
  moreover have "mem_realloc junk (n * w) (arr w xs) = arr w xs @ ?t"
    using assms(2) by (simp add: mem_realloc_def)
  ultimately show ?thesis using that by simp
qed

lemma mem_realloc_arr_shrink [mem_simps]:
  "n \<le> length xs \<Longrightarrow> mem_realloc junk (n * w) (arr w xs) = arr w (take n xs)"
  by (simp add: mem_realloc_def take_arr)

lemma mem_realloc_arr_prefix:
  "mem_realloc junk (length xs * w) (arr w (xs @ ys)) = arr w xs"
  by (subst mem_realloc_arr_shrink) (simp_all del: arr_simps)

end
