(* ===== verification/Set_Interface.thy ===== *)
theory Set_Interface
  imports Prelude
begin

text \<open>
  The contract between the set type of the server (\<open>t_set.c\<close>) and the structures that hold a
  set. Operations may fail (\<open>None\<close>: an access outside of a memory block), and an addition needs
  room; the laws say that under the provider's invariant they do not fail and act as the
  operations on mathematical sets do. The client lemma is about whole histories.
\<close>

datatype 'a set_op = Add (op_value: 'a) | Remove (op_value: 'a)

primrec run_ops ::
    "('s \<Rightarrow> 'a \<Rightarrow> ('s \<times> bool) option) \<Rightarrow> ('s \<Rightarrow> 'a \<Rightarrow> ('s \<times> bool) option) \<Rightarrow> 's \<Rightarrow> 'a set_op list \<Rightarrow> 's option" where
  "run_ops add remove s [] = Some s"
| "run_ops add remove s (op # ops) = do {
     (s', _) \<leftarrow> (case op of Add x \<Rightarrow> add s x | Remove x \<Rightarrow> remove s x);
     run_ops add remove s' ops
   }"

primrec spec_ops :: "'a set \<Rightarrow> 'a set_op list \<Rightarrow> 'a set" where
  "spec_ops S [] = S"
| "spec_ops S (op # ops) =
     spec_ops (case op of Add x \<Rightarrow> insert x S | Remove x \<Rightarrow> S - {x}) ops"

text \<open>Along a history every addition finds room.\<close>

primrec run_room ::
    "('s \<Rightarrow> 'a \<Rightarrow> ('s \<times> bool) option) \<Rightarrow> ('s \<Rightarrow> 'a \<Rightarrow> ('s \<times> bool) option) \<Rightarrow> ('s \<Rightarrow> 'a \<Rightarrow> bool) \<Rightarrow>
     's \<Rightarrow> 'a set_op list \<Rightarrow> bool" where
  "run_room add remove room s [] = True"
| "run_room add remove room s (op # ops) =
     ((case op of Add x \<Rightarrow> room s x | Remove x \<Rightarrow> True) \<and>
      (case (case op of Add x \<Rightarrow> add s x | Remove x \<Rightarrow> remove s x) of
         None \<Rightarrow> True | Some (s', _) \<Rightarrow> run_room add remove room s' ops))"

locale checked_set =
  fixes new :: 's
    and add :: "'s \<Rightarrow> 'a \<Rightarrow> ('s \<times> bool) option"
    and remove :: "'s \<Rightarrow> 'a \<Rightarrow> ('s \<times> bool) option"
    and find :: "'s \<Rightarrow> 'a \<Rightarrow> bool option"
    and elems :: "'s \<Rightarrow> 'a set"
    and ok :: "'s \<Rightarrow> bool"
    and admissible :: "'a \<Rightarrow> bool"
    and room :: "'s \<Rightarrow> 'a \<Rightarrow> bool"
  assumes ok_new: "ok new"
    and elems_new: "elems new = {}"
    and add: "ok s \<Longrightarrow> admissible x \<Longrightarrow> room s x \<Longrightarrow>
      \<exists>s'. add s x = Some (s', x \<notin> elems s) \<and> ok s' \<and> elems s' = insert x (elems s)"
    and remove: "ok s \<Longrightarrow> admissible x \<Longrightarrow>
      \<exists>s'. remove s x = Some (s', x \<in> elems s) \<and> ok s' \<and> elems s' = elems s - {x}"
    and find: "ok s \<Longrightarrow> admissible x \<Longrightarrow> find s x = Some (x \<in> elems s)"
begin

lemma run_ops_from:
  assumes "ok s" "run_room add remove room s ops" "\<forall>op \<in> set ops. admissible (op_value op)"
  shows "\<exists>s'. run_ops add remove s ops = Some s' \<and> ok s' \<and> elems s' = spec_ops (elems s) ops"
  using assms
proof (induction ops arbitrary: s)
  case Nil
  then show ?case by simp
next
  case (Cons op ops)
  show ?case
  proof (cases op)
    case (Add x)
    then obtain s' where s': "add s x = Some (s', x \<notin> elems s)" "ok s'" "elems s' = insert x (elems s)"
      using add [of s x] Cons.prems by auto
    with Cons.IH [of s'] Cons.prems Add show ?thesis by auto
  next
    case (Remove x)
    then obtain s' where s': "remove s x = Some (s', x \<in> elems s)" "ok s'" "elems s' = elems s - {x}"
      using remove [of s x] Cons.prems by auto
    with Cons.IH [of s'] Cons.prems Remove show ?thesis by auto
  qed
qed

lemma run_ops_correct:
  assumes "run_room add remove room new ops" "\<forall>op \<in> set ops. admissible (op_value op)"
  shows "\<exists>s'. run_ops add remove new ops = Some s' \<and> ok s' \<and> elems s' = spec_ops {} ops"
  using run_ops_from [OF ok_new assms] by (simp add: elems_new)

lemma find_after_add:
  assumes "ok s" "admissible x" "admissible y" "room s x"
  obtains s' b where "add s x = Some (s', b)" "find s' y = Some (y = x \<or> y \<in> elems s)"
proof -
  obtain s' where "add s x = Some (s', x \<notin> elems s)" "ok s'" "elems s' = insert x (elems s)"
    using add [OF assms(1,2,4)] by blast
  with find [of s' y] assms(3) that show ?thesis by simp
qed

end

end
