(* ===== verification/Intset.thy ===== *)
theory Intset
  imports Set_Interface
begin

text \<open>
  The integer set of \<open>src/redis-stable/src/intset.c\<close>: a sorted array of integers of one
  width (2, 4 or 8 bytes) in one memory block, searched by bisection and rewritten at a larger
  width when a value does not fit. The block is modelled byte by byte; its integers are little
  endian on every host, which is what the \<open>memrev\<close> and \<open>intrev\<close> calls of the code achieve
  (theory \<open>Endian\<close>). \<open>int\<close> and \<open>int64_t\<close> values are integers, \<open>uint32_t\<close> values are words.
\<close>

section \<open>Data and operations\<close>

record intset =
  is_encoding :: u32
  is_length :: u32
  is_contents :: "byte list"

abbreviation INTSET_ENC_INT16 :: byte where "INTSET_ENC_INT16 \<equiv> 2"
abbreviation INTSET_ENC_INT32 :: byte where "INTSET_ENC_INT32 \<equiv> 4"
abbreviation INTSET_ENC_INT64 :: byte where "INTSET_ENC_INT64 \<equiv> 8"

definition intsetValueEncoding :: "int \<Rightarrow> byte" where
  "intsetValueEncoding v =
     (if v < INT32_MIN \<or> v > INT32_MAX then INTSET_ENC_INT64
      else if v < INT16_MIN \<or> v > INT16_MAX then INTSET_ENC_INT32
      else INTSET_ENC_INT16)"

definition intsetGetEncoded :: "intset \<Rightarrow> int \<Rightarrow> byte \<Rightarrow> int option" where
  "intsetGetEncoded is pos enc =
     (if pos < 0 then None
      else if enc = INTSET_ENC_INT64 then map_option le_sint (mem_read (nat pos * 8) 8 (is_contents is))
      else if enc = INTSET_ENC_INT32 then map_option le_sint (mem_read (nat pos * 4) 4 (is_contents is))
      else map_option le_sint (mem_read (nat pos * 2) 2 (is_contents is)))"

definition intset_Get :: "intset \<Rightarrow> int \<Rightarrow> int option" where
  "intset_Get is pos = intsetGetEncoded is pos (ucast (is_encoding is))"

definition intset_Set :: "intset \<Rightarrow> int \<Rightarrow> int \<Rightarrow> intset option" where
  "intset_Set is pos value =
     (let w = (if is_encoding is = 8 then 8 else if is_encoding is = 4 then 4 else 2)
      in if pos < 0 then None
         else map_option (\<lambda>m. is\<lparr>is_contents := m\<rparr>)
           (mem_write (nat pos * w) (le_bytes w value) (is_contents is)))"

definition intsetNew :: intset where
  "intsetNew = \<lparr>is_encoding = ucast INTSET_ENC_INT16, is_length = 0, is_contents = []\<rparr>"

definition intsetResize :: "(nat \<Rightarrow> byte) \<Rightarrow> intset \<Rightarrow> u32 \<Rightarrow> intset" where
  "intsetResize junk is len =
     (let size = len * is_encoding is
      in is\<lparr>is_contents := mem_realloc junk (unat size) (is_contents is)\<rparr>)"

text \<open>The midpoint is computed in \<open>unsigned int\<close>; the result fits \<open>int\<close>.\<close>

definition intset_mid :: "int \<Rightarrow> int \<Rightarrow> int" where
  "intset_mid mn mx = uint (drop_bit 1 (word_of_int mn + word_of_int mx :: u32))"

text \<open>The bisection loop, on the variables \<open>min\<close>, \<open>max\<close>, \<open>mid\<close> and \<open>cur\<close>; \<open>None\<close> is a read
  outside of the block or a loop that does not end.\<close>

partial_function (option) intsetSearch_loop ::
    "intset \<Rightarrow> int \<Rightarrow> int \<Rightarrow> int \<Rightarrow> int \<Rightarrow> int \<Rightarrow> (int \<times> int \<times> int) option" where
  "intsetSearch_loop is value mn mx mid cur =
     (if mx \<ge> mn
      then Option.bind (intset_Get is (intset_mid mn mx)) (\<lambda>c.
        if value > c then intsetSearch_loop is value (intset_mid mn mx + 1) mx (intset_mid mn mx) c
        else if value < c then intsetSearch_loop is value mn (intset_mid mn mx - 1) (intset_mid mn mx) c
        else Some (mn, intset_mid mn mx, c))
      else Some (mn, mid, cur))"

definition intsetSearch :: "intset \<Rightarrow> int \<Rightarrow> (bool \<times> u32) option" where
  "intsetSearch is value =
     (if is_length is = 0 then Some (False, 0)
      else do {
        last \<leftarrow> intset_Get is (sint (is_length is - 1));
        if value > last then Some (False, is_length is)
        else do {
          first \<leftarrow> intset_Get is 0;
          if value < first then Some (False, 0)
          else do {
            (mn, mid, cur) \<leftarrow> intsetSearch_loop is value 0 (sint (is_length is - 1)) (-1) (-1);
            if value = cur then Some (True, word_of_int mid) else Some (False, word_of_int mn)
          }
        }
      })"

text \<open>The \<open>while (length--)\<close> loop of \<open>intsetUpgradeAndAdd\<close>.\<close>

primrec intsetUpgrade_loop :: "nat \<Rightarrow> int \<Rightarrow> byte \<Rightarrow> intset \<Rightarrow> intset option" where
  "intsetUpgrade_loop 0 prepend curenc is = Some is"
| "intsetUpgrade_loop (Suc k) prepend curenc is = do {
     v \<leftarrow> intsetGetEncoded is (int k) curenc;
     is' \<leftarrow> intset_Set is (int k + prepend) v;
     intsetUpgrade_loop k prepend curenc is'
   }"

definition intsetUpgradeAndAdd :: "(nat \<Rightarrow> byte) \<Rightarrow> intset \<Rightarrow> int \<Rightarrow> intset option" where
  "intsetUpgradeAndAdd junk is value =
     (let curenc = ucast (is_encoding is);
          newenc = intsetValueEncoding value;
          len = sint (is_length is);
          prepend = (if value < 0 then 1 else 0);
          is1 = is\<lparr>is_encoding := ucast newenc\<rparr>;
          is2 = intsetResize junk is1 (is_length is1 + 1)
      in if len < 0 then None
         else do {
           is3 \<leftarrow> intsetUpgrade_loop (nat len) prepend curenc is2;
           is4 \<leftarrow> (if prepend \<noteq> 0 then intset_Set is3 0 value
                  else intset_Set is3 (sint (is_length is3)) value);
           Some (is4\<lparr>is_length := is_length is4 + 1\<rparr>)
         })"

definition intsetMoveTail :: "intset \<Rightarrow> u32 \<Rightarrow> u32 \<Rightarrow> intset option" where
  "intsetMoveTail is from to =
     (let w = (if is_encoding is = 8 then 8 else if is_encoding is = 4 then 4 else 2);
          bytes = (is_length is - from) * of_nat w
      in map_option (\<lambda>m. is\<lparr>is_contents := m\<rparr>)
           (mem_move (unat to * w) (unat from * w) (unat bytes) (is_contents is)))"

definition intsetAdd :: "(nat \<Rightarrow> byte) \<Rightarrow> intset \<Rightarrow> int \<Rightarrow> (intset \<times> bool) option" where
  "intsetAdd junk is value =
     (let valenc = intsetValueEncoding value
      in if unat valenc > unat (is_encoding is)
         then map_option (\<lambda>is'. (is', True)) (intsetUpgradeAndAdd junk is value)
         else do {
           (found, pos) \<leftarrow> intsetSearch is value;
           if found then Some (is, False)
           else do {
             is1 \<leftarrow> Some (intsetResize junk is (is_length is + 1));
             is2 \<leftarrow> (if pos < is_length is1 then intsetMoveTail is1 pos (pos + 1) else Some is1);
             is3 \<leftarrow> intset_Set is2 (sint pos) value;
             Some (is3\<lparr>is_length := is_length is3 + 1\<rparr>, True)
           }
         })"

definition intsetRemove :: "(nat \<Rightarrow> byte) \<Rightarrow> intset \<Rightarrow> int \<Rightarrow> (intset \<times> bool) option" where
  "intsetRemove junk is value =
     (let valenc = intsetValueEncoding value
      in if \<not> unat valenc \<le> unat (is_encoding is) then Some (is, False)
         else do {
           (found, pos) \<leftarrow> intsetSearch is value;
           if \<not> found then Some (is, False)
           else do {
             len \<leftarrow> Some (is_length is);
             is1 \<leftarrow> (if pos < len - 1 then intsetMoveTail is (pos + 1) pos else Some is);
             is2 \<leftarrow> Some (intsetResize junk is1 (len - 1));
             Some (is2\<lparr>is_length := len - 1\<rparr>, True)
           }
         })"

definition intsetFind :: "intset \<Rightarrow> int \<Rightarrow> bool option" where
  "intsetFind is value =
     (let valenc = intsetValueEncoding value
      in if \<not> unat valenc \<le> unat (is_encoding is) then Some False
         else map_option fst (intsetSearch is value))"

text \<open>\<open>r\<close> is the value returned by \<open>rand ()\<close>; the remainder by zero traps.\<close>

definition intsetRandom :: "nat \<Rightarrow> intset \<Rightarrow> int option" where
  "intsetRandom r is =
     (if is_length is = 0 then None
      else intset_Get is (sint (of_nat r mod is_length is)))"

definition intsetGet :: "intset \<Rightarrow> u32 \<Rightarrow> (bool \<times> int option) option" where
  "intsetGet is pos =
     (if pos < is_length is then map_option (\<lambda>v. (True, Some v)) (intset_Get is (sint pos))
      else Some (False, None))"

definition intsetLen :: "intset \<Rightarrow> u32" where
  "intsetLen is = is_length is"

definition intsetBlobLen :: "intset \<Rightarrow> u64" where
  "intsetBlobLen is = 8 + ucast (is_length is * is_encoding is)"

section \<open>Abstraction and invariant\<close>

definition intset_elems :: "intset \<Rightarrow> int list" where
  "intset_elems is =
     map (\<lambda>i. le_sint (take (unat (is_encoding is)) (drop (i * unat (is_encoding is)) (is_contents is))))
       [0..<unat (is_length is)]"

definition intset_ok :: "intset \<Rightarrow> bool" where
  "intset_ok is \<longleftrightarrow>
     is_encoding is \<in> {2, 4, 8} \<and>
     length (is_contents is) = unat (is_length is) * unat (is_encoding is) \<and>
     unat (is_length is) * unat (is_encoding is) < 2 ^ 32 \<and>
     sorted_wrt (<) (intset_elems is)"

text \<open>The auxiliary notions of the proofs: a block that holds the integers \<open>xs\<close> at width \<open>w\<close>, the
  insertion point of a value in a sorted list, and the room a block needs for one more value.\<close>

definition intset_rep :: "intset \<Rightarrow> nat \<Rightarrow> int list \<Rightarrow> bool" where
  "intset_rep is w xs \<longleftrightarrow>
     w \<in> {2, 4, 8} \<and> is_encoding is = of_nat w \<and> is_contents is = arr w xs \<and>
     unat (is_length is) = length xs \<and> length xs * w < 2 ^ 32 \<and> (\<forall>x \<in> set xs. fits w x)"

definition insert_pos :: "int list \<Rightarrow> int \<Rightarrow> nat \<Rightarrow> bool" where
  "insert_pos xs v i \<longleftrightarrow> i \<le> length xs \<and> (\<forall>j < i. xs ! j < v) \<and>
     (\<forall>j. i \<le> j \<and> j < length xs \<longrightarrow> v < xs ! j)"

text \<open>
  The loop moves the elements from the old to the new width inside one block, from the last to
  the first. While \<open>k\<close> elements are left, the block starts with them at the old width and ends
  with the others at the new width.
\<close>

definition upgrade_state :: "nat \<Rightarrow> nat \<Rightarrow> nat \<Rightarrow> nat \<Rightarrow> int list \<Rightarrow> byte list \<Rightarrow> byte list \<Rightarrow> bool" where
  "upgrade_state cw nw p k xs t m \<longleftrightarrow>
     take (k * cw) m = arr cw (take k xs) \<and>
     drop ((k + p) * nw) m = arr nw (drop k xs) @ t \<and>
     length m = (length xs + p) * nw + length t"

definition intset_room :: "intset \<Rightarrow> int \<Rightarrow> bool" where
  "intset_room is v \<longleftrightarrow>
     Suc (unat (is_length is)) * max (unat (is_encoding is)) (unat (intsetValueEncoding v)) < 2 ^ 32"

abbreviation int64 :: "int \<Rightarrow> bool" where
  "int64 v \<equiv> INT64_MIN \<le> v \<and> v \<le> INT64_MAX"

section \<open>Proofs\<close>



lemma elem_arr: "i < length xs \<Longrightarrow> take w (drop (i * w) (arr w xs)) = le_bytes w (xs ! i)"
  by (simp add: drop_arr flip: Cons_nth_drop_Suc)

lemma unat_enc: "w \<in> {2, 4, 8} \<Longrightarrow> unat (of_nat w :: u32) = w"
  by auto

lemma intset_rep_elems: "intset_rep is w xs \<Longrightarrow> intset_elems is = xs"
proof -
  assume rep: "intset_rep is w xs"
  then have "le_sint (le_bytes w (xs ! i)) = xs ! i" if "i < length xs" for i
    using that by (intro le_sint_le_bytes) (auto simp: intset_rep_def)
  with rep show ?thesis
    by (intro nth_equalityI) (auto simp: intset_rep_def intset_elems_def elem_arr)
qed

lemma intset_ok_rep: "intset_ok is \<Longrightarrow> intset_rep is (unat (is_encoding is)) (intset_elems is)"
proof -
  assume ok: "intset_ok is"
  let ?w = "unat (is_encoding is)" and ?c = "is_contents is"
  have w: "?w \<in> {2, 4, 8}" using ok by (auto simp: intset_ok_def)
  then obtain xs where xs: "length xs = unat (is_length is)" "?c = arr ?w xs"
    using arr_of_bytes [of ?w ?c "unat (is_length is)"] ok by (auto simp: intset_ok_def)
  have el: "intset_elems is = map (\<lambda>x. le_sint (le_bytes ?w x)) xs"
    by (intro nth_equalityI) (simp_all add: intset_elems_def xs(2) elem_arr flip: xs(1))
  have "le_bytes ?w (le_sint (le_bytes ?w x)) = le_bytes ?w x" for x
    using le_bytes_le_sint [of "le_bytes ?w x"] by simp
  then have "arr ?w (intset_elems is) = ?c"
    by (simp add: el xs arr_def comp_def)
  moreover have "fits ?w (le_sint (le_bytes ?w x))" for x
  proof -
    have "0 < ?w" using w by auto
    then have "le_bytes ?w x \<noteq> []" by (simp flip: length_greater_0_conv)
    from fits_le_sint [OF this] show ?thesis by simp
  qed
  ultimately show ?thesis
    using ok w by (auto simp: intset_rep_def intset_ok_def el xs)
qed

lemma intset_okI: "intset_rep is w xs \<Longrightarrow> sorted_wrt (<) xs \<Longrightarrow> intset_ok is"
  using intset_rep_elems [of "is" w xs]
  by (auto simp: intset_ok_def intset_rep_def)

subsection \<open>Element access\<close>

lemma intset_Get_arr:
  assumes "w \<in> {2, 4, 8}" "is_encoding is = of_nat w" "is_contents is = arr w xs"
    "i < length xs" "fits w (xs ! i)"
  shows "intset_Get is (int i) = Some (xs ! i)"
  using assms mem_read_arr [of i xs w]
  by (auto simp: intset_Get_def intsetGetEncoded_def le_sint_le_bytes)

lemma intset_Set_arr:
  assumes "w \<in> {2, 4, 8}" "is_encoding is = of_nat w" "is_contents is = arr w xs" "i < length xs"
  shows "intset_Set is (int i) v = Some (is\<lparr>is_contents := arr w (xs[i := v])\<rparr>)"
  using assms mem_write_arr [of i xs w v]
  by (auto simp: intset_Set_def)

lemma intset_rep_Get:
  "intset_rep is w xs \<Longrightarrow> i < length xs \<Longrightarrow> intset_Get is (int i) = Some (xs ! i)"
  by (rule intset_Get_arr [of w]) (auto simp: intset_rep_def)

lemma intset_rep_length_lt: "intset_rep is w xs \<Longrightarrow> length xs < 2 ^ 31"
  by (auto simp: intset_rep_def)

subsection \<open>Bisection\<close>

lemma intset_mid_eq:
  assumes "0 \<le> mn" "mn \<le> mx" "mx < 2 ^ 31"
  shows "intset_mid mn mx = (mn + mx) div 2"
proof -
  have "uint (word_of_int mn + word_of_int mx :: u32) = mn + mx"
    using assms by (simp add: uint_word_ariths uint_word_of_int)
  then show ?thesis by (simp add: intset_mid_def drop_bit_eq_div uint_div)
qed

lemma intsetSearch_loop:
  assumes rep: "intset_rep is w xs" and srt: "sorted_wrt (<) xs"
    and "0 \<le> mn" "mx < int (length xs)" "mn \<le> mx + 1"
    and "\<forall>j < nat mn. xs ! j < v" "\<forall>j. mx < int j \<and> j < length xs \<longrightarrow> v < xs ! j"
    and "mn \<le> mx \<or> cur \<noteq> v"
  shows "\<exists>mn' mid' cur'. intsetSearch_loop is v mn mx mid cur = Some (mn', mid', cur') \<and>
    (if cur' = v then 0 \<le> mid' \<and> nat mid' < length xs \<and> xs ! nat mid' = v
     else 0 \<le> mn' \<and> insert_pos xs v (nat mn'))"
  using assms(3-)
proof (induction "nat (mx - mn + 1)" arbitrary: mn mx mid cur rule: less_induct)
  case less
  show ?case
  proof (cases "mn \<le> mx")
    case False
    with less.prems show ?thesis
      by (subst intsetSearch_loop.simps) (auto simp: insert_pos_def)
  next
    case True
    let ?m = "(mn + mx) div 2"
    have m: "mn \<le> ?m" "?m \<le> mx" "0 \<le> ?m" using True less.prems by auto
    have lt: "nat ?m < length xs" using m less.prems by linarith
    have mid: "intset_mid mn mx = ?m"
      using True less.prems intset_rep_length_lt [OF rep] by (intro intset_mid_eq) auto
    have get: "intset_Get is ?m = Some (xs ! nat ?m)"
      using intset_rep_Get [OF rep lt] m by simp
    have step: "intsetSearch_loop is v mn mx mid cur =
       (if v > xs ! nat ?m then intsetSearch_loop is v (?m + 1) mx ?m (xs ! nat ?m)
        else if v < xs ! nat ?m then intsetSearch_loop is v mn (?m - 1) ?m (xs ! nat ?m)
        else Some (mn, ?m, xs ! nat ?m))"
      using True by (subst intsetSearch_loop.simps) (simp add: mid get)
    have before: "xs ! j \<le> xs ! nat ?m" if "j \<le> nat ?m" for j
      using that lt srt by (cases "j = nat ?m") (auto simp: sorted_wrt_iff_nth_less less_imp_le)
    have after: "xs ! nat ?m \<le> xs ! j" if "nat ?m \<le> j" "j < length xs" for j
      using that lt srt by (cases "j = nat ?m") (auto simp: sorted_wrt_iff_nth_less less_imp_le)
    consider "v > xs ! nat ?m" | "v < xs ! nat ?m" | "v = xs ! nat ?m" by linarith
    then show ?thesis
    proof cases
      case 1
      have "\<forall>j < nat (?m + 1). xs ! j < v"
      proof (intro allI impI)
        fix j assume "j < nat (?m + 1)"
        then have "j \<le> nat ?m" using m by linarith
        from before [OF this] 1 show "xs ! j < v" by simp
      qed
      moreover have "xs ! nat ?m \<noteq> v" using 1 by simp
      ultimately
      have "\<exists>mn' mid' cur'. intsetSearch_loop is v (?m + 1) mx ?m (xs ! nat ?m) = Some (mn', mid', cur') \<and>
        (if cur' = v then 0 \<le> mid' \<and> nat mid' < length xs \<and> xs ! nat mid' = v
         else 0 \<le> mn' \<and> insert_pos xs v (nat mn'))"
        using m less.prems by (intro less.hyps) auto
      with 1 step show ?thesis by simp
    next
      case 2
      have "\<forall>j. ?m - 1 < int j \<and> j < length xs \<longrightarrow> v < xs ! j"
      proof (intro allI impI)
        fix j assume j: "?m - 1 < int j \<and> j < length xs"
        then have "nat ?m \<le> j" using m by linarith
        from after [OF this] j 2 show "v < xs ! j" by simp
      qed
      moreover have "xs ! nat ?m \<noteq> v" using 2 by simp
      ultimately
      have "\<exists>mn' mid' cur'. intsetSearch_loop is v mn (?m - 1) ?m (xs ! nat ?m) = Some (mn', mid', cur') \<and>
        (if cur' = v then 0 \<le> mid' \<and> nat mid' < length xs \<and> xs ! nat mid' = v
         else 0 \<le> mn' \<and> insert_pos xs v (nat mn'))"
        using m less.prems by (intro less.hyps) auto
      with 2 step show ?thesis by simp
    next
      case 3
      with step m lt show ?thesis by simp
    qed
  qed
qed


subsection \<open>Search\<close>

lemma unat_minus_1: "x \<noteq> 0 \<Longrightarrow> unat (x - 1 :: u32) = unat x - 1"
  by (metis unat_minus_one)

lemma insert_pos_unique_end: "\<forall>x \<in> set xs. x < v \<Longrightarrow> insert_pos xs v (length xs)"
  by (auto simp: insert_pos_def)

lemma insert_pos_notin: "insert_pos xs v i \<Longrightarrow> v \<notin> set xs"
  unfolding insert_pos_def in_set_conv_nth by (metis less_irrefl not_less)

lemma sorted_last: "sorted_wrt (<) (xs :: int list) \<Longrightarrow> xs \<noteq> [] \<Longrightarrow> x \<in> set xs \<Longrightarrow> x \<le> xs ! (length xs - Suc 0)"
  unfolding sorted_wrt_iff_nth_less in_set_conv_nth
  by (metis One_nat_def Suc_pred diff_less length_greater_0_conv less_Suc0 less_Suc_eq less_imp_le order_refl)

lemma sorted_first: "sorted_wrt (<) (xs :: int list) \<Longrightarrow> x \<in> set xs \<Longrightarrow> xs ! 0 \<le> x"
  by (cases xs) auto

lemma intsetSearch_rep:
  assumes rep: "intset_rep is w xs" and srt: "sorted_wrt (<) xs"
  shows "\<exists>pos. intsetSearch is v = Some (v \<in> set xs, pos) \<and>
    (if v \<in> set xs then unat pos < length xs \<and> xs ! unat pos = v
     else insert_pos xs v (unat pos))"
proof (cases "xs = []")
  case True
  then have "is_length is = 0"
    using rep by (simp add: intset_rep_def unat_eq_0)
  with True show ?thesis by (auto simp: intsetSearch_def insert_pos_def)
next
  case False
  have len: "unat (is_length is) = length xs" "length xs < 2 ^ 31"
    using rep intset_rep_length_lt [OF rep] by (auto simp: intset_rep_def)
  then have nz: "is_length is \<noteq> 0" using False by auto
  obtain k where k: "length xs = Suc k" using False by (cases xs) auto
  have sl: "sint (is_length is - 1) = int (k)"
    using len k by (subst sint_u32) (auto simp: unat_minus_1 [OF nz])
  have last: "intset_Get is (int (k)) = Some (xs ! (k))"
    using k by (intro intset_rep_Get [OF rep]) auto
  have first: "intset_Get is 0 = Some (xs ! 0)"
    using False intset_rep_Get [OF rep, of 0] by auto
  consider (gt) "v > xs ! (k)" | (lt) "v \<le> xs ! (k)" "v < xs ! 0"
    | (loop) "v \<le> xs ! (k)" "xs ! 0 \<le> v" by linarith
  then show ?thesis
  proof cases
    case gt
    then have "\<forall>x \<in> set xs. x < v"
      using sorted_last [OF srt False] k by force
    then have "insert_pos xs v (unat (is_length is))"
      by (simp add: len insert_pos_unique_end)
    with gt nz show ?thesis
      by (auto simp: intsetSearch_def sl last dest: insert_pos_notin)
  next
    case lt
    then have "insert_pos xs v 0"
      using sorted_first [OF srt] by (force simp: insert_pos_def in_set_conv_nth)
    with lt nz show ?thesis
      by (auto simp: intsetSearch_def sl last first dest: insert_pos_notin)
  next
    case loop
    have "\<exists>mn' mid' cur'. intsetSearch_loop is v 0 (int (k)) (-1) (-1) = Some (mn', mid', cur') \<and>
        (if cur' = v then 0 \<le> mid' \<and> nat mid' < length xs \<and> xs ! nat mid' = v
         else 0 \<le> mn' \<and> insert_pos xs v (nat mn'))"
      using k by (intro intsetSearch_loop [OF rep srt]) auto
    then obtain mn' mid' cur' where
      res: "intsetSearch_loop is v 0 (int (k)) (-1) (-1) = Some (mn', mid', cur')"
      and post: "if cur' = v then 0 \<le> mid' \<and> nat mid' < length xs \<and> xs ! nat mid' = v
         else 0 \<le> mn' \<and> insert_pos xs v (nat mn')" by blast
    have un: "unat (word_of_int i :: u32) = nat i" if "0 \<le> i" "nat i \<le> length xs" for i
    proof -
      have "i < 2 ^ 32" using that len(2) by (simp add: nat_le_iff)
      with that show ?thesis by (simp add: unat_eq_nat_uint uint_word_of_int)
    qed
    show ?thesis
    proof (cases "cur' = v")
      case True
      with post have "v \<in> set xs" by (auto simp: in_set_conv_nth)
      with True post loop nz res show ?thesis
        by (auto simp: intsetSearch_def sl last first un)
    next
      case False
      then have ip: "insert_pos xs v (nat mn')" "0 \<le> mn'" using post by auto
      then have "nat mn' \<le> length xs" by (simp add: insert_pos_def)
      with False ip loop nz res insert_pos_notin [OF ip(1)] show ?thesis
        by (auto simp: intsetSearch_def sl last first un)
    qed
  qed
qed


subsection \<open>Insertion without change of encoding\<close>

lemma sorted_insert_pos:
  assumes "sorted_wrt (<) (xs :: int list)" "insert_pos xs v i"
  shows "sorted_wrt (<) (take i xs @ v # drop i xs)"
proof -
  have "\<forall>x \<in> set (take i xs). x < v"
    using assms(2) by (auto simp: insert_pos_def in_set_conv_nth)
  moreover have "\<forall>x \<in> set (drop i xs). v < x"
    using assms(2) by (auto simp: insert_pos_def in_set_conv_nth)
  moreover have "sorted_wrt (<) (take i xs @ drop i xs)"
    using assms(1) by simp
  ultimately show ?thesis
    unfolding sorted_wrt_append by fastforce
qed

lemma fits_valueEncoding:
  assumes "INT64_MIN \<le> v" "v \<le> INT64_MAX" "w \<in> {2, 4, 8}"
  shows "fits w v \<longleftrightarrow> unat (intsetValueEncoding v) \<le> w"
  using assms by (auto simp: intsetValueEncoding_def codec_simps)

lemma unat_size:
  assumes "n * w < 2 ^ 32" "w \<in> {2, 4, 8}" "unat (x :: u32) = n"
  shows "unat (x * of_nat w) = n * w"
  using assms by (auto simp: unat_word_ariths)

lemma intsetResize_grow:
  assumes rep: "is_contents is = arr w xs" "is_encoding is = of_nat w" "w \<in> {2, 4, 8}"
    and len: "unat l = Suc (length xs)" and room: "Suc (length xs) * w < 2 ^ 32"
  obtains y where "intsetResize junk is l = is\<lparr>is_contents := arr w (xs @ [y])\<rparr>"
proof -
  have sz: "unat (l * of_nat w) = Suc (length xs) * w"
    using unat_size [OF room rep(3) len] by simp
  obtain ys where ys: "length ys = Suc (length xs) - length xs"
    "mem_realloc junk (Suc (length xs) * w) (arr w xs) = arr w (xs @ ys)"
    using rep(3) by (auto intro: mem_realloc_arr_grow [of w xs "Suc (length xs)" junk])
  then obtain y where "ys = [y]" by (auto simp: length_Suc_conv)
  with ys sz rep show ?thesis by (intro that [of y]) (simp add: intsetResize_def)
qed

lemma intsetMoveTail_arr:
  assumes rep: "is_contents is = arr w xs" "is_encoding is = of_nat w" "w \<in> {2, 4, 8}"
    and "from \<le> is_length is" and n: "n = unat (is_length is) - unat from"
    and bnd: "unat from + n \<le> length xs" "unat to + n \<le> length xs" "n * w < 2 ^ 32"
  shows "intsetMoveTail is from to = Some (is\<lparr>is_contents :=
    arr w (take (unat to) xs @ take n (drop (unat from) xs) @ drop (unat to + n) xs)\<rparr>)"
proof -
  have "unat (is_length is - from) = n"
    using assms(4) n by (simp add: unat_sub)
  then have "unat ((is_length is - from) * of_nat w) = n * w"
    using unat_size [OF bnd(3) rep(3)] by simp
  with rep mem_move_arr [OF bnd(1,2), of w] show ?thesis
    by (auto simp: intsetMoveTail_def)
qed

lemma intsetAdd_same_enc:
  assumes rep: "intset_rep is w xs" and srt: "sorted_wrt (<) xs"
    and room: "Suc (length xs) * w < 2 ^ 32" and fit: "fits w v"
    and enc: "unat (intsetValueEncoding v) \<le> w" and new: "v \<notin> set xs"
  shows "\<exists>is' ys. intsetAdd junk is v = Some (is', True) \<and> intset_rep is' w ys \<and>
    sorted_wrt (<) ys \<and> set ys = insert v (set xs)"
proof -
  have w: "w \<in> {2, 4, 8}" and e: "is_encoding is = of_nat w" and c: "is_contents is = arr w xs"
    and l: "unat (is_length is) = length xs" and fx: "\<forall>x \<in> set xs. fits w x"
    using rep by (auto simp: intset_rep_def)
  obtain pos where s: "intsetSearch is v = Some (False, pos)" and ip: "insert_pos xs v (unat pos)"
    using intsetSearch_rep [OF rep srt, of v] new by auto
  let ?p = "unat pos"
  have p: "?p \<le> length xs" using ip by (simp add: insert_pos_def)
  have l1: "unat (is_length is + 1) = Suc (length xs)"
    using room w l by (auto simp: unat_word_ariths)
  obtain y where r: "intsetResize junk is (is_length is + 1) = is\<lparr>is_contents := arr w (xs @ [y])\<rparr>"
    using intsetResize_grow [OF c e w l1 room] by blast
  let ?is1 = "is\<lparr>is_contents := arr w (xs @ [y])\<rparr>"
  let ?zs = "take ?p xs @ (xs @ [y]) ! ?p # drop ?p xs"
  have sp: "sint pos = int ?p"
    using p intset_rep_length_lt [OF rep] by (intro sint_u32) simp
  have mv: "(if pos < is_length is then intsetMoveTail ?is1 pos (pos + 1) else Some ?is1) =
    Some (is\<lparr>is_contents := arr w ?zs\<rparr>)"
  proof (cases "pos < is_length is")
    case True
    then have lt: "?p < length xs" using l by (simp add: word_less_nat_alt)
    have p1: "unat (pos + 1) = Suc ?p"
      using lt intset_rep_length_lt [OF rep] by (auto simp: unat_word_ariths)
    have "(length xs - ?p) * w < 2 ^ 32"
      using room by (meson diff_le_self le_SucI le_less_trans mult_le_mono1)
    then have mv: "intsetMoveTail ?is1 pos (pos + 1) = Some (?is1\<lparr>is_contents :=
      arr w (take (Suc ?p) (xs @ [y]) @ take (length xs - ?p) (drop ?p (xs @ [y])) @
        drop (Suc ?p + (length xs - ?p)) (xs @ [y]))\<rparr>)"
      using True l lt w e
      by (subst intsetMoveTail_arr [where w = w and xs = "xs @ [y]" and n = "length xs - ?p"])
        (auto simp: p1 word_le_nat_alt word_less_nat_alt)
    have eq: "take (Suc ?p) (xs @ [y]) @ take (length xs - ?p) (drop ?p (xs @ [y])) @
        drop (Suc ?p + (length xs - ?p)) (xs @ [y]) = ?zs"
      using lt by (simp add: take_Suc_conv_app_nth nth_append)
    show ?thesis using True mv unfolding eq by simp
  next
    case False
    then have "?p = length xs" using l p by (simp add: word_less_nat_alt)
    with False show ?thesis by simp
  qed
  have st: "intset_Set (is\<lparr>is_contents := arr w ?zs\<rparr>) (sint pos) v =
    Some (is\<lparr>is_contents := arr w (take ?p xs @ v # drop ?p xs)\<rparr>)"
    unfolding sp using p
    by (subst intset_Set_arr [OF w, of _ ?zs]) (simp_all add: e list_update_append)
  let ?is' = "is\<lparr>is_contents := arr w (take ?p xs @ v # drop ?p xs), is_length := is_length is + 1\<rparr>"
  have "intsetAdd junk is v = Some (?is', True)"
    using enc unat_enc [OF w]
    by (simp add: intsetAdd_def s r e mv st del: arr_simps split del: if_split)
  moreover have "set (take ?p xs @ v # drop ?p xs) = insert v (set xs)"
    by (metis Un_insert_right append_take_drop_id list.set(2) set_append)
  moreover have "intset_rep ?is' w (take ?p xs @ v # drop ?p xs)"
    using w e l1 room p fit fx
    by (auto simp: intset_rep_def dest: in_set_takeD in_set_dropD)
  ultimately show ?thesis
    using sorted_insert_pos [OF srt ip] by blast
qed


subsection \<open>Insertion with a larger encoding\<close>

lemma intsetGetEncoded_prefix:
  assumes "cw \<in> {2, 4, 8}" "k < length xs" "(Suc k) * cw \<le> length (is_contents is)"
    "take (Suc k * cw) (is_contents is) = arr cw (take (Suc k) xs)" "fits cw (xs ! k)"
  shows "intsetGetEncoded is (int k) (of_nat cw) = Some (xs ! k)"
proof -
  let ?c = "is_contents is"
  have "mem_read (k * cw) cw ?c = mem_read (k * cw) cw (take (Suc k * cw) ?c)"
    using assms(3) by (auto simp: mem_read_def min_def drop_take add.commute)
  also have "\<dots> = Some (le_bytes cw (xs ! k))"
    using mem_read_arr [of k "take (Suc k) xs" cw] assms(2,4) by simp
  finally have "map_option le_sint (mem_read (k * cw) cw ?c) = Some (xs ! k)"
    using assms(1,5) by (auto simp: le_sint_le_bytes)
  with assms(1) show ?thesis by (auto simp: intsetGetEncoded_def)
qed

lemma upgrade_step:
  assumes "upgrade_state cw nw p (Suc k) xs t m" "k < length xs" "cw \<le> nw"
  obtains m' where "mem_write ((k + p) * nw) (le_bytes nw (xs ! k)) m = Some m'"
    "upgrade_state cw nw p k xs t m'"
proof -
  have len: "length m = (length xs + p) * nw + length t"
    and tk: "take (Suc k * cw) m = arr cw (take (Suc k) xs)"
    and dr: "drop ((Suc k + p) * nw) m = arr nw (drop (Suc k) xs) @ t"
    using assms(1) by (auto simp: upgrade_state_def)
  have "(Suc k + p) * nw \<le> (length xs + p) * nw"
    using assms(2) by (intro mult_le_mono1) simp
  then have bound: "(k + p) * nw + nw \<le> length m"
    unfolding len by simp
  let ?m' = "take ((k + p) * nw) m @ le_bytes nw (xs ! k) @ drop ((k + p) * nw + nw) m"
  have "k * cw \<le> (k + p) * nw"
    using assms(3) by (simp add: mult_le_mono add_increasing)
  then have "take (k * cw) ?m' = take (k * cw) m"
    using bound by (simp add: min_def)
  also have "\<dots> = take (k * cw) (take (Suc k * cw) m)"
    by (simp add: min_def)
  also have "\<dots> = arr cw (take k xs)"
    unfolding tk take_arr using assms(2) by (simp add: min_def)
  finally have "take (k * cw) ?m' = arr cw (take k xs)" .
  moreover have "drop ((k + p) * nw) ?m' = arr nw (drop k xs) @ t"
  proof -
    have "drop ((k + p) * nw) ?m' = le_bytes nw (xs ! k) @ drop ((Suc k + p) * nw) m"
      using bound by (simp add: add.commute)
    also have "\<dots> = arr nw (drop k xs) @ t"
      unfolding dr using assms(2) by (simp flip: Cons_nth_drop_Suc)
    finally show ?thesis .
  qed
  moreover have "length ?m' = length m" using bound by simp
  ultimately have "upgrade_state cw nw p k xs t ?m'"
    unfolding upgrade_state_def len by simp
  then show ?thesis using that bound by (simp add: mem_write_def)
qed

lemma intsetUpgrade_loop:
  assumes "cw \<in> {2, 4, 8}" "nw \<in> {2, 4, 8}" "cw \<le> nw" "is_encoding is = of_nat nw"
    "k \<le> length xs" "\<forall>x \<in> set xs. fits cw x" "upgrade_state cw nw p k xs t (is_contents is)"
  shows "\<exists>m'. intsetUpgrade_loop k (int p) (of_nat cw) is = Some (is\<lparr>is_contents := m'\<rparr>) \<and>
    upgrade_state cw nw p 0 xs t m'"
  using assms(4-)
proof (induction k arbitrary: "is")
  case 0
  then show ?case by (intro exI [of _ "is_contents is"]) simp
next
  case (Suc k)
  let ?c = "is_contents is"
  have "Suc k * cw \<le> length xs * nw"
    using Suc.prems(2) assms(3) by (rule mult_le_mono)
  then have "Suc k * cw \<le> length ?c"
    using Suc.prems(4) by (simp add: upgrade_state_def add_mult_distrib)
  then have get: "intsetGetEncoded is (int k) (of_nat cw) = Some (xs ! k)"
    using Suc.prems assms(1)
    by (intro intsetGetEncoded_prefix) (auto simp: upgrade_state_def)
  obtain m' where m': "mem_write ((k + p) * nw) (le_bytes nw (xs ! k)) ?c = Some m'"
    "upgrade_state cw nw p k xs t m'"
    using upgrade_step [OF Suc.prems(4)] Suc.prems(2) assms(3) by auto
  have set: "intset_Set is (int k + int p) (xs ! k) = Some (is\<lparr>is_contents := m'\<rparr>)"
    using assms(2) Suc.prems(1) m'(1) by (auto simp: intset_Set_def nat_add_distrib)
  obtain m'' where "intsetUpgrade_loop k (int p) (of_nat cw) (is\<lparr>is_contents := m'\<rparr>) =
      Some (is\<lparr>is_contents := m''\<rparr>)" "upgrade_state cw nw p 0 xs t m''"
    using Suc.IH [of "is\<lparr>is_contents := m'\<rparr>"] Suc.prems m'(2) by auto
  with get set show ?case by auto
qed


lemma not_fits_outside:
  assumes "\<not> fits w v" "fits w x"
  shows "if v < 0 then v < x else x < v"
  using assms by (auto simp: fits_def)

lemma valueEncoding_width: "unat (intsetValueEncoding v) \<in> {2, 4, 8}"
  by (simp add: intsetValueEncoding_def)

lemma of_nat_unat_valueEncoding:
  "ucast (intsetValueEncoding v) = (of_nat (unat (intsetValueEncoding v)) :: u32)"
  by (simp add: intsetValueEncoding_def)

lemma upgrade_start:
  assumes "w \<le> nw" "p \<le> 1"
  obtains t where "length t = (1 - p) * nw"
    "upgrade_state w nw p (length xs) xs t (mem_realloc junk (Suc (length xs) * nw) (arr w xs))"
proof -
  let ?m = "mem_realloc junk (Suc (length xs) * nw) (arr w xs)"
  let ?t = "drop ((length xs + p) * nw) ?m"
  have "length xs * w \<le> Suc (length xs) * nw"
    using assms(1) by (intro mult_le_mono) auto
  then have "take (length xs * w) ?m = arr w xs"
    by (subst take_mem_realloc) auto
  moreover have "length ?t = (1 - p) * nw"
    using assms(2) by (cases p) auto
  moreover have "Suc (length xs) * nw = (length xs + p) * nw + (1 - p) * nw"
    using assms(2) by (cases p) auto
  ultimately show ?thesis by (intro that [of ?t]) (simp_all add: upgrade_state_def)
qed

lemma upgrade_end_prepend:
  assumes "upgrade_state w nw 1 0 xs [] m" "0 < nw"
  obtains y where "m = arr nw (y # xs)"
proof -
  have len: "length m = Suc (length xs) * nw" and dr: "drop nw m = arr nw xs"
    using assms(1) by (auto simp: upgrade_state_def)
  obtain ys where ys: "length ys = Suc (length xs)" "m = arr nw ys"
    using arr_of_bytes [OF assms(2) len] by blast
  then obtain y zs where "ys = y # zs" by (cases ys) auto
  with ys dr have "m = le_bytes nw y @ arr nw xs" by simp
  then show ?thesis using that by simp
qed

lemma upgrade_end_append:
  assumes "upgrade_state w nw 0 0 xs t m" "0 < nw" "length t = nw"
  obtains y where "m = arr nw (xs @ [y])"
proof -
  obtain ys where "length ys = 1" "t = arr nw ys"
    using arr_of_bytes [OF assms(2), of t 1] assms(3) by auto
  then obtain y where "t = arr nw [y]" by (auto simp: length_Suc_conv)
  with assms(1) show ?thesis by (intro that [of y]) (simp add: upgrade_state_def)
qed

lemma intsetUpgradeAndAdd_rep:
  assumes rep: "intset_rep is w xs" and srt: "sorted_wrt (<) xs"
    and nw: "nw = unat (intsetValueEncoding v)" "w < nw" and v: "INT64_MIN \<le> v" "v \<le> INT64_MAX"
    and room: "Suc (length xs) * nw < 2 ^ 32"
  shows "\<exists>is' ys. intsetUpgradeAndAdd junk is v = Some is' \<and> intset_rep is' nw ys \<and>
    sorted_wrt (<) ys \<and> set ys = insert v (set xs)"
proof -
  have w: "w \<in> {2, 4, 8}" and e: "is_encoding is = of_nat w" and c: "is_contents is = arr w xs"
    and l: "unat (is_length is) = length xs" and fx: "\<forall>x \<in> set xs. fits w x"
    using rep by (auto simp: intset_rep_def)
  have nw3: "nw \<in> {2, 4, 8}" using nw(1) valueEncoding_width by simp
  have ne: "ucast (intsetValueEncoding v) = (of_nat nw :: u32)"
    using of_nat_unat_valueEncoding nw(1) by simp
  have ce: "ucast (is_encoding is) = (of_nat w :: byte)" using e w by auto
  have l1: "unat (is_length is + 1) = Suc (length xs)"
    using room nw3 l by (auto simp: unat_word_ariths)
  have sl: "sint (is_length is) = int (length xs)"
    using l intset_rep_length_lt [OF rep] by (simp add: sint_u32)
  have sz: "unat ((is_length is + 1) * of_nat nw) = Suc (length xs) * nw"
    using unat_size [OF room nw3 l1] .
  define p where "p = (if v < 0 then 1 else 0 :: nat)"
  let ?m = "mem_realloc junk (Suc (length xs) * nw) (arr w xs)"
  let ?is2 = "is\<lparr>is_encoding := of_nat nw, is_contents := ?m\<rparr>"
  obtain t where t: "length t = (1 - p) * nw" "upgrade_state w nw p (length xs) xs t ?m"
    by (rule upgrade_start [of w nw p xs junk]) (use nw(2) in \<open>simp_all add: p_def\<close>)
  obtain m where loop: "intsetUpgrade_loop (length xs) (int p) (of_nat w) ?is2 =
      Some (?is2\<lparr>is_contents := m\<rparr>)" and m: "upgrade_state w nw p 0 xs t m"
    using intsetUpgrade_loop [OF w nw3, of ?is2 "length xs" xs p t] nw(2) fx t(2) by auto
  let ?ys = "if v < 0 then v # xs else xs @ [v]"
  let ?is' = "is\<lparr>is_encoding := of_nat nw, is_contents := arr nw ?ys, is_length := is_length is + 1\<rparr>"
  have "intsetUpgradeAndAdd junk is v = Some ?is'"
  proof (cases "v < 0")
    case True
    obtain y where "m = arr nw (y # xs)"
      by (rule upgrade_end_prepend [of w nw xs m])
        (use True m t(1) nw3 in \<open>auto simp: p_def\<close>)
    then have "intset_Set (?is2\<lparr>is_contents := m\<rparr>) (int 0) v =
        Some (?is2\<lparr>is_contents := arr nw (v # xs)\<rparr>)"
      by (subst intset_Set_arr [OF nw3, of _ "y # xs"]) simp_all
    with True loop show ?thesis
      by (simp add: intsetUpgradeAndAdd_def Let_def ne ce sl intsetResize_def sz c p_def)
  next
    case False
    obtain y where "m = arr nw (xs @ [y])"
      by (rule upgrade_end_append [of w nw xs t m])
        (use False m t(1) nw3 in \<open>auto simp: p_def\<close>)
    then have "intset_Set (?is2\<lparr>is_contents := m\<rparr>) (int (length xs)) v =
        Some (?is2\<lparr>is_contents := arr nw (xs @ [v])\<rparr>)"
      by (subst intset_Set_arr [OF nw3, of _ "xs @ [y]"]) simp_all
    with False loop show ?thesis
      by (simp add: intsetUpgradeAndAdd_def Let_def ne ce sl intsetResize_def sz c p_def)
  qed
  moreover have nf: "\<not> fits w v" "fits nw v"
    using fits_valueEncoding [OF v w] fits_valueEncoding [OF v nw3] nw by auto
  have "sorted_wrt (<) ?ys"
    using srt not_fits_outside [OF nf(1)] fx by (fastforce simp: sorted_wrt_append)
  moreover have "\<forall>x \<in> set xs. fits nw x"
    using fx nw(2) by (auto intro: fits_mono [of w])
  with nf(2) l1 room nw3 have "intset_rep ?is' nw ?ys"
    by (auto simp: intset_rep_def simp del: arr_simps)
  moreover have "set ?ys = insert v (set xs)" by auto
  ultimately show ?thesis by blast
qed


subsection \<open>The operations on well-formed sets\<close>

lemma sorted_list_of_set_strict:
  "sorted_wrt (<) ys \<Longrightarrow> set ys = S \<Longrightarrow> ys = sorted_list_of_set S" for ys :: "int list"
  by (metis strict_sorted_iff sorted_list_of_set.idem_if_sorted_distinct)

lemma intset_rep_result:
  assumes "intset_rep is w xs" "sorted_wrt (<) xs" "set xs = S"
  shows "intset_ok is \<and> intset_elems is = sorted_list_of_set S \<and> unat (is_encoding is) = w"
proof -
  have "unat (is_encoding is) = w"
    using assms(1) by (auto simp: intset_rep_def)
  moreover have "xs = sorted_list_of_set S"
    using assms(2,3) by (rule sorted_list_of_set_strict)
  ultimately show ?thesis
    using intset_okI [OF assms(1,2)] intset_rep_elems [OF assms(1)] by simp
qed

lemma intset_ok_sorted: "intset_ok is \<Longrightarrow> sorted_wrt (<) (intset_elems is)"
  by (simp add: intset_ok_def)

lemma intsetAdd_ok:
  assumes ok: "intset_ok is" and v: "int64 v" and room: "intset_room is v"
  shows "\<exists>is'. intsetAdd junk is v = Some (is', v \<notin> set (intset_elems is)) \<and> intset_ok is' \<and>
    intset_elems is' = sorted_list_of_set (insert v (set (intset_elems is))) \<and>
    unat (is_encoding is') = max (unat (is_encoding is)) (unat (intsetValueEncoding v))"
proof -
  let ?w = "unat (is_encoding is)" and ?xs = "intset_elems is"
  have rep: "intset_rep is ?w ?xs" and srt: "sorted_wrt (<) ?xs"
    using ok by (auto intro: intset_ok_rep intset_ok_sorted)
  then have w: "?w \<in> {2, 4, 8}" and l: "unat (is_length is) = length ?xs"
    by (auto simp: intset_rep_def)
  show ?thesis
  proof (cases "unat (intsetValueEncoding v) > ?w")
    case True
    obtain is' ys where up: "intsetUpgradeAndAdd junk is v = Some is'"
      and ys: "intset_rep is' (unat (intsetValueEncoding v)) ys" "sorted_wrt (<) ys"
        "set ys = insert v (set ?xs)"
      using intsetUpgradeAndAdd_rep [OF rep srt refl True, of junk] v room True l
      by (auto simp: intset_room_def max_def)
    have "\<not> fits ?w v" using fits_valueEncoding [OF _ _ w] v True by simp
    then have "v \<notin> set ?xs" using rep by (auto simp: intset_rep_def)
    moreover have "intsetAdd junk is v = Some (is', True)"
      using True up by (simp add: intsetAdd_def)
    ultimately show ?thesis
      using intset_rep_result [OF ys] True by auto
  next
    case False
    then have fit: "fits ?w v" using fits_valueEncoding [OF _ _ w] v by simp
    show ?thesis
    proof (cases "v \<in> set ?xs")
      case True
      then obtain pos where "intsetSearch is v = Some (True, pos)"
        using intsetSearch_rep [OF rep srt, of v] by auto
      with False have "intsetAdd junk is v = Some (is, False)"
        by (simp add: intsetAdd_def)
      with True False intset_rep_result [OF rep srt refl] show ?thesis
        by (auto simp: insert_absorb)
    next
      case new: False
      obtain is' ys where "intsetAdd junk is v = Some (is', True)" and
        ys: "intset_rep is' ?w ys" "sorted_wrt (<) ys" "set ys = insert v (set ?xs)"
        using intsetAdd_same_enc [OF rep srt _ fit _ new, of junk] room False l
        by (auto simp: intset_room_def max_def)
      with new False intset_rep_result [OF ys] show ?thesis by auto
    qed
  qed
qed

lemma intsetFind_ok:
  assumes ok: "intset_ok is" and v: "int64 v"
  shows "intsetFind is v = Some (v \<in> set (intset_elems is))"
proof -
  let ?w = "unat (is_encoding is)" and ?xs = "intset_elems is"
  have rep: "intset_rep is ?w ?xs" and srt: "sorted_wrt (<) ?xs"
    using ok by (auto intro: intset_ok_rep intset_ok_sorted)
  then have w: "?w \<in> {2, 4, 8}" and fx: "\<forall>x \<in> set ?xs. fits ?w x" by (auto simp: intset_rep_def)
  show ?thesis
  proof (cases "unat (intsetValueEncoding v) \<le> ?w")
    case True
    with intsetSearch_rep [OF rep srt, of v] show ?thesis
      by (auto simp: intsetFind_def)
  next
    case False
    then have "v \<notin> set ?xs" using fits_valueEncoding [OF _ _ w] v fx by auto
    with False show ?thesis by (simp add: intsetFind_def)
  qed
qed


lemma intsetRemove_ok:
  assumes ok: "intset_ok is" and v: "int64 v"
  shows "\<exists>is'. intsetRemove junk is v = Some (is', v \<in> set (intset_elems is)) \<and> intset_ok is' \<and>
    intset_elems is' = sorted_list_of_set (set (intset_elems is) - {v}) \<and>
    is_encoding is' = is_encoding is"
proof -
  let ?w = "unat (is_encoding is)" and ?xs = "intset_elems is"
  have rep: "intset_rep is ?w ?xs" and srt: "sorted_wrt (<) ?xs"
    using ok by (auto intro: intset_ok_rep intset_ok_sorted)
  then have w: "?w \<in> {2, 4, 8}" and fx: "\<forall>x \<in> set ?xs. fits ?w x" and l: "unat (is_length is) = length ?xs"
    and e: "is_encoding is = of_nat ?w" and c: "is_contents is = arr ?w ?xs"
    and sz: "length ?xs * ?w < 2 ^ 32"
    by (auto simp: intset_rep_def)
  show ?thesis
  proof (cases "v \<in> set ?xs")
    case False
    then have "intsetRemove junk is v = Some (is, False)"
      using intsetSearch_rep [OF rep srt, of v] by (auto simp: intsetRemove_def)
    with False intset_rep_result [OF rep srt refl] ok show ?thesis by auto
  next
    case True
    then obtain pos where s: "intsetSearch is v = Some (True, pos)"
      and p: "unat pos < length ?xs" "?xs ! unat pos = v"
      using intsetSearch_rep [OF rep srt, of v] by auto
    let ?p = "unat pos" and ?ys = "take (unat pos) ?xs @ drop (Suc (unat pos)) ?xs"
    have enc: "unat (intsetValueEncoding v) \<le> ?w"
      using fits_valueEncoding [OF _ _ w] v fx True by auto
    have nz: "is_length is \<noteq> 0" using p l by auto
    have l1: "unat (is_length is - 1) = length ?xs - 1"
      using unat_minus_1 [OF nz] l by simp
    obtain z where mv: "(if pos < is_length is - 1 then intsetMoveTail is (pos + 1) pos else Some is) =
        Some (is\<lparr>is_contents := arr ?w (?ys @ [z])\<rparr>)"
    proof (cases "pos < is_length is - 1")
      case True
      then have lt: "Suc ?p < length ?xs" using l1 by (simp add: word_less_nat_alt)
      have p1: "unat (pos + 1) = Suc ?p"
        using lt intset_rep_length_lt [OF rep] by (auto simp: unat_word_ariths)
      have "(length ?xs - Suc ?p) * ?w < 2 ^ 32"
        using sz by (meson diff_le_self le_less_trans mult_le_mono1)
      then have mv: "intsetMoveTail is (pos + 1) pos = Some (is\<lparr>is_contents :=
        arr ?w (take ?p ?xs @ take (length ?xs - Suc ?p) (drop (Suc ?p) ?xs) @
          drop (?p + (length ?xs - Suc ?p)) ?xs)\<rparr>)"
        using l lt w
        by (subst intsetMoveTail_arr [OF c e w, where n = "length ?xs - Suc ?p"])
          (auto simp: p1 word_le_nat_alt)
      have "length (drop (?p + (length ?xs - Suc ?p)) ?xs) = 1" using lt by simp
      then obtain z where z: "drop (?p + (length ?xs - Suc ?p)) ?xs = [z]"
        by (auto simp: length_Suc_conv simp del: length_drop)
      have eq: "take ?p ?xs @ take (length ?xs - Suc ?p) (drop (Suc ?p) ?xs) @
          drop (?p + (length ?xs - Suc ?p)) ?xs = ?ys @ [z]"
        using lt unfolding z by simp
      show ?thesis using True mv that [of z] unfolding eq by simp
    next
      case False
      then have "Suc ?p = length ?xs" using l1 p by (simp add: word_less_nat_alt)
      then have "?xs = ?ys @ [v]"
        using p id_take_nth_drop [of ?p ?xs] by simp
      with False c show ?thesis by (intro that [of v]) simp
    qed
    let ?is' = "is\<lparr>is_contents := arr ?w ?ys, is_length := is_length is - 1\<rparr>"
    have ly: "length ?ys = length ?xs - 1" using p by simp
    have szl: "(length ?xs - 1) * ?w < 2 ^ 32"
      using sz by (meson diff_le_self le_less_trans mult_le_mono1)
    have "unat ((is_length is - 1) * is_encoding is) = length ?ys * ?w"
      using unat_size [OF szl w l1] ly by simp
    moreover have "mem_realloc junk (length ?ys * ?w) (arr ?w (?ys @ [z])) = arr ?w ?ys"
      by (rule mem_realloc_arr_prefix)
    ultimately have "intsetRemove junk is v = Some (?is', True)"
      using enc by (simp add: intsetRemove_def s mv intsetResize_def del: arr_simps split del: if_split)
    moreover have dst: "distinct ?xs" using srt by (simp add: strict_sorted_iff)
    have xs: "?xs = take ?p ?xs @ v # drop (Suc ?p) ?xs"
      using p id_take_nth_drop [of ?p ?xs] by simp
    have set: "set ?ys = set ?xs - {v}"
      using dst by (subst (3) xs, subst (asm) xs) auto
    have "sorted_wrt (<) (take ?p ?xs @ v # drop (Suc ?p) ?xs)"
      using srt xs by simp
    then have "sorted_wrt (<) ?ys" by (auto simp: sorted_wrt_append)
    moreover have "intset_rep ?is' ?w ?ys"
      using w szl fx ly l1 e
      by (auto simp: intset_rep_def simp del: arr_simps dest: in_set_takeD in_set_dropD)
    ultimately show ?thesis
      using intset_rep_result [of ?is' ?w ?ys, OF _ _ set] True by auto
  qed
qed

lemma intsetGet_ok:
  assumes "intset_ok is"
  shows "intsetGet is pos =
    (if unat pos < length (intset_elems is) then Some (True, Some (intset_elems is ! unat pos))
     else Some (False, None))"
proof -
  have rep: "intset_rep is (unat (is_encoding is)) (intset_elems is)"
    using assms by (rule intset_ok_rep)
  then have l: "unat (is_length is) = length (intset_elems is)" by (simp add: intset_rep_def)
  show ?thesis
    using intset_rep_Get [OF rep, of "unat pos"] intset_rep_length_lt [OF rep] sint_u32 [of pos]
    by (auto simp: intsetGet_def word_less_nat_alt l)
qed

lemma intsetRandom_ok:
  assumes "intset_ok is" "intset_elems is \<noteq> []"
  shows "\<exists>x \<in> set (intset_elems is). intsetRandom r is = Some x"
proof -
  have rep: "intset_rep is (unat (is_encoding is)) (intset_elems is)"
    using assms(1) by (rule intset_ok_rep)
  then have l: "unat (is_length is) = length (intset_elems is)" by (simp add: intset_rep_def)
  let ?i = "of_nat r mod is_length is"
  have lt: "unat ?i < length (intset_elems is)"
    using assms(2) l by (simp add: unat_mod)
  with intset_rep_length_lt [OF rep] have "sint ?i = int (unat ?i)"
    by (intro sint_u32) simp
  moreover have "is_length is \<noteq> 0" using assms(2) l by auto
  ultimately show ?thesis
    using intset_rep_Get [OF rep lt] lt by (simp add: intsetRandom_def)
qed

lemma intsetBlobLen_ok:
  assumes "intset_ok is"
  shows "unat (intsetBlobLen is) = 8 + length (is_contents is)"
proof -
  have "unat (is_length is * is_encoding is) = length (is_contents is)"
    using assms by (simp add: intset_ok_def unat_word_ariths)
  moreover have "length (is_contents is) < 2 ^ 32"
    using assms by (simp add: intset_ok_def)
  ultimately show ?thesis
    by (simp add: intsetBlobLen_def unat_word_ariths unat_u32_u64)
qed


section \<open>The set interface\<close>

interpretation intset: checked_set intsetNew "intsetAdd junk" "intsetRemove junk" intsetFind
  "\<lambda>is. set (intset_elems is)" intset_ok "\<lambda>v. int64 v" intset_room for junk
proof (unfold_locales, goal_cases)
  case 1
  show ?case by (simp add: intset_ok_def intsetNew_def intset_elems_def)
next
  case 2
  show ?case by (simp add: intsetNew_def intset_elems_def)
next
  case (3 s x)
  then obtain is' where "intsetAdd junk s x = Some (is', x \<notin> set (intset_elems s))" "intset_ok is'"
    and el: "intset_elems is' = sorted_list_of_set (insert x (set (intset_elems s)))"
    using intsetAdd_ok [of s x junk] by blast
  moreover have "set (intset_elems is') = insert x (set (intset_elems s))"
    by (simp only: el set_sorted_list_of_set finite_insert List.finite_set)
  ultimately show ?case by blast
next
  case (4 s x)
  then show ?case using intsetRemove_ok [of s x junk] by auto
next
  case (5 s x)
  then show ?case by (simp add: intsetFind_ok)
qed

lemma intsetAdd_length:
  assumes "intset_ok is" "int64 v" "intset_room is v" "intsetAdd junk is v = Some (is', b)"
  shows "intset_ok is' \<and> unat (is_length is') \<le> Suc (unat (is_length is))"
proof -
  have l: "unat (is_length s) = length (intset_elems s)" if "intset_ok s" for s
    using intset_ok_rep [OF that] by (simp add: intset_rep_def)
  have ok: "intset_ok is'" and el: "intset_elems is' = sorted_list_of_set (insert v (set (intset_elems is)))"
    using intsetAdd_ok [OF assms(1-3), of junk] assms(4) by auto
  have "length (intset_elems is') = card (insert v (set (intset_elems is)))"
    unfolding el by (simp only: sorted_list_of_set.length_sorted_key_list_of_set)
  also have "\<dots> \<le> Suc (length (intset_elems is))"
    using card_length [of "v # intset_elems is"] by simp
  finally show ?thesis using ok l assms(1) by simp
qed

lemma intsetRemove_length:
  assumes "intset_ok is" "int64 v" "intsetRemove junk is v = Some (is', b)"
  shows "intset_ok is' \<and> unat (is_length is') \<le> unat (is_length is)"
proof -
  have l: "unat (is_length s) = length (intset_elems s)" if "intset_ok s" for s
    using intset_ok_rep [OF that] by (simp add: intset_rep_def)
  have ok: "intset_ok is'" and el: "intset_elems is' = sorted_list_of_set (set (intset_elems is) - {v})"
    using intsetRemove_ok [OF assms(1,2), of junk] assms(3) by auto
  have "length (intset_elems is') = card (set (intset_elems is) - {v})"
    unfolding el by (simp only: sorted_list_of_set.length_sorted_key_list_of_set)
  also have "\<dots> \<le> length (intset_elems is)"
    by (meson card_Diff1_le card_length le_trans)
  finally show ?thesis using ok l assms(1) by simp
qed

lemma intset_room_small: "intset_ok is \<Longrightarrow> Suc (unat (is_length is)) < 2 ^ 29 \<Longrightarrow> intset_room is v"
proof -
  assume ok: "intset_ok is" and small: "Suc (unat (is_length is)) < 2 ^ 29"
  have "max (unat (is_encoding is)) (unat (intsetValueEncoding v)) \<le> 8"
    using ok valueEncoding_width [of v] by (auto simp: intset_ok_def)
  then have "Suc (unat (is_length is)) * max (unat (is_encoding is)) (unat (intsetValueEncoding v))
      \<le> Suc (unat (is_length is)) * 8"
    by (rule mult_le_mono2)
  with small show ?thesis by (simp add: intset_room_def)
qed

lemma intset_run_room:
  assumes "intset_ok is" "unat (is_length is) + length ops < 2 ^ 29" "\<forall>op \<in> set ops. int64 (op_value op)"
  shows "run_room (intsetAdd junk) (intsetRemove junk) intset_room is ops"
  using assms
proof (induction ops arbitrary: "is")
  case Nil
  then show ?case by simp
next
  case (Cons op ops)
  show ?case
  proof (cases op)
    case (Add x)
    have room: "intset_room is x"
      using Cons.prems by (intro intset_room_small) auto
    moreover have "run_room (intsetAdd junk) (intsetRemove junk) intset_room is' ops"
      if "intsetAdd junk is x = Some (is', b)" for is' b
      using intsetAdd_length [OF Cons.prems(1) _ room that] Cons.prems Add
      by (intro Cons.IH) auto
    ultimately show ?thesis using Add by (auto split: option.split)
  next
    case (Remove x)
    have "run_room (intsetAdd junk) (intsetRemove junk) intset_room is' ops"
      if "intsetRemove junk is x = Some (is', b)" for is' b
      using intsetRemove_length [OF Cons.prems(1) _ that] Cons.prems Remove
      by (intro Cons.IH) auto
    then show ?thesis using Remove by (auto split: option.split)
  qed
qed

lemma intsetNew_run_room:
  assumes "length ops < 2 ^ 29" "\<forall>op \<in> set ops. int64 (op_value op)"
  shows "run_room (intsetAdd junk) (intsetRemove junk) intset_room intsetNew ops"
  using assms intset.ok_new by (intro intset_run_room) (simp_all add: intsetNew_def)

section \<open>Properties\<close>

text \<open>
  (C12) On a well-formed integer set, \<open>intsetAdd\<close> of any 64-bit value touches no byte outside of
  its block, keeps the set well formed (sorted, one width, block of the right size), inserts
  the value at its place, reports whether it was new, and uses the smallest encoding that
  holds both the old encoding and the value. This covers the upgrade path, the duplicate and
  the shift of the tail. The room hypothesis is that the byte size fits the \<open>uint32_t\<close> of
  \<open>intsetResize\<close>.
\<close>

theorem intsetAdd_correct:
  assumes "intset_ok is" "int64 v" "intset_room is v"
  shows "\<exists>is'. intsetAdd junk is v = Some (is', v \<notin> set (intset_elems is)) \<and> intset_ok is' \<and>
    intset_elems is' = sorted_list_of_set (insert v (set (intset_elems is))) \<and>
    unat (is_encoding is') = max (unat (is_encoding is)) (unat (intsetValueEncoding v))"
  using assms by (rule intsetAdd_ok)

theorem intsetAdd_correct_witness:
  "\<exists>is'. intsetAdd (\<lambda>_. 171) \<lparr>is_encoding = 2, is_length = 2, is_contents = arr 2 [-5, 7]\<rparr> 100000 =
      Some (is', True) \<and> intset_ok is' \<and> intset_elems is' = [-5, 7, 100000]"
proof -
  let ?s = "\<lparr>is_encoding = 2, is_length = 2, is_contents = arr 2 [-5, 7]\<rparr>"
  have el: "intset_elems ?s = [-5, 7]"
    by (rule intset_rep_elems [of _ 2]) (simp add: intset_rep_def fits_numeral)
  have ok: "intset_ok ?s"
    unfolding intset_ok_def el by simp
  have room: "intset_room ?s 100000"
    by (simp add: intset_room_def intsetValueEncoding_def)
  have "sorted_list_of_set (insert 100000 (set [-5, 7 :: int])) = [-5, 7, 100000]"
    by simp
  with intsetAdd_correct [OF ok _ room, of "\<lambda>_. 171"] show ?thesis
    unfolding el by auto
qed

text \<open>
  (C16) \<open>intsetRemove\<close> removes exactly the given value, reports whether it was there, touches no
  byte outside of the block and keeps the set well formed and its encoding.
\<close>

theorem intsetRemove_correct:
  assumes "intset_ok is" "int64 v"
  shows "\<exists>is'. intsetRemove junk is v = Some (is', v \<in> set (intset_elems is)) \<and> intset_ok is' \<and>
    intset_elems is' = sorted_list_of_set (set (intset_elems is) - {v}) \<and>
    is_encoding is' = is_encoding is"
  using assms by (rule intsetRemove_ok)

theorem intsetRemove_correct_witness:
  "\<exists>is'. intsetRemove (\<lambda>_. 0) \<lparr>is_encoding = 4, is_length = 3, is_contents = arr 4 [-70000, 7, 9]\<rparr> 7 =
      Some (is', True) \<and> intset_ok is' \<and> intset_elems is' = [-70000, 9]"
proof -
  let ?s = "\<lparr>is_encoding = 4, is_length = 3, is_contents = arr 4 [-70000, 7, 9]\<rparr>"
  have el: "intset_elems ?s = [-70000, 7, 9]"
    by (rule intset_rep_elems [of _ 4]) (simp add: intset_rep_def fits_numeral)
  have ok: "intset_ok ?s"
    unfolding intset_ok_def el by simp
  have "sorted_list_of_set (set [-70000, 7, 9 :: int] - {7}) = [-70000, 9]"
    by (simp add: insert_Diff_if)
  with intsetRemove_correct [OF ok, of 7 "\<lambda>_. 0"] show ?thesis
    unfolding el by auto
qed

text \<open>
  (C21) The bisection of \<open>intsetSearch\<close> ends, never reads outside of the block, and decides
  membership: \<open>intsetFind\<close> returns whether the value is an element. The midpoint computed in
  \<open>unsigned int\<close> never wraps.
\<close>

theorem intsetFind_correct:
  assumes "intset_ok is" "int64 v"
  shows "intsetFind is v = Some (v \<in> set (intset_elems is))"
  using assms by (rule intsetFind_ok)

theorem intsetFind_correct_witness:
  "intsetFind \<lparr>is_encoding = 2, is_length = 3, is_contents = arr 2 [-5, 7, 300]\<rparr> 300 = Some True"
proof -
  let ?s = "\<lparr>is_encoding = 2, is_length = 3, is_contents = arr 2 [-5, 7, 300]\<rparr>"
  have el: "intset_elems ?s = [-5, 7, 300]"
    by (rule intset_rep_elems [of _ 2]) (simp add: intset_rep_def fits_numeral)
  have "intset_ok ?s" unfolding intset_ok_def el by simp
  from intsetFind_correct [OF this, of 300] show ?thesis unfolding el by simp
qed

text \<open>
  (C11) Every history of additions and removals starting from \<open>intsetNew\<close> yields the set that
  the same history yields on mathematical sets, whatever bytes the allocator hands out and
  however often the encoding is upgraded on the way.
\<close>

theorem intset_history_correct:
  assumes "length ops < 2 ^ 29" "\<forall>op \<in> set ops. int64 (op_value op)"
  shows "\<exists>is'. run_ops (intsetAdd junk) (intsetRemove junk) intsetNew ops = Some is' \<and> intset_ok is' \<and>
    intset_elems is' = sorted_list_of_set (spec_ops {} ops)"
proof -
  obtain is' where r: "run_ops (intsetAdd junk) (intsetRemove junk) intsetNew ops = Some is'"
    and ok: "intset_ok is'" and el: "set (intset_elems is') = spec_ops {} ops"
    using intset.run_ops_correct [OF intsetNew_run_room [OF assms] assms(2)] by blast
  have "intset_elems is' = sorted_list_of_set (spec_ops {} ops)"
    using intset_ok_sorted [OF ok] el by (rule sorted_list_of_set_strict)
  with r ok show ?thesis by blast
qed

theorem intset_history_correct_witness:
  "\<exists>is'. run_ops (intsetAdd (\<lambda>_. 7)) (intsetRemove (\<lambda>_. 7)) intsetNew [Add 5, Add 70000, Remove 5, Add (-9)] =
      Some is' \<and> intset_ok is' \<and> intset_elems is' = [-9, 70000]"
proof -
  have "spec_ops {} [Add 5, Add 70000, Remove 5, Add (-9)] = {-9, 70000 :: int}" by auto
  moreover have "sorted_list_of_set {-9, 70000 :: int} = [-9, 70000]" by simp
  ultimately show ?thesis
    using intset_history_correct [of "[Add 5, Add 70000, Remove 5, Add (-9)]" "\<lambda>_. 7"] by simp
qed

end
