(* ===== verification/Endian.thy ===== *)
theory Endian
  imports Prelude
begin

text \<open>
  Byte order conversion: \<open>src/redis-stable/src/endianconv.c\<close> and the macros of \<open>endianconv.h\<close>.
  The host's byte order is an argument; the in-place swaps are updates of a byte list. The
  other theories write their blocks in little endian directly: the theorem on the \<open>ifbe\<close>
  macros is what makes that faithful on every host.
\<close>

datatype byte_order = LITTLE_ENDIAN | BIG_ENDIAN

text \<open>The representation of an \<open>n\<close>-byte integer in the memory of the host.\<close>

definition native_bytes :: "byte_order \<Rightarrow> nat \<Rightarrow> int \<Rightarrow> byte list" where
  "native_bytes bo n v = (case bo of LITTLE_ENDIAN \<Rightarrow> le_bytes n v | BIG_ENDIAN \<Rightarrow> rev (le_bytes n v))"

definition native_uint :: "byte_order \<Rightarrow> byte list \<Rightarrow> int" where
  "native_uint bo bs = (case bo of LITTLE_ENDIAN \<Rightarrow> le_uint bs | BIG_ENDIAN \<Rightarrow> le_uint (rev bs))"

definition memrev16 :: "byte list \<Rightarrow> byte list" where
  "memrev16 x =
     (let t = x ! 0; x = x[0 := x ! 1]; x = x[1 := t] in x)"

definition memrev32 :: "byte list \<Rightarrow> byte list" where
  "memrev32 x =
     (let t = x ! 0; x = x[0 := x ! 3]; x = x[3 := t];
          t = x ! 1; x = x[1 := x ! 2]; x = x[2 := t] in x)"

definition memrev64 :: "byte list \<Rightarrow> byte list" where
  "memrev64 x =
     (let t = x ! 0; x = x[0 := x ! 7]; x = x[7 := t];
          t = x ! 1; x = x[1 := x ! 6]; x = x[6 := t];
          t = x ! 2; x = x[2 := x ! 5]; x = x[5 := t];
          t = x ! 3; x = x[3 := x ! 4]; x = x[4 := t] in x)"

definition intrev16 :: "byte_order \<Rightarrow> u16 \<Rightarrow> u16" where
  "intrev16 bo v = word_of_int (native_uint bo (memrev16 (native_bytes bo 2 (uint v))))"

definition intrev32 :: "byte_order \<Rightarrow> u32 \<Rightarrow> u32" where
  "intrev32 bo v = word_of_int (native_uint bo (memrev32 (native_bytes bo 4 (uint v))))"

definition intrev64 :: "byte_order \<Rightarrow> u64 \<Rightarrow> u64" where
  "intrev64 bo v = word_of_int (native_uint bo (memrev64 (native_bytes bo 8 (uint v))))"

definition memrev16ifbe :: "byte_order \<Rightarrow> byte list \<Rightarrow> byte list" where
  "memrev16ifbe bo p = (case bo of LITTLE_ENDIAN \<Rightarrow> p | BIG_ENDIAN \<Rightarrow> memrev16 p)"

definition memrev32ifbe :: "byte_order \<Rightarrow> byte list \<Rightarrow> byte list" where
  "memrev32ifbe bo p = (case bo of LITTLE_ENDIAN \<Rightarrow> p | BIG_ENDIAN \<Rightarrow> memrev32 p)"

definition memrev64ifbe :: "byte_order \<Rightarrow> byte list \<Rightarrow> byte list" where
  "memrev64ifbe bo p = (case bo of LITTLE_ENDIAN \<Rightarrow> p | BIG_ENDIAN \<Rightarrow> memrev64 p)"

definition intrev32ifbe :: "byte_order \<Rightarrow> u32 \<Rightarrow> u32" where
  "intrev32ifbe bo v = (case bo of LITTLE_ENDIAN \<Rightarrow> v | BIG_ENDIAN \<Rightarrow> intrev32 bo v)"

definition htonu64 :: "byte_order \<Rightarrow> u64 \<Rightarrow> u64" where
  "htonu64 bo v = (case bo of BIG_ENDIAN \<Rightarrow> v | LITTLE_ENDIAN \<Rightarrow> intrev64 bo v)"

definition ntohu64 :: "byte_order \<Rightarrow> u64 \<Rightarrow> u64" where
  "ntohu64 bo v = (case bo of BIG_ENDIAN \<Rightarrow> v | LITTLE_ENDIAN \<Rightarrow> intrev64 bo v)"

section \<open>Proofs\<close>

lemma length_8E:
  assumes "length xs = 8"
  obtains a b c d e f g h where "xs = [a, b, c, d, e, f, g, h]"
  using assms by (auto simp: numeral_eq_Suc length_Suc_conv)

lemma memrev16_rev: "length x = 2 \<Longrightarrow> memrev16 x = rev x"
  by (auto simp: memrev16_def numeral_eq_Suc length_Suc_conv)

lemma memrev32_rev: "length x = 4 \<Longrightarrow> memrev32 x = rev x"
  by (auto simp: memrev32_def numeral_eq_Suc length_Suc_conv)

lemma memrev64_rev: "length x = 8 \<Longrightarrow> memrev64 x = rev x"
  by (elim length_8E) (simp add: memrev64_def)

lemmas memrev_rev = memrev16_rev memrev32_rev memrev64_rev

lemma length_native_bytes [simp]: "length (native_bytes bo n v) = n"
  by (cases bo) (simp_all add: native_bytes_def)

lemma rev_native_bytes: "rev (native_bytes LITTLE_ENDIAN n v) = native_bytes BIG_ENDIAN n v"
  by (simp add: native_bytes_def)

lemma native_bytes_uint: "length bs = n \<Longrightarrow> native_bytes bo n (native_uint bo bs) = bs"
  using le_bytes_le_uint [of bs] le_bytes_le_uint [of "rev bs"]
  by (cases bo) (auto simp: native_bytes_def native_uint_def)

lemma native_uint_bytes: "native_uint bo (native_bytes bo n v) = v mod 256 ^ n"
  by (cases bo) (simp_all add: native_bytes_def native_uint_def le_uint_le_bytes)

lemma native_uint_bound: "0 \<le> native_uint bo bs \<and> native_uint bo bs < 256 ^ length bs"
  using le_uint_lt [of bs] le_uint_lt [of "rev bs"]
  by (cases bo) (simp_all add: native_uint_def)

lemma native_bytes_intrev:
  "native_bytes bo 2 (uint (intrev16 bo v)) = rev (native_bytes bo 2 (uint v))"
  "native_bytes bo 4 (uint (intrev32 bo v')) = rev (native_bytes bo 4 (uint v'))"
  "native_bytes bo 8 (uint (intrev64 bo v'')) = rev (native_bytes bo 8 (uint v''))"
  using native_uint_bound [of bo "rev (native_bytes bo 2 (uint v))"]
    native_uint_bound [of bo "rev (native_bytes bo 4 (uint v'))"]
    native_uint_bound [of bo "rev (native_bytes bo 8 (uint v''))"]
  by (simp_all add: intrev16_def intrev32_def intrev64_def memrev_rev uint_word_of_int native_bytes_uint)

lemma native_bytes_inj:
  "native_bytes bo 2 (uint v) = native_bytes bo 2 (uint (w :: u16)) \<Longrightarrow> v = w"
  "native_bytes bo 4 (uint v') = native_bytes bo 4 (uint (w' :: u32)) \<Longrightarrow> v' = w'"
  "native_bytes bo 8 (uint v'') = native_bytes bo 8 (uint (w'' :: u64)) \<Longrightarrow> v'' = w''"
proof -
  have eq: "x mod 256 ^ n = y mod 256 ^ n" if "native_bytes bo n x = native_bytes bo n y" for n x y
    using native_uint_bytes [of bo n x] native_uint_bytes [of bo n y] that by simp
  show "native_bytes bo 2 (uint v) = native_bytes bo 2 (uint w) \<Longrightarrow> v = w"
    using uint_lt2p [of v] uint_lt2p [of w] by (auto dest!: eq simp: word_uint_eq_iff)
  show "native_bytes bo 4 (uint v') = native_bytes bo 4 (uint w') \<Longrightarrow> v' = w'"
    using uint_lt2p [of v'] uint_lt2p [of w'] by (auto dest!: eq simp: word_uint_eq_iff)
  show "native_bytes bo 8 (uint v'') = native_bytes bo 8 (uint w'') \<Longrightarrow> v'' = w''"
    using uint_lt2p [of v''] uint_lt2p [of w''] by (auto dest!: eq simp: word_uint_eq_iff)
qed

lemma intrev_involution:
  "intrev16 bo (intrev16 bo v) = v" "intrev32 bo (intrev32 bo v') = v'" "intrev64 bo (intrev64 bo v'') = v''"
  by (rule native_bytes_inj [of bo], simp add: native_bytes_intrev)+

section \<open>Properties\<close>

text \<open>
  An integer stored in host order and passed to the matching \<open>memrevXXifbe\<close> macro is in
  little endian whatever the host's byte order: the packed structures have one layout
  everywhere.
\<close>

theorem memrev_ifbe_host_independent:
  "memrev16ifbe bo (native_bytes bo 2 v) = le_bytes 2 v \<and>
   memrev32ifbe bo (native_bytes bo 4 v) = le_bytes 4 v \<and>
   memrev64ifbe bo (native_bytes bo 8 v) = le_bytes 8 v"
  by (cases bo) (simp_all add: memrev16ifbe_def memrev32ifbe_def memrev64ifbe_def memrev_rev,
      simp_all add: native_bytes_def)

text \<open>
  The byte reversals are involutions on words of their width, and \<open>htonu64\<close> gives the
  big-endian (network) representation on every host, which \<open>ntohu64\<close> undoes.
\<close>

theorem network_order_roundtrip:
  "intrev16 bo (intrev16 bo a) = a \<and> intrev32 bo (intrev32 bo b) = b \<and> intrev64 bo (intrev64 bo c) = c \<and>
   native_bytes bo 8 (uint (htonu64 bo c)) = rev (le_bytes 8 (uint c)) \<and>
   ntohu64 bo (htonu64 bo c) = c"
  by (cases bo)
    (simp_all add: intrev_involution htonu64_def ntohu64_def native_bytes_intrev,
      simp_all add: native_bytes_def)

end
