(* ===== verification/Map_Interface.thy ===== *)
theory Map_Interface
  imports Prelude
begin

text \<open>
  The contract between the parts of the server that keep key-value associations (the key space,
  the command table, hash and set values) and the hash table that holds them. Keys are taken up to an
  equivalence \<open>eqk\<close>, the key comparison of the table's type; values are stored through a
  duplication function \<open>dup\<close>. Operations may fail (\<open>None\<close>: an access outside of a table); the laws say
  that they do not while the table holds less than \<open>cap\<close> associations, and that they then act as
  the operations on functions do. The client lemma is about whole histories and all that they observe.
\<close>

datatype ('k, 'v) map_op = Put (op_key: 'k) 'v | Del (op_key: 'k) | Get (op_key: 'k)

datatype 'v map_obs = Was_new bool | Was_there bool | Found "'v option"

primrec run_map ::
    "('s \<Rightarrow> 'k \<Rightarrow> 'v \<Rightarrow> ('s \<times> bool) option) \<Rightarrow> ('s \<Rightarrow> 'k \<Rightarrow> ('s \<times> bool) option) \<Rightarrow>
     ('s \<Rightarrow> 'k \<Rightarrow> ('s \<times> 'v option) option) \<Rightarrow> 's \<Rightarrow> ('k, 'v) map_op list \<Rightarrow> ('s \<times> 'v map_obs list) option" where
  "run_map put del get s [] = Some (s, [])"
| "run_map put del get s (op # ops) = do {
     (s', ob) \<leftarrow> (case op of
        Put k v \<Rightarrow> map_option (map_prod id Was_new) (put s k v)
      | Del k \<Rightarrow> map_option (map_prod id Was_there) (del s k)
      | Get k \<Rightarrow> map_option (map_prod id Found) (get s k));
     (s'', obs) \<leftarrow> run_map put del get s' ops;
     Some (s'', ob # obs)
   }"

definition upd_at :: "('k \<Rightarrow> 'k \<Rightarrow> bool) \<Rightarrow> 'k \<Rightarrow> 'b \<Rightarrow> ('k \<Rightarrow> 'b) \<Rightarrow> 'k \<Rightarrow> 'b" where
  "upd_at eqk k b m = (\<lambda>k'. if eqk k' k then b else m k')"

primrec spec_map ::
    "('k \<Rightarrow> 'k \<Rightarrow> bool) \<Rightarrow> ('v \<Rightarrow> 'v) \<Rightarrow> ('k \<Rightarrow> 'v option) \<Rightarrow> ('k, 'v) map_op list \<Rightarrow>
     ('k \<Rightarrow> 'v option) \<times> 'v map_obs list" where
  "spec_map eqk dup m [] = (m, [])"
| "spec_map eqk dup m (op # ops) =
     (let (m', ob) = (case op of
          Put k v \<Rightarrow> (upd_at eqk k (Some (dup v)) m, Was_new (m k = None))
        | Del k \<Rightarrow> (upd_at eqk k None m, Was_there (m k \<noteq> None))
        | Get k \<Rightarrow> (m, Found (m k)));
          (m'', obs) = spec_map eqk dup m' ops
      in (m'', ob # obs))"

primrec puts :: "('k, 'v) map_op list \<Rightarrow> nat" where
  "puts [] = 0"
| "puts (op # ops) = (case op of Put k v \<Rightarrow> 1 | _ \<Rightarrow> 0) + puts ops"

lemma spec_map_cong:
  assumes "\<And>op. op \<in> set ops \<Longrightarrow> op_key op \<in> K" "\<And>k k'. k \<in> K \<Longrightarrow> k' \<in> K \<Longrightarrow> eqk k k' \<longleftrightarrow> eqk' k k'"
    "\<And>k. k \<in> K \<Longrightarrow> m k = m' k"
  shows "snd (spec_map eqk dup m ops) = snd (spec_map eqk' dup m' ops)"
  using assms
proof (induction ops arbitrary: m m')
  case (Cons op ops)
  have k: "op_key op \<in> K" using Cons.prems(1) by simp
  have u: "upd_at eqk (op_key op) b m k = upd_at eqk' (op_key op) b m' k" if "k \<in> K" for k b
    using that k Cons.prems(2,3) by (simp add: upd_at_def)
  have r: "snd (spec_map eqk dup m1 ops) = snd (spec_map eqk' dup m2 ops)"
    if "\<And>k. k \<in> K \<Longrightarrow> m1 k = m2 k" for m1 m2
    using Cons.prems that by (intro Cons.IH) auto
  show ?case
  proof (cases op)
    case (Put k v)
    then show ?thesis using u r [of "upd_at eqk k (Some (dup v)) m" "upd_at eqk' k (Some (dup v)) m'"] Cons.prems(3) k
      by (simp add: case_prod_beta Let_def)
  next
    case (Del k)
    then show ?thesis using u r [of "upd_at eqk k None m" "upd_at eqk' k None m'"] Cons.prems(3) k
      by (simp add: case_prod_beta Let_def)
  next
    case (Get k)
    then show ?thesis using r [of m m'] Cons.prems(3) k by (simp add: case_prod_beta Let_def)
  qed
qed simp

locale checked_map =
  fixes new :: 's
    and put :: "'s \<Rightarrow> 'k \<Rightarrow> 'v \<Rightarrow> ('s \<times> bool) option"
    and del :: "'s \<Rightarrow> 'k \<Rightarrow> ('s \<times> bool) option"
    and get :: "'s \<Rightarrow> 'k \<Rightarrow> ('s \<times> 'v option) option"
    and view :: "'s \<Rightarrow> 'k \<Rightarrow> 'v option"
    and card_of :: "'s \<Rightarrow> nat"
    and ok :: "'s \<Rightarrow> bool"
    and eqk :: "'k \<Rightarrow> 'k \<Rightarrow> bool"
    and dup :: "'v \<Rightarrow> 'v"
    and cap :: nat
  assumes ok_new: "ok new" and view_new: "view new = (\<lambda>k. None)" and card_new: "card_of new = 0"
    and put: "ok s \<Longrightarrow> card_of s < cap \<Longrightarrow>
      \<exists>s'. put s k v = Some (s', view s k = None) \<and> ok s' \<and> view s' = upd_at eqk k (Some (dup v)) (view s) \<and>
        card_of s' \<le> Suc (card_of s)"
    and del: "ok s \<Longrightarrow>
      \<exists>s'. del s k = Some (s', view s k \<noteq> None) \<and> ok s' \<and> view s' = upd_at eqk k None (view s) \<and>
        card_of s' \<le> card_of s"
    and get: "ok s \<Longrightarrow>
      \<exists>s'. get s k = Some (s', view s k) \<and> ok s' \<and> view s' = view s \<and> card_of s' \<le> card_of s"
begin

lemma run_map_from:
  assumes "ok s" "card_of s + puts ops \<le> cap"
  shows "\<exists>s'. run_map put del get s ops = Some (s', snd (spec_map eqk dup (view s) ops)) \<and> ok s' \<and>
    view s' = fst (spec_map eqk dup (view s) ops)"
  using assms
proof (induction ops arbitrary: s)
  case Nil
  then show ?case by simp
next
  case (Cons op ops)
  show ?case
  proof (cases op)
    case (Put k v)
    then obtain s' where "put s k v = Some (s', view s k = None)" "ok s'"
      "view s' = upd_at eqk k (Some (dup v)) (view s)" "card_of s' \<le> Suc (card_of s)"
      using put [of s k v] Cons.prems by auto
    with Cons.IH [of s'] Cons.prems Put show ?thesis by (auto simp: case_prod_beta Let_def)
  next
    case (Del k)
    then obtain s' where "del s k = Some (s', view s k \<noteq> None)" "ok s'"
      "view s' = upd_at eqk k None (view s)" "card_of s' \<le> card_of s"
      using del [of s k] Cons.prems by auto
    with Cons.IH [of s'] Cons.prems Del show ?thesis by (auto simp: case_prod_beta Let_def)
  next
    case (Get k)
    then obtain s' where "get s k = Some (s', view s k)" "ok s'" "view s' = view s" "card_of s' \<le> card_of s"
      using get [of s k] Cons.prems by auto
    with Cons.IH [of s'] Cons.prems Get show ?thesis by (auto simp: case_prod_beta Let_def)
  qed
qed

lemma run_map_correct:
  assumes "puts ops \<le> cap"
  shows "\<exists>s'. run_map put del get new ops = Some (s', snd (spec_map eqk dup (\<lambda>k. None) ops)) \<and> ok s' \<and>
    view s' = fst (spec_map eqk dup (\<lambda>k. None) ops)"
  using run_map_from [OF ok_new] assms by (simp add: view_new card_new)

end

end
