(* ===== verification/Dict.thy ===== *)
theory Dict
  imports Map_Interface "HOL-Library.Multiset"
begin

text \<open>
  The hash table of \<open>dict.c\<close> and \<open>dict.h\<close>: two tables of chains, the second one in use while
  the entries are moved over bucket by bucket. A chain (the \<open>next\<close> pointers) is a list, a table a
  list of chains, and a reference to an entry its table, bucket and position. Sizes, masks and hashes
  keep their width (\<open>unsigned long\<close> 64 bits, \<open>unsigned int\<close> 32), and so does the
  conversion of a bucket number to \<open>int\<close>. A bucket outside of the table is \<open>None\<close>. The file-level
  flag \<open>dict_can_resize\<close> is an argument.

  \<open>dict_map\<close> is the association that a table stands for. The lemmas show that under the invariant
  \<open>dict_ok\<close> no operation leaves the tables, that rehashing never changes the association
  and comes to an end, and that the operations act on it as on a map, for every table type whose
  comparison and hash satisfy the locale \<open>dict_type\<close>.
\<close>

unbundle bit_operations_syntax

section \<open>Data\<close>

record ('k, 'v) dictEntry =
  de_key :: 'k
  de_val :: "'v option"

type_synonym ('k, 'v) chain = "('k, 'v) dictEntry list"

record ('k, 'v) dictht =
  ht_table :: "('k, 'v) chain list"
  ht_size :: u64
  ht_sizemask :: u64
  ht_used :: u64

record ('k, 'v) dict =
  ht0 :: "('k, 'v) dictht"
  ht1 :: "('k, 'v) dictht"
  rehashidx :: int
  iterators :: u64

record ('k, 'v) dictType =
  hashFunction :: "'k \<Rightarrow> u64"
  keyDup :: "('k \<Rightarrow> 'k) option"
  valDup :: "('v \<Rightarrow> 'v) option"
  keyCompare :: "('k \<Rightarrow> 'k \<Rightarrow> bool) option"

datatype dict_status = DICT_OK | DICT_ERR

type_synonym entry_ref = "nat \<times> nat \<times> nat"

abbreviation DICT_HT_INITIAL_SIZE :: u64 where "DICT_HT_INITIAL_SIZE \<equiv> 4"
abbreviation LONG_MAX :: u64 where "LONG_MAX \<equiv> 9223372036854775807"
abbreviation dict_force_resize_ratio :: u64 where "dict_force_resize_ratio \<equiv> 5"

definition dictCompareKeys :: "('k, 'v) dictType \<Rightarrow> 'k \<Rightarrow> 'k \<Rightarrow> bool" where
  "dictCompareKeys ty key1 key2 =
     (case keyCompare ty of Some cmp \<Rightarrow> cmp key1 key2 | None \<Rightarrow> key1 = key2)"

definition dictHashKey :: "('k, 'v) dictType \<Rightarrow> 'k \<Rightarrow> u64" where
  "dictHashKey ty key = hashFunction ty key"

definition dictIsRehashing :: "('k, 'v) dict \<Rightarrow> bool" where
  "dictIsRehashing d \<longleftrightarrow> rehashidx d \<noteq> -1"

definition dictSize :: "('k, 'v) dict \<Rightarrow> u64" where
  "dictSize d = ht_used (ht0 d) + ht_used (ht1 d)"

definition dictSlots :: "('k, 'v) dict \<Rightarrow> u64" where
  "dictSlots d = ht_size (ht0 d) + ht_size (ht1 d)"

definition get_ht :: "nat \<Rightarrow> ('k, 'v) dict \<Rightarrow> ('k, 'v) dictht" where
  "get_ht t d = (if t = 0 then ht0 d else ht1 d)"

definition put_ht :: "nat \<Rightarrow> ('k, 'v) dictht \<Rightarrow> ('k, 'v) dict \<Rightarrow> ('k, 'v) dict" where
  "put_ht t h d = (if t = 0 then d\<lparr>ht0 := h\<rparr> else d\<lparr>ht1 := h\<rparr>)"

definition bucket :: "('k, 'v) dictht \<Rightarrow> nat \<Rightarrow> ('k, 'v) chain option" where
  "bucket h i = (if i < length (ht_table h) then Some (ht_table h ! i) else None)"

definition dictSetVal :: "('k, 'v) dictType \<Rightarrow> ('k, 'v) dict \<Rightarrow> entry_ref \<Rightarrow> 'v \<Rightarrow> ('k, 'v) dict option" where
  "dictSetVal ty d ref val = (case ref of (t, i, j) \<Rightarrow>
     do {
       ch \<leftarrow> bucket (get_ht t d) i;
       if j < length ch
       then Some (put_ht t (get_ht t d\<lparr>ht_table := (ht_table (get_ht t d))[i :=
              ch[j := (ch ! j)\<lparr>de_val := Some (case valDup ty of Some dup \<Rightarrow> dup val | None \<Rightarrow> val)\<rparr>]]\<rparr>) d)
       else None
     })"

definition dictGetEntry :: "('k, 'v) dict \<Rightarrow> entry_ref \<Rightarrow> ('k, 'v) dictEntry option" where
  "dictGetEntry d ref = (case ref of (t, i, j) \<Rightarrow>
     do { ch \<leftarrow> bucket (get_ht t d) i; if j < length ch then Some (ch ! j) else None })"

section \<open>Operations\<close>

definition dictReset :: "('k, 'v) dictht" where
  "dictReset = \<lparr>ht_table = [], ht_size = 0, ht_sizemask = 0, ht_used = 0\<rparr>"

definition dictCreate :: "('k, 'v) dict" where
  "dictCreate = \<lparr>ht0 = dictReset, ht1 = dictReset, rehashidx = -1, iterators = 0\<rparr>"

partial_function (option) dictNextPower_loop :: "u64 \<Rightarrow> u64 \<Rightarrow> u64 option" where
  "dictNextPower_loop i sz = (if i \<ge> sz then Some i else dictNextPower_loop (i * 2) sz)"

definition dictNextPower :: "u64 \<Rightarrow> u64 option" where
  "dictNextPower sz =
     (if sz \<ge> LONG_MAX then Some LONG_MAX
      else dictNextPower_loop DICT_HT_INITIAL_SIZE sz)"

definition dictExpand :: "('k, 'v) dict \<Rightarrow> u64 \<Rightarrow> (('k, 'v) dict \<times> dict_status) option" where
  "dictExpand d sz = do {
     realsize \<leftarrow> dictNextPower sz;
     if dictIsRehashing d \<or> ht_used (ht0 d) > sz then Some (d, DICT_ERR)
     else if realsize = ht_size (ht0 d) then Some (d, DICT_ERR)
     else (let n = \<lparr>ht_table = replicate (unat (realsize * 8) div 8) [], ht_size = realsize,
                    ht_sizemask = realsize - 1, ht_used = 0\<rparr>
           in if ht_table (ht0 d) = [] then Some (d\<lparr>ht0 := n\<rparr>, DICT_OK)
              else Some (d\<lparr>ht1 := n, rehashidx := 0\<rparr>, DICT_OK))
   }"

definition dictResize :: "bool \<Rightarrow> ('k, 'v) dict \<Rightarrow> (('k, 'v) dict \<times> dict_status) option" where
  "dictResize dict_can_resize d =
     (if \<not> dict_can_resize \<or> dictIsRehashing d then Some (d, DICT_ERR)
      else (let minimal = sint (ucast (ht_used (ht0 d)) :: u32);
                minimal = (if minimal < 4 then 4 else minimal)
            in dictExpand d (word_of_int minimal)))"

definition dictRehash_entry ::
    "('k, 'v) dictType \<Rightarrow> ('k, 'v) dictEntry \<Rightarrow> ('k, 'v) dict \<Rightarrow> ('k, 'v) dict option" where
  "dictRehash_entry ty de d =
     (let h = (ucast (dictHashKey ty (de_key de) AND ht_sizemask (ht1 d)) :: u32)
      in do {
        ch \<leftarrow> bucket (ht1 d) (unat h);
        Some (d\<lparr>ht0 := (ht0 d)\<lparr>ht_used := ht_used (ht0 d) - 1\<rparr>,
               ht1 := (ht1 d)\<lparr>ht_table := (ht_table (ht1 d))[unat h := de # ch],
                              ht_used := ht_used (ht1 d) + 1\<rparr>\<rparr>)
      })"

primrec dictRehash_bucket ::
    "('k, 'v) dictType \<Rightarrow> ('k, 'v) chain \<Rightarrow> ('k, 'v) dict \<Rightarrow> ('k, 'v) dict option" where
  "dictRehash_bucket ty [] d = Some d"
| "dictRehash_bucket ty (de # ch) d = do {
     d' \<leftarrow> dictRehash_entry ty de d;
     dictRehash_bucket ty ch d'
   }"

function dictRehash_skip :: "('k, 'v) chain list \<Rightarrow> int \<Rightarrow> int \<Rightarrow> (int \<times> int \<times> bool) option" where
  "dictRehash_skip tab idx empty_visits =
     (if idx < 0 \<or> idx \<ge> int (length tab) then None
      else if tab ! nat idx \<noteq> [] then Some (idx, empty_visits, False)
      else if empty_visits - 1 = 0 then Some (idx + 1, 0, True)
      else dictRehash_skip tab (idx + 1) (empty_visits - 1))"
  by pat_completeness auto
termination
  by (relation "measure (\<lambda>(tab, idx, ev). nat (int (length tab) - idx))") auto

declare dictRehash_skip.simps [simp del]

primrec dictRehash_loop ::
    "('k, 'v) dictType \<Rightarrow> nat \<Rightarrow> int \<Rightarrow> ('k, 'v) dict \<Rightarrow> (('k, 'v) dict \<times> bool) option" where
  "dictRehash_loop ty 0 empty_visits d = Some (d, False)"
| "dictRehash_loop ty (Suc n) empty_visits d =
     (if ht_used (ht0 d) = 0 then Some (d, False)
      else if \<not> ht_size (ht0 d) > word_of_int (rehashidx d) then None
      else do {
        (idx, ev, stop) \<leftarrow> dictRehash_skip (ht_table (ht0 d)) (rehashidx d) empty_visits;
        if stop then Some (d\<lparr>rehashidx := idx\<rparr>, True)
        else do {
          d' \<leftarrow> dictRehash_bucket ty (ht_table (ht0 d) ! nat idx) (d\<lparr>rehashidx := idx\<rparr>);
          dictRehash_loop ty n ev
            (d'\<lparr>ht0 := (ht0 d')\<lparr>ht_table := (ht_table (ht0 d'))[nat idx := []]\<rparr>, rehashidx := idx + 1\<rparr>)
        }
      })"

definition dictRehash :: "('k, 'v) dictType \<Rightarrow> ('k, 'v) dict \<Rightarrow> nat \<Rightarrow> (('k, 'v) dict \<times> bool) option" where
  "dictRehash ty d n =
     (if \<not> dictIsRehashing d then Some (d, False)
      else do {
        (d', stop) \<leftarrow> dictRehash_loop ty n (int n * 10) d;
        if stop then Some (d', True)
        else if ht_used (ht0 d') = 0
        then Some (d'\<lparr>ht0 := ht1 d', ht1 := dictReset, rehashidx := -1\<rparr>, False)
        else Some (d', True)
      })"

definition dictRehashStep :: "('k, 'v) dictType \<Rightarrow> ('k, 'v) dict \<Rightarrow> ('k, 'v) dict option" where
  "dictRehashStep ty d =
     (if iterators d = 0 then map_option fst (dictRehash ty d 1) else Some d)"

definition dictExpandIfNeeded :: "bool \<Rightarrow> ('k, 'v) dict \<Rightarrow> (('k, 'v) dict \<times> dict_status) option" where
  "dictExpandIfNeeded dict_can_resize d =
     (if dictIsRehashing d then Some (d, DICT_OK)
      else if ht_size (ht0 d) = 0 then dictExpand d DICT_HT_INITIAL_SIZE
      else if ht_used (ht0 d) \<ge> ht_size (ht0 d) \<and>
              (dict_can_resize \<or> ht_used (ht0 d) div ht_size (ht0 d) > dict_force_resize_ratio)
      then dictExpand d (ht_used (ht0 d) * 2)
      else Some (d, DICT_OK))"

text \<open>Position in a chain of the first entry whose key is the given one.\<close>

fun chain_search :: "('k, 'v) dictType \<Rightarrow> 'k \<Rightarrow> ('k, 'v) chain \<Rightarrow> nat option" where
  "chain_search ty key [] = None"
| "chain_search ty key (he # ch) =
     (if key = de_key he \<or> dictCompareKeys ty key (de_key he) then Some 0
      else map_option Suc (chain_search ty key ch))"

text \<open>
  The \<open>for (table = 0; table <= 1; table++)\<close> loop that \<open>_dictKeyIndex\<close>, \<open>dictGenericDelete\<close> and
  \<open>dictFind\<close> share: the second table is searched only while rehashing. The result is the last
  table looked at, the index in it, and the position of the entry in the chain if there is one.
\<close>

definition table_search :: "('k, 'v) dictType \<Rightarrow> 'k \<Rightarrow> u32 \<Rightarrow> ('k, 'v) dict \<Rightarrow> nat \<Rightarrow>
    (u32 \<times> nat option) option" where
  "table_search ty key hash d t =
     (let idx = (ucast (ucast hash AND ht_sizemask (get_ht t d)) :: u32)
      in map_option (\<lambda>ch. (idx, chain_search ty key ch)) (bucket (get_ht t d) (unat idx)))"

definition tables_search :: "('k, 'v) dictType \<Rightarrow> 'k \<Rightarrow> u32 \<Rightarrow> ('k, 'v) dict \<Rightarrow>
    (nat \<times> u32 \<times> nat option) option" where
  "tables_search ty key hash d = do {
     (idx, r) \<leftarrow> table_search ty key hash d 0;
     if r \<noteq> None \<or> \<not> dictIsRehashing d then Some (0, idx, r)
     else do {
       (idx, r) \<leftarrow> table_search ty key hash d 1;
       Some (1, idx, r)
     }
   }"

definition dictKeyIndex :: "bool \<Rightarrow> ('k, 'v) dictType \<Rightarrow> ('k, 'v) dict \<Rightarrow> 'k \<Rightarrow> u32 \<Rightarrow>
    (('k, 'v) dict \<times> int \<times> entry_ref option) option" where
  "dictKeyIndex dict_can_resize ty d key hash = do {
     (d, st) \<leftarrow> dictExpandIfNeeded dict_can_resize d;
     if st = DICT_ERR then Some (d, -1, None)
     else do {
       (t, idx, r) \<leftarrow> tables_search ty key hash d;
       case r of Some j \<Rightarrow> Some (d, -1, Some (t, unat idx, j))
       | None \<Rightarrow> Some (d, sint idx, None)
     }
   }"

definition dictAddRaw :: "bool \<Rightarrow> ('k, 'v) dictType \<Rightarrow> ('k, 'v) dict \<Rightarrow> 'k \<Rightarrow>
    (('k, 'v) dict \<times> entry_ref option \<times> entry_ref option) option" where
  "dictAddRaw dict_can_resize ty d key = do {
     d \<leftarrow> (if dictIsRehashing d then dictRehashStep ty d else Some d);
     (d, index, existing) \<leftarrow> dictKeyIndex dict_can_resize ty d key (ucast (dictHashKey ty key));
     if index = -1 then Some (d, None, existing)
     else if index < 0 then None
     else (let t = (if dictIsRehashing d then 1 else 0); ht = get_ht t d in do {
       ch \<leftarrow> bucket ht (nat index);
       entry \<leftarrow> Some \<lparr>de_key = (case keyDup ty of Some dup \<Rightarrow> dup key | None \<Rightarrow> key), de_val = None\<rparr>;
       Some (put_ht t (ht\<lparr>ht_table := (ht_table ht)[nat index := entry # ch],
                          ht_used := ht_used ht + 1\<rparr>) d,
             Some (t, nat index, 0), existing)
     })
   }"

definition dictAdd :: "bool \<Rightarrow> ('k, 'v) dictType \<Rightarrow> ('k, 'v) dict \<Rightarrow> 'k \<Rightarrow> 'v \<Rightarrow>
    (('k, 'v) dict \<times> dict_status) option" where
  "dictAdd dict_can_resize ty d key val = do {
     (d, entry, _) \<leftarrow> dictAddRaw dict_can_resize ty d key;
     case entry of None \<Rightarrow> Some (d, DICT_ERR)
     | Some e \<Rightarrow> do { d \<leftarrow> dictSetVal ty d e val; Some (d, DICT_OK) }
   }"

definition dictReplace :: "bool \<Rightarrow> ('k, 'v) dictType \<Rightarrow> ('k, 'v) dict \<Rightarrow> 'k \<Rightarrow> 'v \<Rightarrow>
    (('k, 'v) dict \<times> int) option" where
  "dictReplace dict_can_resize ty d key val = do {
     (d, entry, existing) \<leftarrow> dictAddRaw dict_can_resize ty d key;
     case entry of
       Some e \<Rightarrow> do { d \<leftarrow> dictSetVal ty d e val; Some (d, 1) }
     | None \<Rightarrow> do { e \<leftarrow> existing; d \<leftarrow> dictSetVal ty d e val; Some (d, 0) }
   }"

definition dictAddOrFind :: "bool \<Rightarrow> ('k, 'v) dictType \<Rightarrow> ('k, 'v) dict \<Rightarrow> 'k \<Rightarrow>
    (('k, 'v) dict \<times> entry_ref option) option" where
  "dictAddOrFind dict_can_resize ty d key = do {
     (d, entry, existing) \<leftarrow> dictAddRaw dict_can_resize ty d key;
     Some (d, if entry \<noteq> None then entry else existing)
   }"

definition unlink_entry :: "nat \<Rightarrow> nat \<Rightarrow> nat \<Rightarrow> ('k, 'v) dict \<Rightarrow> (('k, 'v) dict \<times> ('k, 'v) dictEntry) option" where
  "unlink_entry t i j d =
     (let ht = get_ht t d in do {
       ch \<leftarrow> bucket ht i;
       if j < length ch
       then Some (put_ht t (ht\<lparr>ht_table := (ht_table ht)[i := take j ch @ drop (Suc j) ch],
                               ht_used := ht_used ht - 1\<rparr>) d, ch ! j)
       else None
     })"

definition dictGenericDelete :: "('k, 'v) dictType \<Rightarrow> ('k, 'v) dict \<Rightarrow> 'k \<Rightarrow>
    (('k, 'v) dict \<times> ('k, 'v) dictEntry option) option" where
  "dictGenericDelete ty d key =
     (if ht_used (ht0 d) = 0 \<and> ht_used (ht1 d) = 0 then Some (d, None)
      else do {
        d \<leftarrow> (if dictIsRehashing d then dictRehashStep ty d else Some d);
        (t, idx, r) \<leftarrow> tables_search ty key (ucast (dictHashKey ty key)) d;
        case r of
          Some j \<Rightarrow> do { (d, he) \<leftarrow> unlink_entry t (unat idx) j d; Some (d, Some he) }
        | None \<Rightarrow> Some (d, None)
      })"

definition dictDelete :: "('k, 'v) dictType \<Rightarrow> ('k, 'v) dict \<Rightarrow> 'k \<Rightarrow> (('k, 'v) dict \<times> dict_status) option" where
  "dictDelete ty d key =
     map_option (\<lambda>(d', he). (d', if he \<noteq> None then DICT_OK else DICT_ERR)) (dictGenericDelete ty d key)"

definition dictUnlink :: "('k, 'v) dictType \<Rightarrow> ('k, 'v) dict \<Rightarrow> 'k \<Rightarrow>
    (('k, 'v) dict \<times> ('k, 'v) dictEntry option) option" where
  "dictUnlink ty d key = dictGenericDelete ty d key"

definition dictFind :: "('k, 'v) dictType \<Rightarrow> ('k, 'v) dict \<Rightarrow> 'k \<Rightarrow>
    (('k, 'v) dict \<times> entry_ref option) option" where
  "dictFind ty d key =
     (if ht_used (ht0 d) + ht_used (ht1 d) = 0 then Some (d, None)
      else do {
        d \<leftarrow> (if dictIsRehashing d then dictRehashStep ty d else Some d);
        (t, idx, r) \<leftarrow> tables_search ty key (ucast (dictHashKey ty key)) d;
        Some (d, map_option (\<lambda>j. (t, unat idx, j)) r)
      })"

definition dictFetchValue :: "('k, 'v) dictType \<Rightarrow> ('k, 'v) dict \<Rightarrow> 'k \<Rightarrow> (('k, 'v) dict \<times> 'v option) option" where
  "dictFetchValue ty d key = do {
     (d, he) \<leftarrow> dictFind ty d key;
     case he of None \<Rightarrow> Some (d, None)
     | Some ref \<Rightarrow> do { e \<leftarrow> dictGetEntry d ref; Some (d, de_val e) }
   }"

text \<open>
  \<open>dictRehashMilliseconds\<close>: \<open>clock i\<close> is what the call number \<open>i\<close> of
  \<open>timeInMilliseconds\<close> returns.
\<close>

partial_function (option) dictRehashMilliseconds_loop ::
    "('k, 'v) dictType \<Rightarrow> (nat \<Rightarrow> int) \<Rightarrow> int \<Rightarrow> nat \<Rightarrow> int \<Rightarrow> ('k, 'v) dict \<Rightarrow> (('k, 'v) dict \<times> int) option" where
  "dictRehashMilliseconds_loop ty clock ms i rehashes d = do {
     (d', more) \<leftarrow> dictRehash ty d 100;
     if \<not> more then Some (d', rehashes)
     else if clock i - clock 0 > ms then Some (d', rehashes + 100)
     else dictRehashMilliseconds_loop ty clock ms (Suc i) (rehashes + 100) d'
   }"

definition dictRehashMilliseconds ::
    "('k, 'v) dictType \<Rightarrow> (nat \<Rightarrow> int) \<Rightarrow> ('k, 'v) dict \<Rightarrow> int \<Rightarrow> (('k, 'v) dict \<times> int) option" where
  "dictRehashMilliseconds ty clock d ms = dictRehashMilliseconds_loop ty clock ms 1 0 d"

text \<open>
  \<open>_dictClear\<close> returns the table reset and the entries whose key and value it passed to the
  destructors, in order. Its progress callback is not modelled.
\<close>

primrec dictClear_chain :: "('k, 'v) chain \<Rightarrow> u64 \<Rightarrow> ('k, 'v) chain \<Rightarrow> ('k, 'v) chain \<times> u64" where
  "dictClear_chain [] used freed = (freed, used)"
| "dictClear_chain (he # ch) used freed = dictClear_chain ch (used - 1) (freed @ [he])"

function dictClear_loop :: "('k, 'v) dictht \<Rightarrow> nat \<Rightarrow> u64 \<Rightarrow> ('k, 'v) chain \<Rightarrow> ('k, 'v) chain option" where
  "dictClear_loop ht i used freed =
     (if i < unat (ht_size ht) \<and> used > 0 then do {
        he \<leftarrow> bucket ht i;
        (case dictClear_chain he used freed of (freed, used) \<Rightarrow> dictClear_loop ht (Suc i) used freed)
      }
      else Some freed)"
  by pat_completeness auto
termination
  by (relation "measure (\<lambda>(ht, i, used, freed). unat (ht_size ht) - i)") auto

declare dictClear_loop.simps [simp del]

definition dictClear :: "('k, 'v) dictht \<Rightarrow> (('k, 'v) dictht \<times> ('k, 'v) chain) option" where
  "dictClear ht = do { freed \<leftarrow> dictClear_loop ht 0 (ht_used ht) []; Some (dictReset, freed) }"

definition dictEmpty :: "('k, 'v) dict \<Rightarrow> (('k, 'v) dict \<times> ('k, 'v) chain) option" where
  "dictEmpty d = do {
     (h0, freed0) \<leftarrow> dictClear (ht0 d);
     (h1, freed1) \<leftarrow> dictClear (ht1 d);
     Some (d\<lparr>ht0 := h0, ht1 := h1, rehashidx := -1, iterators := 0\<rparr>, freed0 @ freed1)
   }"

section \<open>Abstraction and invariant\<close>

definition ht_entries :: "('k, 'v) dictht \<Rightarrow> ('k, 'v) chain" where
  "ht_entries h = concat (ht_table h)"

definition dict_entries :: "('k, 'v) dict \<Rightarrow> ('k, 'v) chain" where
  "dict_entries d = ht_entries (ht0 d) @ ht_entries (ht1 d)"

definition dict_map :: "('k, 'v) dictType \<Rightarrow> ('k, 'v) dict \<Rightarrow> 'k \<Rightarrow> 'v option option" where
  "dict_map ty d k =
     map_option de_val (List.find (\<lambda>e. dictCompareKeys ty k (de_key e)) (dict_entries d))"

definition distinct_keys :: "('k, 'v) dictType \<Rightarrow> ('k, 'v) chain \<Rightarrow> bool" where
  "distinct_keys ty es \<longleftrightarrow> sorted_wrt (\<lambda>e e'. \<not> dictCompareKeys ty (de_key e) (de_key e')) es"

definition slot :: "('k, 'v) dictType \<Rightarrow> nat \<Rightarrow> 'k \<Rightarrow> nat" where
  "slot ty n k = unat (dictHashKey ty k) mod 2 ^ n"

definition tab_ok :: "('k, 'v) dictType \<Rightarrow> nat \<Rightarrow> ('k, 'v) chain list \<Rightarrow> bool" where
  "tab_ok ty n tab \<longleftrightarrow> length tab = 2 ^ n \<and>
     (\<forall>i < length tab. \<forall>e \<in> set (tab ! i). slot ty n (de_key e) = i)"

definition ht_live :: "('k, 'v) dictType \<Rightarrow> nat \<Rightarrow> ('k, 'v) dictht \<Rightarrow> bool" where
  "ht_live ty n h \<longleftrightarrow> n \<in> {2..31} \<and> ht_size h = 2 ^ n \<and> ht_sizemask h = mask n \<and>
     tab_ok ty n (ht_table h)"

definition used_ok :: "('k, 'v) dictht \<Rightarrow> bool" where
  "used_ok h \<longleftrightarrow> unat (ht_used h) = length (ht_entries h)"

definition rehash_ok :: "('k, 'v) dictType \<Rightarrow> ('k, 'v) dict \<Rightarrow> bool" where
  "rehash_ok ty d \<longleftrightarrow>
     (\<exists>n0 n1. ht_live ty n0 (ht0 d) \<and> ht_live ty n1 (ht1 d)) \<and>
     0 \<le> rehashidx d \<and> rehashidx d \<le> int (length (ht_table (ht0 d))) \<and>
     (\<forall>i < nat (rehashidx d). ht_table (ht0 d) ! i = [])"

definition dict_ok :: "('k, 'v) dictType \<Rightarrow> ('k, 'v) dict \<Rightarrow> bool" where
  "dict_ok ty d \<longleftrightarrow>
     used_ok (ht0 d) \<and> used_ok (ht1 d) \<and> length (dict_entries d) < 2 ^ 64 \<and>
     distinct_keys ty (dict_entries d) \<and>
     (if rehashidx d = -1
      then ht1 d = dictReset \<and> (ht0 d = dictReset \<or> (\<exists>n. ht_live ty n (ht0 d)))
      else rehash_ok ty d)"

locale dict_type =
  fixes ty :: "('k, 'v) dictType"
  assumes cmp_refl: "dictCompareKeys ty k k"
    and cmp_sym: "dictCompareKeys ty k k' \<Longrightarrow> dictCompareKeys ty k' k"
    and cmp_trans: "dictCompareKeys ty k k' \<Longrightarrow> dictCompareKeys ty k' k'' \<Longrightarrow> dictCompareKeys ty k k''"
    and cmp_hash: "dictCompareKeys ty k k' \<Longrightarrow> dictHashKey ty k = dictHashKey ty k'"
    and dup_key: "keyDup ty = Some dup \<Longrightarrow> dictCompareKeys ty k (dup k)"

section \<open>Indices\<close>

lemma unat_u64_u32: "unat (ucast (x :: u64) :: u32) = unat x mod 2 ^ 32"
  by (simp add: unsigned_ucast_eq take_bit_eq_mod)

lemma unat_and_mask: "unat ((x :: u64) AND mask n) = unat x mod 2 ^ n"
  by (metis take_bit_eq_mask take_bit_eq_mod unsigned_take_bit_eq)

lemma mod_mod_pow: "n \<le> m \<Longrightarrow> (x :: nat) mod 2 ^ m mod 2 ^ n = x mod 2 ^ n"
  by (simp add: mod_mod_cancel le_imp_power_dvd)

lemma bucket_index:
  assumes "n \<le> 31"
  shows "unat (ucast (h AND mask n :: u64) :: u32) = unat h mod 2 ^ n"
    and "unat (ucast (ucast (ucast h :: u32) AND mask n :: u64) :: u32) = unat h mod 2 ^ n"
proof -
  have lt: "unat x mod 2 ^ n < 2 ^ 32" for x :: u64
    using assms by (intro less_le_trans [OF mod_less_divisor power_increasing]) auto
  show "unat (ucast (h AND mask n :: u64) :: u32) = unat h mod 2 ^ n"
    using lt by (simp only: unat_u64_u32 unat_and_mask mod_less)
  have "unat (ucast h :: u32) mod 2 ^ n = unat h mod 2 ^ n"
    using assms by (simp only: unat_u64_u32 mod_mod_pow)
  then show "unat (ucast (ucast (ucast h :: u32) AND mask n :: u64) :: u32) = unat h mod 2 ^ n"
    using lt [of "ucast (ucast h :: u32)"] by (simp only: unat_u64_u32 unat_and_mask unat_u32_u64 mod_less)
qed

lemma sint_index:
  assumes "n \<le> 31" "unat (x :: u32) = m mod 2 ^ n"
  shows "sint x = int (m mod 2 ^ n)"
proof -
  have "m mod 2 ^ n < 2 ^ 31"
    using assms(1) by (intro less_le_trans [OF mod_less_divisor power_increasing]) auto
  with assms(2) show ?thesis by (simp add: sint_u32)
qed

lemma slot_less: "tab_ok ty n tab \<Longrightarrow> slot ty n k < length tab"
  by (simp add: tab_ok_def slot_def)

section \<open>Chains and tables\<close>

lemma tab_ok_update:
  assumes "tab_ok ty n tab" "\<forall>e \<in> set ch. slot ty n (de_key e) = i"
  shows "tab_ok ty n (tab[i := ch])"
  using assms
  by (cases "i < length tab")
    (auto simp: tab_ok_def nth_list_update list_update_beyond split: if_splits)

lemma mset_concat_update:
  assumes "i < length tab"
  shows "mset (concat (tab[i := ch])) + mset (tab ! i) = mset (concat tab) + mset ch"
proof -
  have "tab = take i tab @ tab ! i # drop (Suc i) tab"
    using assms by (simp add: id_take_nth_drop)
  then have "mset (concat tab) = mset (concat (take i tab)) + mset (tab ! i) + mset (concat (drop (Suc i) tab))"
    by (metis (no_types, lifting) add.assoc concat.simps(2) concat_append mset_append)
  with assms show ?thesis by (simp add: upd_conv_take_nth_drop)
qed

lemma mset_exchange:
  assumes "A + C = D + C'" "add_mset e C' = add_mset e' C"
  shows "add_mset e A = add_mset e' D"
proof -
  have "add_mset e A + C = add_mset e' D + C"
    using assms by (metis union_mset_add_mset_left union_mset_add_mset_right)
  then show ?thesis by simp
qed

lemma mset_concat_cons:
  assumes "i < length tab"
  shows "mset (concat (tab[i := e # tab ! i])) = add_mset e (mset (concat tab))"
  using mset_concat_update [OF assms, of "e # tab ! i"] by simp

lemma set_concat_member: "tab_ok ty n tab \<Longrightarrow> e \<in> set (concat tab) \<Longrightarrow> e \<in> set (tab ! slot ty n (de_key e))"
  unfolding tab_ok_def set_concat in_set_conv_nth [of _ tab] by (metis (no_types, lifting) UN_E in_set_conv_nth)

lemma chain_search_Some: "chain_search ty k ch = Some j \<Longrightarrow> j < length ch \<and>
    (k = de_key (ch ! j) \<or> dictCompareKeys ty k (de_key (ch ! j)))"
  by (induction ch arbitrary: j) (auto split: if_splits)

lemma chain_search_None: "chain_search ty k ch = None \<longleftrightarrow>
    (\<forall>e \<in> set ch. k \<noteq> de_key e \<and> \<not> dictCompareKeys ty k (de_key e))"
  by (induction ch) auto


section \<open>Incremental rehashing\<close>

lemma bucket_Some: "i < length (ht_table h) \<Longrightarrow> bucket h i = Some (ht_table h ! i)"
  by (simp add: bucket_def)

lemma unat_add_1: "unat (x :: u64) < 2 ^ 64 - 1 \<Longrightarrow> unat (x + 1) = Suc (unat x)"
  by (simp add: unat_word_ariths)

lemma unat_sub_1: "0 < unat (x :: u64) \<Longrightarrow> unat (x - 1) = unat x - 1"
  by (metis unat_eq_zero unat_minus_one not_less_zero)

lemma dictRehash_entry:
  assumes "ht_live ty n (ht1 d)" "used_ok (ht1 d)" "0 < unat (ht_used (ht0 d))"
    "length (ht_entries (ht1 d)) < 2 ^ 64 - 1"
  shows "\<exists>h1 u. dictRehash_entry ty de d = Some (d\<lparr>ht0 := (ht0 d)\<lparr>ht_used := u\<rparr>, ht1 := h1\<rparr>) \<and>
    ht_live ty n h1 \<and> used_ok h1 \<and> mset (ht_entries h1) = add_mset de (mset (ht_entries (ht1 d))) \<and>
    Suc (unat u) = unat (ht_used (ht0 d))"
proof -
  let ?h = "ht1 d" and ?i = "slot ty n (de_key de)"
  have n: "n \<le> 31" and m: "ht_sizemask ?h = mask n" and tab: "tab_ok ty n (ht_table ?h)"
    using assms(1) by (auto simp: ht_live_def)
  have i: "unat (ucast (dictHashKey ty (de_key de) AND ht_sizemask ?h) :: u32) = ?i"
    unfolding m slot_def by (rule bucket_index [OF n])
  have lt: "?i < length (ht_table ?h)" using slot_less [OF tab] .
  let ?h1 = "?h\<lparr>ht_table := (ht_table ?h)[?i := de # ht_table ?h ! ?i], ht_used := ht_used ?h + 1\<rparr>"
  have ms: "mset (ht_entries ?h1) = add_mset de (mset (ht_entries ?h))"
    using mset_concat_cons [OF lt] by (simp add: ht_entries_def)
  then have "length (ht_entries ?h1) = Suc (length (ht_entries ?h))"
    by (metis size_add_mset size_mset)
  then have "used_ok ?h1"
    using assms(2,4) by (simp add: used_ok_def unat_add_1 ht_entries_def)
  moreover have "ht_live ty n ?h1"
    using assms(1) tab lt
    by (auto simp: ht_live_def intro!: tab_ok_update) (auto simp: tab_ok_def)
  moreover have "dictRehash_entry ty de d =
      Some (d\<lparr>ht0 := (ht0 d)\<lparr>ht_used := ht_used (ht0 d) - 1\<rparr>, ht1 := ?h1\<rparr>)"
    using lt by (simp add: dictRehash_entry_def Let_def i bucket_Some)
  moreover have "Suc (unat (ht_used (ht0 d) - 1)) = unat (ht_used (ht0 d))"
    using assms(3) by (simp add: unat_sub_1)
  ultimately show ?thesis using ms by blast
qed

lemma dictRehash_bucket:
  assumes "ht_live ty n (ht1 d)" "used_ok (ht1 d)" "length ch \<le> unat (ht_used (ht0 d))"
    "length (ht_entries (ht1 d)) + length ch < 2 ^ 64"
  shows "\<exists>h1 u. dictRehash_bucket ty ch d = Some (d\<lparr>ht0 := (ht0 d)\<lparr>ht_used := u\<rparr>, ht1 := h1\<rparr>) \<and>
    ht_live ty n h1 \<and> used_ok h1 \<and> mset (ht_entries h1) = mset ch + mset (ht_entries (ht1 d)) \<and>
    unat u + length ch = unat (ht_used (ht0 d))"
  using assms
proof (induction ch arbitrary: d)
  case Nil
  then show ?case by (intro exI [of _ "ht1 d"] exI [of _ "ht_used (ht0 d)"]) simp
next
  case (Cons de ch)
  obtain h1 u where step: "dictRehash_entry ty de d = Some (d\<lparr>ht0 := (ht0 d)\<lparr>ht_used := u\<rparr>, ht1 := h1\<rparr>)"
    and h1: "ht_live ty n h1" "used_ok h1" "mset (ht_entries h1) = add_mset de (mset (ht_entries (ht1 d)))"
    and u: "Suc (unat u) = unat (ht_used (ht0 d))"
    using dictRehash_entry [OF Cons.prems(1,2), of de] Cons.prems(3,4) by auto
  let ?d = "d\<lparr>ht0 := (ht0 d)\<lparr>ht_used := u\<rparr>, ht1 := h1\<rparr>"
  have len: "length (ht_entries h1) = Suc (length (ht_entries (ht1 d)))"
    using h1(3) by (metis size_add_mset size_mset)
  obtain h2 u' where rest: "dictRehash_bucket ty ch ?d = Some (?d\<lparr>ht0 := (ht0 ?d)\<lparr>ht_used := u'\<rparr>, ht1 := h2\<rparr>)"
    and h2: "ht_live ty n h2" "used_ok h2" "mset (ht_entries h2) = mset ch + mset (ht_entries h1)"
    "unat u' + length ch = unat u"
    using Cons.IH [of ?d] h1 Cons.prems(3,4) u len by auto
  have "dictRehash_bucket ty (de # ch) d = Some (d\<lparr>ht0 := (ht0 d)\<lparr>ht_used := u'\<rparr>, ht1 := h2\<rparr>)"
    using step rest by simp
  moreover have "mset (ht_entries h2) = mset (de # ch) + mset (ht_entries (ht1 d))"
    using h2(3) h1(3) by simp
  moreover have "unat u' + length (de # ch) = unat (ht_used (ht0 d))"
    using h2(4) u by simp
  ultimately show ?case using h2 by blast
qed

lemma dictRehash_skip:
  assumes "0 \<le> idx" "\<forall>i < nat idx. tab ! i = []" "j < length tab" "tab ! j \<noteq> []"
  shows "\<exists>idx' ev' stop. dictRehash_skip tab idx ev = Some (idx', ev', stop) \<and> idx \<le> idx' \<and>
    idx' \<le> int j \<and> (\<forall>i < nat idx'. tab ! i = []) \<and> (if stop then idx < idx' else tab ! nat idx' \<noteq> [])"
  using assms
proof (induction tab idx ev rule: dictRehash_skip.induct)
  case (1 tab idx ev)
  have le: "idx \<le> int j"
  proof (rule ccontr)
    assume "\<not> idx \<le> int j"
    then have "j < nat idx" by linarith
    then show False using "1.prems" by simp
  qed
  then have in_range: "\<not> (idx < 0 \<or> idx \<ge> int (length tab))" using "1.prems" by linarith
  show ?case
  proof (cases "tab ! nat idx = []")
    case False
    with in_range le "1.prems" show ?thesis
      by (subst dictRehash_skip.simps) auto
  next
    case True
    then have "idx \<noteq> int j" using "1.prems" by auto
    with le have le': "idx + 1 \<le> int j" by simp
    have empty: "\<forall>i < nat (idx + 1). tab ! i = []"
    proof (intro allI impI)
      fix i assume "i < nat (idx + 1)"
      then have "i < nat idx \<or> i = nat idx" using "1.prems"(1) by linarith
      then show "tab ! i = []" using True "1.prems"(2) by auto
    qed
    show ?thesis
    proof (cases "ev - 1 = 0")
      case True
      with in_range \<open>tab ! nat idx = []\<close> le' empty show ?thesis
        by (subst dictRehash_skip.simps) auto
    next
      case False
      then obtain idx' ev' stop where "dictRehash_skip tab (idx + 1) (ev - 1) = Some (idx', ev', stop)"
        "idx + 1 \<le> idx'" "idx' \<le> int j" "\<forall>i < nat idx'. tab ! i = []"
        "if stop then idx + 1 < idx' else tab ! nat idx' \<noteq> []"
        using "1.IH" [OF in_range _ False] True empty "1.prems" by auto
      with in_range True False show ?thesis
        by (subst dictRehash_skip.simps) auto
    qed
  qed
qed


definition rehash_inv :: "('k, 'v) dictType \<Rightarrow> ('k, 'v) dict \<Rightarrow> bool" where
  "rehash_inv ty d \<longleftrightarrow> rehash_ok ty d \<and> used_ok (ht0 d) \<and> used_ok (ht1 d) \<and>
     length (dict_entries d) < 2 ^ 64"

text \<open>What a rehashing step leaves alone.\<close>

definition rehash_frame :: "('k, 'v) dict \<Rightarrow> ('k, 'v) dict \<Rightarrow> bool" where
  "rehash_frame d d' \<longleftrightarrow> mset (dict_entries d') = mset (dict_entries d) \<and> iterators d' = iterators d \<and>
     ht_size (ht0 d') = ht_size (ht0 d) \<and> ht_size (ht1 d') = ht_size (ht1 d) \<and> rehashidx d \<le> rehashidx d'"

lemma rehash_frame_trans: "rehash_frame d d' \<Longrightarrow> rehash_frame d' d'' \<Longrightarrow> rehash_frame d d''"
  by (auto simp: rehash_frame_def)

lemma unat_pow: "n \<in> {2..31} \<Longrightarrow> unat (2 ^ n :: u64) = 2 ^ n"
proof -
  assume "n \<in> {2..31}"
  then have "(2 :: nat) ^ n < 2 ^ 64" by (intro power_strict_increasing) auto
  moreover have "unat (of_nat (2 ^ n) :: u64) = 2 ^ n mod 2 ^ 64"
    unfolding unat_of_nat by simp
  ultimately show ?thesis by (simp only: mod_less of_nat_power of_nat_numeral)
qed

lemma ht_live_size: "ht_live ty n h \<Longrightarrow> unat (ht_size h) = length (ht_table h)"
  by (auto simp: ht_live_def tab_ok_def unat_pow)

lemma ht_live_not_reset: "ht_live ty n h \<Longrightarrow> h \<noteq> dictReset"
  by (auto simp: ht_live_def tab_ok_def dictReset_def)

lemma nonempty_bucket:
  assumes "ht_entries h \<noteq> []"
  obtains j where "j < length (ht_table h)" "ht_table h ! j \<noteq> []"
  using assms by (auto simp: ht_entries_def in_set_conv_nth)

lemma rehash_bucket_step:
  assumes inv: "rehash_inv ty d" and idx: "0 \<le> idx" "idx < int (length (ht_table (ht0 d)))"
    "rehashidx d \<le> idx" "\<forall>i < nat idx. ht_table (ht0 d) ! i = []"
  shows "\<exists>d'. dictRehash_bucket ty (ht_table (ht0 d) ! nat idx) (d\<lparr>rehashidx := idx\<rparr>) = Some d' \<and>
    (let d'' = d'\<lparr>ht0 := (ht0 d')\<lparr>ht_table := (ht_table (ht0 d'))[nat idx := []]\<rparr>, rehashidx := idx + 1\<rparr>
     in rehash_inv ty d'' \<and> rehash_frame d d'' \<and> rehashidx d'' = idx + 1)"
proof -
  let ?t = "ht_table (ht0 d)" and ?i = "nat idx"
  let ?ch = "?t ! ?i" and ?d = "d\<lparr>rehashidx := idx\<rparr>"
  obtain n0 n1 where live: "ht_live ty n0 (ht0 d)" "ht_live ty n1 (ht1 d)"
    using inv by (auto simp: rehash_inv_def rehash_ok_def)
  have i: "?i < length ?t" using idx by linarith
  have split: "mset (concat (?t[?i := []])) + mset ?ch = mset (concat ?t)"
    using mset_concat_update [OF i, of "[]"] by simp
  then have len: "length (concat (?t[?i := []])) + length ?ch = length (concat ?t)"
    by (metis size_mset size_union)
  have tot: "length (ht_entries (ht0 d)) + length (ht_entries (ht1 d)) < 2 ^ 64"
    using inv by (simp add: rehash_inv_def dict_entries_def)
  have u0: "unat (ht_used (ht0 d)) = length (concat ?t)"
    using inv by (simp add: rehash_inv_def used_ok_def ht_entries_def)
  obtain h1 u where res: "dictRehash_bucket ty ?ch ?d = Some (?d\<lparr>ht0 := (ht0 ?d)\<lparr>ht_used := u\<rparr>, ht1 := h1\<rparr>)"
    and h1: "ht_live ty n1 h1" "used_ok h1" "mset (ht_entries h1) = mset ?ch + mset (ht_entries (ht1 d))"
    and u: "unat u + length ?ch = unat (ht_used (ht0 d))"
    using dictRehash_bucket [of ty n1 ?d ?ch] live inv tot len u0
    by (auto simp: rehash_inv_def ht_entries_def)
  let ?d'' = "d\<lparr>ht1 := h1, ht0 := (ht0 d)\<lparr>ht_used := u, ht_table := ?t[?i := []]\<rparr>, rehashidx := idx + 1\<rparr>"
  have ms: "mset (dict_entries ?d'') = mset (dict_entries d)"
    using split h1(3) by (simp add: dict_entries_def ht_entries_def)
  then have "length (dict_entries ?d'') = length (dict_entries d)" by (metis size_mset)
  moreover have "used_ok (ht0 ?d'')"
    using u u0 len by (simp add: used_ok_def ht_entries_def)
  moreover have "ht_live ty n0 (ht0 ?d'')"
    using live(1) tab_ok_update [of ty n0 ?t "[]" ?i] by (simp add: ht_live_def)
  moreover have "ht_table (ht0 ?d'') ! k = []" if "k < nat (idx + 1)" for k
  proof -
    have "k < ?i \<or> k = ?i" using that idx by linarith
    then show ?thesis using idx(4) i by auto
  qed
  ultimately have "rehash_inv ty ?d''"
    using inv h1 idx by (auto simp: rehash_inv_def rehash_ok_def)
  moreover have "ht_size h1 = ht_size (ht1 d)"
    using live(2) h1(1) by (simp add: ht_live_def)
  then have "rehash_frame d ?d''"
    using ms idx by (simp add: rehash_frame_def)
  ultimately show ?thesis using res by (simp add: Let_def)
qed

lemma dictRehash_loop_ok:
  assumes "rehash_inv ty d"
  shows "\<exists>d' stop. dictRehash_loop ty n ev d = Some (d', stop) \<and> rehash_inv ty d' \<and> rehash_frame d d' \<and>
    (0 < n \<and> ht_used (ht0 d) \<noteq> 0 \<longrightarrow> rehashidx d < rehashidx d') \<and> (stop \<longrightarrow> ht_used (ht0 d') \<noteq> 0)"
  using assms
proof (induction n arbitrary: d ev)
  case 0
  then show ?case by (auto simp: rehash_frame_def)
next
  case (Suc n)
  show ?case
  proof (cases "ht_used (ht0 d) = 0")
    case True
    with Suc.prems show ?thesis by (auto simp: rehash_frame_def)
  next
    case False
    let ?t = "ht_table (ht0 d)"
    obtain n0 where live: "ht_live ty n0 (ht0 d)" and ri: "0 \<le> rehashidx d" "rehashidx d \<le> int (length ?t)"
      "\<forall>i < nat (rehashidx d). ?t ! i = []" and u: "used_ok (ht0 d)"
      using Suc.prems by (auto simp: rehash_inv_def rehash_ok_def)
    have "ht_entries (ht0 d) \<noteq> []" using False u by (auto simp: used_ok_def unat_eq_0)
    then obtain j where j: "j < length ?t" "?t ! j \<noteq> []" by (rule nonempty_bucket)
    obtain idx ev' stop where skip: "dictRehash_skip ?t (rehashidx d) ev = Some (idx, ev', stop)"
      and idx: "rehashidx d \<le> idx" "idx \<le> int j" "\<forall>i < nat idx. ?t ! i = []"
      "if stop then rehashidx d < idx else ?t ! nat idx \<noteq> []"
      using dictRehash_skip [OF ri(1,3) j, of ev] by blast
    have lt: "rehashidx d < int (length ?t)" using idx j by linarith
    have guard: "ht_size (ht0 d) > word_of_int (rehashidx d)"
    proof -
      have "unat (ht_size (ht0 d)) = length ?t" using live by (rule ht_live_size)
      then have sz: "uint (ht_size (ht0 d)) = int (length ?t)" by (metis uint_nat)
      then have "rehashidx d < 2 ^ 64" using lt uint_lt2p [of "ht_size (ht0 d)"] by simp
      then have "uint (word_of_int (rehashidx d) :: u64) = rehashidx d"
        using ri(1) by (simp add: uint_word_of_int)
      with sz lt show ?thesis by (simp add: word_less_def)
    qed
    show ?thesis
    proof (cases stop)
      case True
      have "rehash_inv ty (d\<lparr>rehashidx := idx\<rparr>)"
        using Suc.prems idx j ri by (auto simp: rehash_inv_def rehash_ok_def dict_entries_def)
      then show ?thesis
        using True False guard skip idx
        by (auto simp: rehash_frame_def dict_entries_def)
    next
      case False': False
      have ib: "0 \<le> idx" "idx < int (length ?t)" using idx j ri by linarith+
      obtain d' where b: "dictRehash_bucket ty (?t ! nat idx) (d\<lparr>rehashidx := idx\<rparr>) = Some d'"
        and d': "let d'' = d'\<lparr>ht0 := (ht0 d')\<lparr>ht_table := (ht_table (ht0 d'))[nat idx := []]\<rparr>, rehashidx := idx + 1\<rparr>
          in rehash_inv ty d'' \<and> rehash_frame d d'' \<and> rehashidx d'' = idx + 1"
        using rehash_bucket_step [OF Suc.prems ib idx(1,3)] by blast
      define d'' where "d'' = d'\<lparr>ht0 := (ht0 d')\<lparr>ht_table := (ht_table (ht0 d'))[nat idx := []]\<rparr>, rehashidx := idx + 1\<rparr>"
      have d2: "rehash_inv ty d''" "rehash_frame d d''" "rehashidx d'' = idx + 1"
        using d' by (simp_all add: d''_def Let_def)
      obtain e stop' where e: "dictRehash_loop ty n ev' d'' = Some (e, stop')" "rehash_inv ty e"
        "rehash_frame d'' e" "stop' \<longrightarrow> ht_used (ht0 e) \<noteq> 0"
        using Suc.IH [OF d2(1), of ev'] by blast
      have "dictRehash_loop ty (Suc n) ev d = Some (e, stop')"
        using False False' guard skip b e(1) by (simp add: d''_def)
      moreover have "rehashidx d < rehashidx e"
        using idx d2 e by (simp add: rehash_frame_def)
      ultimately show ?thesis
        using e rehash_frame_trans [OF d2(2) e(3)] by auto
    qed
  qed
qed


section \<open>The dictionary as a map\<close>

lemma find_filter: "List.find P xs = (case filter P xs of [] \<Rightarrow> None | x # _ \<Rightarrow> Some x)"
  by (induction xs) auto

context dict_type
begin

lemma distinct_keys_filter:
  "distinct_keys ty es \<longleftrightarrow> (\<forall>k. length (filter (\<lambda>e. dictCompareKeys ty k (de_key e)) es) \<le> 1)"
proof (induction es)
  case Nil
  then show ?case by (simp add: distinct_keys_def)
next
  case (Cons e es)
  let ?F = "\<lambda>k. filter (\<lambda>e. dictCompareKeys ty k (de_key e))"
  have "(\<forall>k. length (?F k (e # es)) \<le> 1) \<longleftrightarrow>
    (\<forall>k. length (?F k es) \<le> 1) \<and> (\<forall>e' \<in> set es. \<not> dictCompareKeys ty (de_key e) (de_key e'))"
    (is "?L \<longleftrightarrow> ?R")
  proof
    assume L: ?L
    have "length (?F k es) \<le> 1" for k
      using L [rule_format, of k] by (simp split: if_splits)
    moreover have "?F (de_key e) es = []"
      using L [rule_format, of "de_key e"] cmp_refl by simp
    ultimately show ?R by (auto simp: filter_empty_conv)
  next
    assume R: ?R
    have "?F k es = []" if "dictCompareKeys ty k (de_key e)" for k
      using R cmp_trans [OF cmp_sym [OF that]] by (auto simp: filter_empty_conv)
    with R show ?L by auto
  qed
  with Cons show ?case by (auto simp: distinct_keys_def)
qed

lemma distinct_keys_mset:
  assumes "mset es = mset es'" "distinct_keys ty es"
  shows "distinct_keys ty es'"
  using assms unfolding distinct_keys_filter by (metis mset_filter size_mset)

lemma dict_map_Some:
  assumes "distinct_keys ty (dict_entries d)"
  shows "dict_map ty d k = Some v \<longleftrightarrow>
    (\<exists>e \<in> set (dict_entries d). dictCompareKeys ty k (de_key e) \<and> de_val e = v)"
proof -
  let ?f = "filter (\<lambda>e. dictCompareKeys ty k (de_key e)) (dict_entries d)"
  have set: "set ?f = {e \<in> set (dict_entries d). dictCompareKeys ty k (de_key e)}" by auto
  have "length ?f \<le> 1" using assms distinct_keys_filter by blast
  then consider "?f = []" | e where "?f = [e]"
    by (cases ?f) auto
  then show ?thesis
  proof cases
    case 1
    with set show ?thesis by (auto simp: dict_map_def find_filter)
  next
    case (2 e)
    then have "{e' \<in> set (dict_entries d). dictCompareKeys ty k (de_key e')} = {e}"
      using set by (metis list.set(1) list.set(2))
    with 2 show ?thesis by (auto simp: dict_map_def find_filter)
  qed
qed

lemma dict_map_None:
  "dict_map ty d k = None \<longleftrightarrow> (\<forall>e \<in> set (dict_entries d). \<not> dictCompareKeys ty k (de_key e))"
  by (auto simp: dict_map_def find_None_iff)

lemma dict_map_mset:
  assumes "mset (dict_entries d) = mset (dict_entries d')" "distinct_keys ty (dict_entries d)"
  shows "dict_map ty d = dict_map ty d'"
proof
  fix k
  have "set (dict_entries d) = set (dict_entries d')" using assms(1) by (metis set_mset_mset)
  then show "dict_map ty d k = dict_map ty d' k"
    using dict_map_Some [OF assms(2), of k] dict_map_Some [OF distinct_keys_mset [OF assms], of k]
    by (metis option.exhaust)
qed

end

section \<open>Rehashing keeps the contents\<close>

lemma dictReset_simps [simp]: "ht_entries dictReset = []" "used_ok dictReset" "ht_used dictReset = 0"
  by (simp_all add: dictReset_def ht_entries_def used_ok_def)

lemma dict_ok_rehash:
  "dictIsRehashing d \<Longrightarrow> dict_ok ty d \<longleftrightarrow> rehash_inv ty d \<and> distinct_keys ty (dict_entries d)"
  by (auto simp: dict_ok_def rehash_inv_def dictIsRehashing_def)

lemma dict_ok_rehash_inv: "dict_ok ty d \<Longrightarrow> dictIsRehashing d \<Longrightarrow> rehash_inv ty d"
  by (simp add: dict_ok_rehash)

lemma rehash_inv_rehashing: "rehash_inv ty d \<Longrightarrow> dictIsRehashing d"
  by (auto simp: rehash_inv_def rehash_ok_def dictIsRehashing_def)

context dict_type
begin

text \<open>\<open>same d d'\<close>: a well-formed dictionary with the same entries.\<close>

lemma dictRehash_ok:
  assumes ok: "dict_ok ty d"
  shows "\<exists>d'. dictRehash ty d n = Some (d', dictIsRehashing d') \<and> dict_ok ty d' \<and>
    mset (dict_entries d') = mset (dict_entries d) \<and> iterators d' = iterators d \<and>
    (dictIsRehashing d' \<longrightarrow> dictIsRehashing d \<and> ht_size (ht0 d') = ht_size (ht0 d) \<and>
       ht_size (ht1 d') = ht_size (ht1 d) \<and>
       (0 < n \<longrightarrow> rehashidx d < rehashidx d'))"
proof (cases "dictIsRehashing d")
  case False
  with ok show ?thesis by (intro exI [of _ d]) (simp add: dictRehash_def)
next
  case True
  then obtain d' stop where loop: "dictRehash_loop ty n (int n * 10) d = Some (d', stop)"
    and inv: "rehash_inv ty d'" and fr: "rehash_frame d d'"
    and prog: "0 < n \<and> ht_used (ht0 d) \<noteq> 0 \<longrightarrow> rehashidx d < rehashidx d'"
    and st: "stop \<longrightarrow> ht_used (ht0 d') \<noteq> 0"
    using dictRehash_loop_ok [OF dict_ok_rehash_inv [OF ok True], of n "int n * 10"] by blast
  have ms: "mset (dict_entries d) = mset (dict_entries d')" using fr by (simp add: rehash_frame_def)
  have dk: "distinct_keys ty (dict_entries d')"
    by (rule distinct_keys_mset [OF ms]) (use ok in \<open>simp add: dict_ok_def\<close>)
  have re: "dictIsRehashing d'" using inv by (rule rehash_inv_rehashing)
  show ?thesis
  proof (cases "ht_used (ht0 d') = 0")
    case used: False
    have nz: "ht_used (ht0 d) \<noteq> 0"
    proof
      assume "ht_used (ht0 d) = 0"
      then have "d' = d" using loop by (cases n) simp_all
      with \<open>ht_used (ht0 d) = 0\<close> used show False by simp
    qed
    have "dictRehash ty d n = Some (d', True)"
      using True loop used by (simp add: dictRehash_def)
    moreover have "dict_ok ty d'" using re inv dk by (simp add: dict_ok_rehash)
    ultimately show ?thesis
      using ms fr prog re nz True by (intro exI [of _ d']) (simp add: rehash_frame_def)
  next
    case used: True
    let ?e = "d'\<lparr>ht0 := ht1 d', ht1 := dictReset, rehashidx := -1\<rparr>"
    have e0: "ht_entries (ht0 d') = []"
      using inv used by (simp add: rehash_inv_def used_ok_def)
    then have es: "dict_entries ?e = dict_entries d'" by (simp add: dict_entries_def)
    have "dictRehash ty d n = Some (?e, False)"
      using True loop used st by (auto simp: dictRehash_def)
    moreover have "dict_ok ty ?e"
      using inv dk es by (auto simp: dict_ok_def rehash_inv_def rehash_ok_def)
    moreover have "\<not> dictIsRehashing ?e" by (simp add: dictIsRehashing_def)
    ultimately show ?thesis
      using ms fr es by (intro exI [of _ ?e]) (simp add: rehash_frame_def)
  qed
qed

end


section \<open>Lookup\<close>

definition same_dict :: "('k, 'v) dictType \<Rightarrow> ('k, 'v) dict \<Rightarrow> ('k, 'v) dict \<Rightarrow> bool" where
  "same_dict ty d d' \<longleftrightarrow> dict_ok ty d' \<and> mset (dict_entries d') = mset (dict_entries d) \<and> iterators d' = iterators d"

definition ref_to :: "('k, 'v) dictType \<Rightarrow> ('k, 'v) dict \<Rightarrow> 'k \<Rightarrow> entry_ref \<Rightarrow> bool" where
  "ref_to ty d k ref \<longleftrightarrow> fst ref \<le> 1 \<and> (\<exists>e. dictGetEntry d ref = Some e \<and> dictCompareKeys ty k (de_key e) \<and>
     e \<in> set (dict_entries d))"

lemma same_dict_trans: "same_dict ty d d' \<Longrightarrow> same_dict ty d' d'' \<Longrightarrow> same_dict ty d d''"
  by (simp add: same_dict_def)

lemma same_dict_length: "same_dict ty d d' \<Longrightarrow> length (dict_entries d') = length (dict_entries d)"
  unfolding same_dict_def by (metis size_mset)

lemma same_dict_entries: "same_dict ty d d' \<Longrightarrow> set (dict_entries d') = set (dict_entries d)"
  unfolding same_dict_def by (metis set_mset_mset)

lemma live_ht0:
  assumes "dict_ok ty d" "dict_entries d \<noteq> [] \<or> dictIsRehashing d \<or> ht0 d \<noteq> dictReset"
  obtains n where "ht_live ty n (ht0 d)"
  using assms
  by (auto simp: dict_ok_def rehash_ok_def dictIsRehashing_def dict_entries_def split: if_splits)

lemma live_ht1:
  assumes "dict_ok ty d" "dictIsRehashing d"
  obtains n where "ht_live ty n (ht1 d)"
  using assms by (auto simp: dict_ok_def rehash_ok_def dictIsRehashing_def)

lemma ht1_empty: "dict_ok ty d \<Longrightarrow> \<not> dictIsRehashing d \<Longrightarrow> ht_entries (ht1 d) = []"
  by (auto simp: dict_ok_def dictIsRehashing_def)

lemma used_zero:
  assumes "dict_ok ty d"
  shows "ht_used (ht0 d) + ht_used (ht1 d) = 0 \<longleftrightarrow> dict_entries d = []"
    and "ht_used (ht0 d) = 0 \<and> ht_used (ht1 d) = 0 \<longleftrightarrow> dict_entries d = []"
proof -
  have u: "unat (ht_used (ht0 d)) = length (ht_entries (ht0 d))"
    "unat (ht_used (ht1 d)) = length (ht_entries (ht1 d))"
    and t: "length (ht_entries (ht0 d)) + length (ht_entries (ht1 d)) < 2 ^ 64"
    using assms by (auto simp: dict_ok_def used_ok_def dict_entries_def)
  have "unat (ht_used (ht0 d) + ht_used (ht1 d)) = length (dict_entries d)"
    using u t by (simp add: unat_word_ariths dict_entries_def)
  then show "ht_used (ht0 d) + ht_used (ht1 d) = 0 \<longleftrightarrow> dict_entries d = []"
    by (metis length_0_conv unat_eq_zero)
  show "ht_used (ht0 d) = 0 \<and> ht_used (ht1 d) = 0 \<longleftrightarrow> dict_entries d = []"
    using u by (auto simp: dict_entries_def unat_eq_0)
qed

lemma dict_entries_get_ht: "t \<le> 1 \<Longrightarrow> set (ht_entries (get_ht t d)) \<subseteq> set (dict_entries d)"
  by (auto simp: get_ht_def dict_entries_def)

context dict_type
begin

lemma rehash_if_needed:
  assumes "dict_ok ty d"
  obtains d' where "(if dictIsRehashing d then dictRehashStep ty d else Some d) = Some d'" "same_dict ty d d'"
proof (cases "dictIsRehashing d \<and> iterators d = 0")
  case True
  then show ?thesis
    using dictRehash_ok [OF assms, of 1] that by (auto simp: dictRehashStep_def same_dict_def)
next
  case False
  then show ?thesis using assms that by (auto simp: dictRehashStep_def same_dict_def)
qed

lemma key_test [simp]: "(k = k' \<or> dictCompareKeys ty k k') \<longleftrightarrow> dictCompareKeys ty k k'"
  using cmp_refl by auto

lemma table_search_ok:
  assumes live: "ht_live ty n (get_ht t d)"
  obtains idx r where "table_search ty k (ucast (dictHashKey ty k)) d t = Some (idx, r)"
    "unat idx = slot ty n k" "sint idx = int (slot ty n k)" "slot ty n k < length (ht_table (get_ht t d))"
    "case r of None \<Rightarrow> \<forall>e \<in> set (ht_entries (get_ht t d)). \<not> dictCompareKeys ty k (de_key e)
     | Some j \<Rightarrow> j < length (ht_table (get_ht t d) ! slot ty n k) \<and>
         dictCompareKeys ty k (de_key (ht_table (get_ht t d) ! slot ty n k ! j))"
proof -
  let ?h = "get_ht t d" and ?i = "slot ty n k"
  let ?idx = "ucast (ucast (ucast (dictHashKey ty k) :: u32) AND ht_sizemask (get_ht t d)) :: u32"
  let ?r = "chain_search ty k (ht_table ?h ! ?i)"
  have n: "n \<le> 31" and m: "ht_sizemask ?h = mask n" and tab: "tab_ok ty n (ht_table ?h)"
    using live by (auto simp: ht_live_def)
  have idx: "unat ?idx = ?i"
    unfolding m slot_def by (rule bucket_index(2) [OF n])
  then have "sint ?idx = int ?i"
    unfolding slot_def by (rule sint_index [OF n])
  moreover have lt: "?i < length (ht_table ?h)" using slot_less [OF tab] .
  moreover have "table_search ty k (ucast (dictHashKey ty k)) d t = Some (?idx, ?r)"
    using idx lt by (simp add: table_search_def Let_def bucket_Some)
  moreover have "case ?r of None \<Rightarrow> \<forall>e \<in> set (ht_entries ?h). \<not> dictCompareKeys ty k (de_key e)
     | Some j \<Rightarrow> j < length (ht_table ?h ! ?i) \<and> dictCompareKeys ty k (de_key (ht_table ?h ! ?i ! j))"
  proof (cases ?r)
    case None
    have "\<not> dictCompareKeys ty k (de_key e)" if "e \<in> set (ht_entries ?h)" for e
    proof
      assume eq: "dictCompareKeys ty k (de_key e)"
      then have "slot ty n (de_key e) = ?i" using cmp_hash by (simp add: slot_def)
      with set_concat_member [OF tab] that have "e \<in> set (ht_table ?h ! ?i)"
        unfolding ht_entries_def by metis
      with None eq show False by (auto simp: chain_search_None)
    qed
    with None show ?thesis by simp
  next
    case (Some j)
    with chain_search_Some [OF Some] show ?thesis by simp
  qed
  ultimately show ?thesis using idx that by blast
qed

lemma ref_toI:
  assumes "t \<le> 1" "i < length (ht_table (get_ht t d))" "j < length (ht_table (get_ht t d) ! i)"
    "dictCompareKeys ty k (de_key (ht_table (get_ht t d) ! i ! j))"
  shows "ref_to ty d k (t, i, j)"
proof -
  let ?e = "ht_table (get_ht t d) ! i ! j"
  have "?e \<in> set (ht_entries (get_ht t d))"
    using assms(2,3) by (auto simp: ht_entries_def in_set_conv_nth intro!: bexI [of _ "ht_table (get_ht t d) ! i"])
  then have "?e \<in> set (dict_entries d)" using dict_entries_get_ht [OF assms(1)] by blast
  with assms show ?thesis by (auto simp: ref_to_def dictGetEntry_def bucket_def)
qed

lemma tables_search_ok:
  assumes ok: "dict_ok ty d" and live: "dict_entries d \<noteq> [] \<or> dictIsRehashing d \<or> ht0 d \<noteq> dictReset"
  obtains t idx r n where "tables_search ty k (ucast (dictHashKey ty k)) d = Some (t, idx, r)"
    "ht_live ty n (get_ht t d)" "unat idx = slot ty n k" "sint idx = int (slot ty n k)"
    "t = 0 \<or> t = 1 \<and> dictIsRehashing d"
    "case r of None \<Rightarrow> dict_map ty d k = None \<and> (dictIsRehashing d \<longrightarrow> t = 1)
     | Some j \<Rightarrow> ref_to ty d k (t, unat idx, j)"
proof -
  obtain n where l0: "ht_live ty n (get_ht 0 d)"
    using live_ht0 [OF ok live] by (auto simp: get_ht_def)
  from table_search_ok [OF l0, of k] obtain i0 r0 where
    s0: "table_search ty k (ucast (dictHashKey ty k)) d 0 = Some (i0, r0)"
    "unat i0 = slot ty n k" "sint i0 = int (slot ty n k)" "slot ty n k < length (ht_table (get_ht 0 d))"
    and r0: "case r0 of None \<Rightarrow> \<forall>e \<in> set (ht_entries (get_ht 0 d)). \<not> dictCompareKeys ty k (de_key e)
     | Some j \<Rightarrow> j < length (ht_table (get_ht 0 d) ! slot ty n k) \<and>
         dictCompareKeys ty k (de_key (ht_table (get_ht 0 d) ! slot ty n k ! j))"
    by blast
  show ?thesis
  proof (cases r0)
    case (Some j)
    then have "ref_to ty d k (0, unat i0, j)" using r0 s0 by (intro ref_toI) auto
    with Some s0 show ?thesis by (intro that [OF _ l0, of i0 "Some j"]) (auto simp: tables_search_def)
  next
    case None
    then have no0: "\<forall>e \<in> set (ht_entries (ht0 d)). \<not> dictCompareKeys ty k (de_key e)"
      using r0 by (simp add: get_ht_def)
    show ?thesis
    proof (cases "dictIsRehashing d")
      case False
      then have "dict_map ty d k = None"
        using no0 ht1_empty [OF ok] unfolding dict_map_None by (auto simp: dict_entries_def)
      with None False s0 show ?thesis
        by (intro that [OF _ l0, of i0 None]) (auto simp: tables_search_def)
    next
      case True
      obtain n1 where l1: "ht_live ty n1 (get_ht 1 d)"
        using live_ht1 [OF ok True] by (auto simp: get_ht_def)
      from table_search_ok [OF l1, of k] obtain i1 r1 where
        s1: "table_search ty k (ucast (dictHashKey ty k)) d 1 = Some (i1, r1)"
        "unat i1 = slot ty n1 k" "sint i1 = int (slot ty n1 k)" "slot ty n1 k < length (ht_table (get_ht 1 d))"
        and r1: "case r1 of None \<Rightarrow> \<forall>e \<in> set (ht_entries (get_ht 1 d)). \<not> dictCompareKeys ty k (de_key e)
         | Some j \<Rightarrow> j < length (ht_table (get_ht 1 d) ! slot ty n1 k) \<and>
             dictCompareKeys ty k (de_key (ht_table (get_ht 1 d) ! slot ty n1 k ! j))"
        by blast
      have "case r1 of None \<Rightarrow> dict_map ty d k = None | Some j \<Rightarrow> ref_to ty d k (1, unat i1, j)"
        using no0 r1 s1 unfolding dict_map_None
        by (auto simp: dict_entries_def get_ht_def intro: ref_toI split: option.splits)
      with True None s0 s1 show ?thesis
        by (intro that [OF _ l1, of i1 r1]) (auto simp: tables_search_def split: option.splits)
    qed
  qed
qed

lemma dict_map_same: "dict_ok ty d \<Longrightarrow> same_dict ty d d' \<Longrightarrow> dict_map ty d' = dict_map ty d"
  by (rule dict_map_mset) (auto simp: same_dict_def dict_ok_def)

lemma dictFind_ok:
  assumes ok: "dict_ok ty d"
  obtains d' r where "dictFind ty d k = Some (d', r)" "same_dict ty d d'"
    "case r of None \<Rightarrow> dict_map ty d k = None | Some ref \<Rightarrow> ref_to ty d' k ref"
proof (cases "dict_entries d = []")
  case True
  then have "dictFind ty d k = Some (d, None)" using used_zero [OF ok] by (simp add: dictFind_def)
  with True ok show ?thesis by (intro that [of d None]) (auto simp: same_dict_def dict_map_None)
next
  case False
  obtain d1 where st: "(if dictIsRehashing d then dictRehashStep ty d else Some d) = Some d1"
    and same: "same_dict ty d d1" using rehash_if_needed [OF ok] .
  have ok1: "dict_ok ty d1" and ne: "dict_entries d1 \<noteq> []"
    using same same_dict_entries [OF same] False by (auto simp: same_dict_def)
  from tables_search_ok [OF ok1, of k] ne obtain t idx r where
    "tables_search ty k (ucast (dictHashKey ty k)) d1 = Some (t, idx, r)"
    "case r of None \<Rightarrow> dict_map ty d1 k = None \<and> (dictIsRehashing d1 \<longrightarrow> t = 1)
     | Some j \<Rightarrow> ref_to ty d1 k (t, unat idx, j)" by metis
  then show ?thesis
    using False used_zero [OF ok] st same dict_map_same [OF ok same]
    by (intro that [of d1 "map_option (\<lambda>j. (t, unat idx, j)) r"])
      (auto simp: dictFind_def split: option.splits)
qed


end

section \<open>Replacing one chain\<close>

definition put_chain :: "nat \<Rightarrow> nat \<Rightarrow> ('k, 'v) chain \<Rightarrow> u64 \<Rightarrow> ('k, 'v) dict \<Rightarrow> ('k, 'v) dict" where
  "put_chain t i ch u d =
     put_ht t (get_ht t d\<lparr>ht_table := (ht_table (get_ht t d))[i := ch], ht_used := u\<rparr>) d"

lemma put_chain_mset:
  assumes "t \<le> 1" "i < length (ht_table (get_ht t d))"
  shows "mset (dict_entries (put_chain t i ch u d)) + mset (ht_table (get_ht t d) ! i) =
    mset (dict_entries d) + mset ch"
  using assms mset_concat_update [OF assms(2), of ch]
  by (auto simp: put_chain_def put_ht_def get_ht_def dict_entries_def ht_entries_def ac_simps
      split: if_splits)

lemma put_chain_frame [simp]:
  "iterators (put_chain t i ch u d) = iterators d" "rehashidx (put_chain t i ch u d) = rehashidx d"
  "dictIsRehashing (put_chain t i ch u d) = dictIsRehashing d"
  by (simp_all add: put_chain_def put_ht_def dictIsRehashing_def)

lemma put_chain_ok:
  assumes ok: "dict_ok ty d" and t: "t = 0 \<or> t = 1 \<and> dictIsRehashing d"
    and live: "ht_live ty n (get_ht t d)" and i: "i < length (ht_table (get_ht t d))"
    and ch: "\<forall>e \<in> set ch. slot ty n (de_key e) = i"
    and old: "t = 0 \<and> dictIsRehashing d \<longrightarrow> ht_table (get_ht t d) ! i \<noteq> []"
    and u: "unat u + length (ht_table (get_ht t d) ! i) = unat (ht_used (get_ht t d)) + length ch"
    and dk: "distinct_keys ty (dict_entries (put_chain t i ch u d))"
    and len: "length (dict_entries (put_chain t i ch u d)) < 2 ^ 64"
  shows "dict_ok ty (put_chain t i ch u d)"
proof -
  let ?h = "get_ht t d"
  let ?h' = "?h\<lparr>ht_table := (ht_table ?h)[i := ch], ht_used := u\<rparr>"
  have used: "used_ok ?h" using ok t by (auto simp: dict_ok_def get_ht_def)
  have "length (concat ((ht_table ?h)[i := ch])) + length (ht_table ?h ! i) = length (concat (ht_table ?h)) + length ch"
    using mset_concat_update [OF i, of ch] by (metis size_mset size_union)
  then have u': "used_ok ?h'" using used u by (simp add: used_ok_def ht_entries_def)
  have l': "ht_live ty n ?h'" using live ch tab_ok_update by (auto simp: ht_live_def)
  have nz: "ht_table ?h \<noteq> []" using i by auto
  show ?thesis
  proof (cases "t = 0")
    case True
    have "(ht_table (ht0 d))[i := ch] ! k = []" if "rehash_ok ty d" "k < nat (rehashidx d)" for k
    proof (cases "k = i")
      case False
      with that show ?thesis by (simp add: rehash_ok_def)
    next
      case eq: True
      have "dictIsRehashing d" using that by (auto simp: rehash_ok_def dictIsRehashing_def)
      with old True that eq show ?thesis by (auto simp: rehash_ok_def get_ht_def)
    qed
    then show ?thesis
      using ok True l' u' dk len
      by (auto simp: dict_ok_def put_chain_def put_ht_def get_ht_def rehash_ok_def)
  next
    case False
    then have "t = 1" "dictIsRehashing d" using t by auto
    then show ?thesis
      using ok l' u' dk len
      by (auto simp: dict_ok_def put_chain_def put_ht_def get_ht_def rehash_ok_def dictIsRehashing_def)
  qed
qed

lemma dictGetEntry_cases:
  assumes "dictGetEntry d (t, i, j) = Some e"
  shows "i < length (ht_table (get_ht t d))" "j < length (ht_table (get_ht t d) ! i)"
    "e = ht_table (get_ht t d) ! i ! j"
  using assms by (auto simp: dictGetEntry_def bucket_def split: if_splits)

lemma chain_entry_mem: "i < length tab \<Longrightarrow> j < length (tab ! i) \<Longrightarrow> tab ! i ! j \<in> set (concat tab)"
  by (metis concat_map_singleton in_set_conv_nth nth_mem set_concat UN_I map_ident)

lemma dictGetEntry_mem:
  assumes "dictGetEntry d ref = Some e" "fst ref \<le> 1"
  shows "e \<in> set (dict_entries d)"
proof -
  obtain t i j where ref: "ref = (t, i, j)" by (cases ref) auto
  note g = dictGetEntry_cases [OF assms(1) [unfolded ref]]
  have "e \<in> set (ht_entries (get_ht t d))"
    using chain_entry_mem [OF g(1,2)] g(3) by (simp add: ht_entries_def)
  then show ?thesis using dict_entries_get_ht [of t d] assms(2) ref by auto
qed

lemma get_ht_live:
  assumes "dict_ok ty d" "t \<le> 1" "ht_table (get_ht t d) \<noteq> []"
  obtains n where "ht_live ty n (get_ht t d)" "t = 0 \<or> t = 1 \<and> dictIsRehashing d"
  using assms
  by (auto simp: dict_ok_def get_ht_def dictIsRehashing_def dictReset_def rehash_ok_def split: if_splits)

definition dup_val :: "('k, 'v) dictType \<Rightarrow> 'v \<Rightarrow> 'v" where
  "dup_val ty val = (case valDup ty of Some dup \<Rightarrow> dup val | None \<Rightarrow> val)"

context dict_type
begin

lemma distinct_keys_Cons_mset:
  assumes "add_mset e (mset es) = mset es'"
  shows "distinct_keys ty es' \<longleftrightarrow>
    distinct_keys ty es \<and> (\<forall>e' \<in> set es. \<not> dictCompareKeys ty (de_key e) (de_key e'))"
proof -
  have "mset (e # es) = mset es'" using assms by simp
  then have "distinct_keys ty es' \<longleftrightarrow> distinct_keys ty (e # es)"
    using distinct_keys_mset by metis
  then show ?thesis by (auto simp: distinct_keys_def)
qed

lemma dictSetVal_ok:
  assumes ok: "dict_ok ty d" and t: "fst ref \<le> 1" and e: "dictGetEntry d ref = Some e"
  obtains d' where "dictSetVal ty d ref v = Some d'" "dict_ok ty d'" "iterators d' = iterators d"
    "add_mset e (mset (dict_entries d')) = add_mset (e\<lparr>de_val := Some (dup_val ty v)\<rparr>) (mset (dict_entries d))"
proof -
  obtain t i j where ref: "ref = (t, i, j)" by (cases ref) auto
  let ?h = "get_ht t d"
  let ?ch = "ht_table ?h ! i" and ?e' = "e\<lparr>de_val := Some (dup_val ty v)\<rparr>"
  note g = dictGetEntry_cases [OF e [unfolded ref]]
  obtain n where live: "ht_live ty n ?h" and t': "t = 0 \<or> t = 1 \<and> dictIsRehashing d"
    by (rule get_ht_live [OF ok, of t]) (use t ref g(1) in auto)
  let ?d' = "put_chain t i (?ch[j := ?e']) (ht_used ?h) d"
  have set: "dictSetVal ty d ref v = Some ?d'"
    using g by (simp add: dictSetVal_def ref bucket_Some put_chain_def dup_val_def)
  have swap: "add_mset e (mset (?ch[j := ?e'])) = add_mset ?e' (mset ?ch)"
    using g(2,3) by (simp add: mset_update)
  have put: "mset (dict_entries ?d') + mset ?ch = mset (dict_entries d) + mset (?ch[j := ?e'])"
    using t ref g(1) by (intro put_chain_mset) auto
  have ms: "add_mset e (mset (dict_entries ?d')) = add_mset ?e' (mset (dict_entries d))"
    by (rule mset_exchange [OF put swap])
  have mem: "e \<in># mset (dict_entries d)"
    using dictGetEntry_mem [OF e] t by simp
  obtain es where es: "mset (dict_entries d) = add_mset e (mset es)"
    using mem by (metis ex_mset insert_DiffM)
  then have es': "mset (dict_entries ?d') = add_mset ?e' (mset es)" using ms by simp
  have "distinct_keys ty (dict_entries d)" "length (dict_entries d) < 2 ^ 64"
    using ok by (auto simp: dict_ok_def)
  then have "distinct_keys ty (dict_entries ?d')"
    using distinct_keys_Cons_mset [OF es [symmetric]] distinct_keys_Cons_mset [OF es' [symmetric]] by simp
  moreover have "length (dict_entries ?d') = length (dict_entries d)"
    using es es' by (metis size_add_mset size_mset)
  moreover have "\<forall>e \<in> set (?ch[j := ?e']). slot ty n (de_key e) = i"
  proof -
    have old: "\<forall>e \<in> set ?ch. slot ty n (de_key e) = i"
      using live g(1) by (auto simp: ht_live_def tab_ok_def)
    have "e \<in> set ?ch" using g(2,3) by simp
    with old have "slot ty n (de_key ?e') = i" by simp
    with old show ?thesis
      using set_update_subset_insert [of ?ch j ?e'] by blast
  qed
  ultimately have "dict_ok ty ?d'"
    using ok live t' g \<open>length (dict_entries d) < 2 ^ 64\<close> by (intro put_chain_ok) auto
  with set ms show ?thesis by (intro that [of ?d']) auto
qed


end

section \<open>Table sizes\<close>

lemma dictNextPower_loop_ok:
  assumes "2 \<le> k" "k \<le> 31" "unat sz \<le> 2 ^ 31" "k = 2 \<or> 2 ^ (k - 1) < unat sz"
  obtains n where "dictNextPower_loop (2 ^ k) sz = Some (2 ^ n)" "n \<in> {2..31}" "unat sz \<le> 2 ^ n"
    "n = 2 \<or> 2 ^ (n - 1) < unat sz"
  using assms
proof (induction "31 - k" arbitrary: k thesis)
  case 0
  then have k: "k = 31" by simp
  have "dictNextPower_loop (2 ^ k) sz = Some (2 ^ k)"
    using 0 unat_pow [of k] by (subst dictNextPower_loop.simps) (simp add: k word_le_nat_alt)
  with 0 k show ?case by (intro "0.prems"(1) [of k]) auto
next
  case (Suc x)
  have u: "unat (2 ^ k :: u64) = 2 ^ k" using Suc.prems by (intro unat_pow) auto
  show ?case
  proof (cases "unat sz \<le> 2 ^ k")
    case True
    then have "dictNextPower_loop (2 ^ k) sz = Some (2 ^ k)"
      using u by (subst dictNextPower_loop.simps) (simp add: word_le_nat_alt)
    with True Suc.prems show ?thesis by auto
  next
    case False
    then have step: "dictNextPower_loop (2 ^ k) sz = dictNextPower_loop (2 ^ Suc k) sz"
      using u by (subst dictNextPower_loop.simps) (simp add: word_le_nat_alt mult.commute)
    show ?thesis
    proof (rule Suc.hyps(1) [of "Suc k"])
      fix n assume "dictNextPower_loop (2 ^ Suc k) sz = Some (2 ^ n)" "n \<in> {2..31}" "unat sz \<le> 2 ^ n"
        "n = 2 \<or> 2 ^ (n - 1) < unat sz"
      then show thesis using Suc.prems(1) step by simp
    qed (use Suc.prems Suc.hyps(2) False in auto)
  qed
qed

lemma dictNextPower_ok:
  assumes "unat sz \<le> 2 ^ 31"
  obtains n where "dictNextPower sz = Some (2 ^ n)" "n \<in> {2..31}" "unat sz \<le> 2 ^ n"
    "n = 2 \<or> 2 ^ (n - 1) < unat sz"
proof -
  have "\<not> sz \<ge> LONG_MAX" using assms by (simp add: word_le_nat_alt)
  then have "dictNextPower sz = dictNextPower_loop (2 ^ 2) sz" by (simp add: dictNextPower_def)
  with dictNextPower_loop_ok [of 2 sz] assms that show ?thesis by auto
qed

lemma new_table_ok:
  assumes "n \<in> {2..31}"
  shows "ht_live ty n \<lparr>ht_table = replicate (unat (2 ^ n * 8 :: u64) div 8) [], ht_size = 2 ^ n,
    ht_sizemask = 2 ^ n - 1, ht_used = 0\<rparr>"
proof -
  have "(2 :: nat) ^ n \<le> 2 ^ 31" using assms by (intro power_increasing) auto
  then have "2 ^ n * 8 < (2 :: nat) ^ 64" by simp
  then have "unat (2 ^ n * 8 :: u64) = 2 ^ n * 8"
    using unat_pow [OF assms] by (subst unat_mult_lem [THEN iffD1]) auto
  then show ?thesis
    using assms by (auto simp: ht_live_def tab_ok_def mask_eq_exp_minus_1)
qed

lemma dictExpand_ok:
  assumes ok: "dict_ok ty d" and nr: "\<not> dictIsRehashing d" and sz: "unat sz \<le> 2 ^ 31"
  obtains d' st where "dictExpand d sz = Some (d', st)" "dict_ok ty d'" "dict_entries d' = dict_entries d"
    "iterators d' = iterators d" "st = DICT_ERR \<longrightarrow> d' = d"
    "st = DICT_OK \<longleftrightarrow> ht_used (ht0 d) \<le> sz \<and> dictNextPower sz \<noteq> Some (ht_size (ht0 d))"
    "st = DICT_OK \<longrightarrow> ht0 d' \<noteq> dictReset"
proof -
  obtain n where n: "dictNextPower sz = Some (2 ^ n)" "n \<in> {2..31}" "unat sz \<le> 2 ^ n"
    using dictNextPower_ok [OF sz] by metis
  let ?n = "\<lparr>ht_table = replicate (unat (2 ^ n * 8 :: u64) div 8) [], ht_size = 2 ^ n,
    ht_sizemask = 2 ^ n - 1, ht_used = 0\<rparr> :: ('a, 'b) dictht"
  have live: "ht_live ty n ?n" using new_table_ok [OF n(2)] .
  have e: "ht_entries ?n = []" "used_ok ?n" by (simp_all add: ht_entries_def used_ok_def)
  have nn: "?n \<noteq> dictReset" using live by (rule ht_live_not_reset)
  show ?thesis
  proof (cases "ht_used (ht0 d) > sz \<or> 2 ^ n = ht_size (ht0 d)")
    case True
    then have "dictExpand d sz = Some (d, DICT_ERR)" using n nr by (auto simp: dictExpand_def)
    with True ok n show ?thesis by (intro that [of d DICT_ERR]) auto
  next
    case False
    then have ex: "dictExpand d sz = (if ht_table (ht0 d) = [] then Some (d\<lparr>ht0 := ?n\<rparr>, DICT_OK)
        else Some (d\<lparr>ht1 := ?n, rehashidx := 0\<rparr>, DICT_OK))"
      using n nr by (simp add: dictExpand_def Let_def)
    show ?thesis
    proof (cases "ht_table (ht0 d) = []")
      case True
      have "dict_ok ty (d\<lparr>ht0 := ?n\<rparr>)" "dict_entries (d\<lparr>ht0 := ?n\<rparr>) = dict_entries d"
        using ok nr True e live by (auto simp: dict_ok_def dictIsRehashing_def dict_entries_def ht_entries_def distinct_keys_def)
      with True False ex n nn show ?thesis by (intro that [of "d\<lparr>ht0 := ?n\<rparr>" DICT_OK]) auto
    next
      case nz: False
      then have "ht0 d \<noteq> dictReset" by (auto simp: dictReset_def)
      moreover from this obtain m where "ht_live ty m (ht0 d)"
        using ok nr by (auto simp: dict_ok_def dictIsRehashing_def)
      moreover have "dict_entries (d\<lparr>ht1 := ?n, rehashidx := 0\<rparr>) = dict_entries d"
        using ht1_empty [OF ok nr] e by (simp add: dict_entries_def)
      ultimately have "dict_ok ty (d\<lparr>ht1 := ?n, rehashidx := 0\<rparr>)"
        using ok e live by (auto simp: dict_ok_def rehash_ok_def)
      with nz False ex n \<open>ht0 d \<noteq> dictReset\<close> \<open>dict_entries (d\<lparr>ht1 := ?n, rehashidx := 0\<rparr>) = dict_entries d\<close>
      show ?thesis by (intro that [of "d\<lparr>ht1 := ?n, rehashidx := 0\<rparr>" DICT_OK]) auto
    qed
  qed
qed


section \<open>Insertion and deletion\<close>

definition dict_room :: "('k, 'v) dict \<Rightarrow> bool" where
  "dict_room d \<longleftrightarrow> length (dict_entries d) \<le> 2 ^ 30"

definition new_entry :: "('k, 'v) dictType \<Rightarrow> 'k \<Rightarrow> ('k, 'v) dictEntry" where
  "new_entry ty key = \<lparr>de_key = (case keyDup ty of Some dup \<Rightarrow> dup key | None \<Rightarrow> key), de_val = None\<rparr>"

lemma dictExpandIfNeeded_ok:
  assumes ok: "dict_ok ty d" and room: "dict_room d"
  obtains d' where "dictExpandIfNeeded cr d = Some (d', DICT_OK)" "same_dict ty d d'" "ht0 d' \<noteq> dictReset"
proof -
  note goal = that
  have used: "unat (ht_used (ht0 d)) \<le> 2 ^ 30"
    using ok room by (simp add: dict_ok_def used_ok_def dict_room_def dict_entries_def)
  show ?thesis
  proof (cases "dictIsRehashing d")
    case True
    then obtain n where "ht_live ty n (ht0 d)" using live_ht0 [OF ok] by blast
    then have "ht0 d \<noteq> dictReset" by (rule ht_live_not_reset)
    with True ok show ?thesis by (intro that [of d]) (auto simp: dictExpandIfNeeded_def same_dict_def)
  next
    case nr: False
    have grow: thesis if eq: "dictExpandIfNeeded cr d = dictExpand d sz" and sz: "unat sz \<le> 2 ^ 31"
      and us: "ht_used (ht0 d) \<le> sz" "unat (ht_size (ht0 d)) < unat sz" for sz
    proof -
      obtain n where "dictNextPower sz = Some (2 ^ n)" "n \<in> {2..31}" "unat sz \<le> 2 ^ n"
        using dictNextPower_ok [OF sz] by metis
      then have "dictNextPower sz \<noteq> Some (ht_size (ht0 d))" using us(2) unat_pow [of n] by auto
      then show ?thesis
        using dictExpand_ok [OF ok nr sz] eq us(1) goal by (metis same_dict_def)
    qed
    show ?thesis
    proof (cases "ht0 d = dictReset")
      case True
      then show ?thesis by (intro grow [of 4]) (auto simp: dictExpandIfNeeded_def nr dictReset_def)
    next
      case False
      then obtain n where live: "ht_live ty n (ht0 d)" using live_ht0 [OF ok] by blast
      then have "unat (ht_size (ht0 d)) \<noteq> 0"
        by (auto simp: ht_live_def unat_pow)
      then have nz: "ht_size (ht0 d) \<noteq> 0" by auto
      show ?thesis
      proof (cases "ht_used (ht0 d) \<ge> ht_size (ht0 d) \<and>
          (cr \<or> ht_used (ht0 d) div ht_size (ht0 d) > dict_force_resize_ratio)")
        case True
        have dbl: "unat (ht_used (ht0 d) * 2) = unat (ht_used (ht0 d)) * 2"
          using used by (simp add: unat_word_ariths)
        with True nr nz used \<open>unat (ht_size (ht0 d)) \<noteq> 0\<close> show ?thesis
          by (intro grow [of "ht_used (ht0 d) * 2"])
            (auto simp: dictExpandIfNeeded_def word_le_nat_alt)
      next
        case False
        with nr nz \<open>ht0 d \<noteq> dictReset\<close> ok show ?thesis
          by (intro that [of d]) (auto simp: dictExpandIfNeeded_def same_dict_def)
      qed
    qed
  qed
qed

context dict_type
begin

lemma dict_map_present:
  assumes "dict_map ty d k \<noteq> None"
  obtains e where "e \<in> set (dict_entries d)" "dictCompareKeys ty k (de_key e)"
  using assms dict_map_None [of d k] by auto

lemma ref_to_present: "ref_to ty d k ref \<Longrightarrow> dict_map ty d k \<noteq> None"
  using dict_map_None [of d k] by (auto simp: ref_to_def)

lemma new_entry_key: "dictCompareKeys ty k (de_key (new_entry ty k))"
  using cmp_refl dup_key by (auto simp: new_entry_def split: option.splits)

lemma dictKeyIndex_ok:
  assumes ok: "dict_ok ty d" and room: "dict_room d"
  obtains (present) d' ref where "dictKeyIndex cr ty d k (ucast (dictHashKey ty k)) = Some (d', -1, Some ref)"
      "same_dict ty d d'" "ref_to ty d' k ref"
  | (absent) d' t n where "dictKeyIndex cr ty d k (ucast (dictHashKey ty k)) = Some (d', int (slot ty n k), None)"
      "same_dict ty d d'" "dict_map ty d k = None" "t = (if dictIsRehashing d' then 1 else 0)"
      "ht_live ty n (get_ht t d')"
proof -
  obtain d1 where ex: "dictExpandIfNeeded cr d = Some (d1, DICT_OK)" and same: "same_dict ty d d1"
    and nr: "ht0 d1 \<noteq> dictReset" using dictExpandIfNeeded_ok [OF ok room] .
  have ok1: "dict_ok ty d1" using same by (simp add: same_dict_def)
  obtain t idx r n where ts: "tables_search ty k (ucast (dictHashKey ty k)) d1 = Some (t, idx, r)"
    "ht_live ty n (get_ht t d1)" "unat idx = slot ty n k" "sint idx = int (slot ty n k)"
    "t = 0 \<or> t = 1 \<and> dictIsRehashing d1"
    and r: "case r of None \<Rightarrow> dict_map ty d1 k = None \<and> (dictIsRehashing d1 \<longrightarrow> t = 1)
     | Some j \<Rightarrow> ref_to ty d1 k (t, unat idx, j)"
    using tables_search_ok [OF ok1, of k] nr by blast
  show ?thesis
  proof (cases r)
    case (Some j)
    with ts ex r same show ?thesis
      by (intro present [of d1 "(t, unat idx, j)"]) (auto simp: dictKeyIndex_def)
  next
    case None
    with ts ex r same dict_map_same [OF ok same] show ?thesis
      by (intro absent [of d1 n t]) (auto simp: dictKeyIndex_def)
  qed
qed

lemma dictAddRaw_ok:
  assumes ok: "dict_ok ty d" and room: "dict_room d"
  obtains (present) d' ref where "dictAddRaw cr ty d k = Some (d', None, Some ref)" "same_dict ty d d'"
      "ref_to ty d' k ref" "dict_map ty d k \<noteq> None"
  | (absent) d' ref where "dictAddRaw cr ty d k = Some (d', Some ref, None)" "dict_map ty d k = None"
      "dict_ok ty d'" "iterators d' = iterators d" "fst ref \<le> 1" "dictGetEntry d' ref = Some (new_entry ty k)"
      "mset (dict_entries d') = add_mset (new_entry ty k) (mset (dict_entries d))"
proof -
  obtain d1 where st: "(if dictIsRehashing d then dictRehashStep ty d else Some d) = Some d1"
    and same: "same_dict ty d d1" using rehash_if_needed [OF ok] .
  have ok1: "dict_ok ty d1" using same by (simp add: same_dict_def)
  have "length (dict_entries d1) = length (dict_entries d)"
    using same unfolding same_dict_def by (metis size_mset)
  then have room1: "dict_room d1" using room by (simp add: dict_room_def)
  show ?thesis
  proof (cases rule: dictKeyIndex_ok [OF ok1 room1, of cr k])
    case (1 d2 ref)
    have same2: "same_dict ty d d2" using same_dict_trans [OF same 1(2)] .
    have "dict_map ty d k \<noteq> None"
      using ref_to_present [OF 1(3)] dict_map_same [OF ok same2] by simp
    with 1 st same2 show ?thesis by (intro present [of d2 ref]) (auto simp: dictAddRaw_def)
  next
    case (2 d2 t n)
    let ?i = "slot ty n k" and ?h = "get_ht t d2" and ?e = "new_entry ty k"
    let ?ch = "ht_table ?h ! ?i"
    let ?d' = "put_chain t ?i (?e # ?ch) (ht_used ?h + 1) d2"
    have same2: "same_dict ty d d2" using same_dict_trans [OF same 2(2)] .
    have ok2: "dict_ok ty d2" using same2 by (simp add: same_dict_def)
    have lt: "?i < length (ht_table ?h)" using 2(5) by (auto simp: ht_live_def intro: slot_less)
    have t1: "t \<le> 1" using 2(4) by simp
    have len: "length (dict_entries d2) \<le> 2 ^ 30"
      using room same2 unfolding same_dict_def dict_room_def by (metis size_mset)
    have ms: "mset (dict_entries ?d') = add_mset ?e (mset (dict_entries d2))"
      using put_chain_mset [OF t1 lt, of "?e # ?ch" "ht_used ?h + 1"] by simp
    have none: "dict_map ty d k = None" "dict_map ty d2 k = None"
      using 2(3) dict_map_same [OF ok same] dict_map_same [OF ok1 2(2)] by auto
    have "\<forall>e' \<in> set (dict_entries d2). \<not> dictCompareKeys ty (de_key ?e) (de_key e')"
      using none(2) new_entry_key cmp_trans unfolding dict_map_None by blast
    then have dk: "distinct_keys ty (dict_entries ?d')"
      using distinct_keys_Cons_mset [OF ms [symmetric]] ok2 by (simp add: dict_ok_def)
    have len': "length (dict_entries ?d') < 2 ^ 64"
    proof -
      have "length (dict_entries ?d') = Suc (length (dict_entries d2))"
        using ms by (metis size_add_mset size_mset)
      with len show ?thesis by simp
    qed
    have "length (ht_entries ?h) \<le> 2 ^ 30"
      using len by (auto simp: get_ht_def dict_entries_def)
    then have "unat (ht_used ?h) \<le> 2 ^ 30"
      using ok2 by (auto simp: dict_ok_def used_ok_def get_ht_def)
    then have u: "unat (ht_used ?h + 1) = Suc (unat (ht_used ?h))" by (intro unat_add_1) simp
    have "slot ty n (de_key ?e) = ?i"
      using cmp_hash [OF new_entry_key [of k]] by (simp add: slot_def)
    moreover have "\<forall>e \<in> set ?ch. slot ty n (de_key e) = ?i"
      using 2(5) lt by (auto simp: ht_live_def tab_ok_def)
    ultimately have "dict_ok ty ?d'"
      using 2(4,5) ok2 lt dk len' u by (intro put_chain_ok) auto
    moreover have "dictGetEntry ?d' (t, ?i, 0) = Some ?e"
      using lt by (auto simp: dictGetEntry_def bucket_def put_chain_def put_ht_def get_ht_def)
    moreover have "dictAddRaw cr ty d k = Some (?d', Some (t, ?i, 0), None)"
      using 2 st lt by (auto simp: dictAddRaw_def Let_def bucket_Some put_chain_def new_entry_def)
    ultimately show ?thesis
      using none(1) t1 ms same2 by (intro absent [of ?d' "(t, ?i, 0)"]) (auto simp: same_dict_def)
  qed
qed

text \<open>The abstract effect of an update at one key.\<close>

lemma dict_map_other:
  assumes "distinct_keys ty (dict_entries d)" "distinct_keys ty (dict_entries d')"
    and "\<And>e. \<not> dictCompareKeys ty k0 (de_key e) \<Longrightarrow> e \<in> set (dict_entries d') \<longleftrightarrow> e \<in> set (dict_entries d)"
    and "\<not> dictCompareKeys ty k k0"
  shows "dict_map ty d' k = dict_map ty d k"
proof -
  have "\<not> dictCompareKeys ty k0 (de_key e)" if "dictCompareKeys ty k (de_key e)" for e
    using that assms(4) cmp_sym cmp_trans by blast
  then have "dict_map ty d' k = Some v \<longleftrightarrow> dict_map ty d k = Some v" for v
    unfolding dict_map_Some [OF assms(1)] dict_map_Some [OF assms(2)] using assms(3) by blast
  then show ?thesis by (metis option.exhaust)
qed

lemma dict_map_put:
  assumes "distinct_keys ty (dict_entries d)" "distinct_keys ty (dict_entries d')"
    and "e \<in> set (dict_entries d')" "dictCompareKeys ty k0 (de_key e)"
    and "\<And>e. \<not> dictCompareKeys ty k0 (de_key e) \<Longrightarrow> e \<in> set (dict_entries d') \<longleftrightarrow> e \<in> set (dict_entries d)"
  shows "dict_map ty d' = (\<lambda>k. if dictCompareKeys ty k k0 then Some (de_val e) else dict_map ty d k)"
proof
  fix k
  show "dict_map ty d' k = (if dictCompareKeys ty k k0 then Some (de_val e) else dict_map ty d k)"
  proof (cases "dictCompareKeys ty k k0")
    case True
    then have "dictCompareKeys ty k (de_key e)" using assms(4) cmp_trans by blast
    then have "dict_map ty d' k = Some (de_val e)" unfolding dict_map_Some [OF assms(2)] using assms(3) by blast
    with True show ?thesis by simp
  qed (use dict_map_other [OF assms(1,2,5)] in auto)
qed

lemma dict_map_del:
  assumes "distinct_keys ty (dict_entries d)" "distinct_keys ty (dict_entries d')"
    and "\<And>e. e \<in> set (dict_entries d') \<longleftrightarrow> e \<in> set (dict_entries d) \<and> \<not> dictCompareKeys ty k0 (de_key e)"
  shows "dict_map ty d' = (\<lambda>k. if dictCompareKeys ty k k0 then None else dict_map ty d k)"
proof
  fix k
  show "dict_map ty d' k = (if dictCompareKeys ty k k0 then None else dict_map ty d k)"
  proof (cases "dictCompareKeys ty k k0")
    case True
    then have "dict_map ty d' k = None" unfolding dict_map_None using assms(3) cmp_sym cmp_trans by blast
    with True show ?thesis by simp
  qed (use dict_map_other [OF assms(1,2)] assms(3) in auto)
qed

lemma dict_map_cong:
  assumes "dictCompareKeys ty k k'"
  shows "dict_map ty d k = dict_map ty d k'"
proof -
  have "dictCompareKeys ty k x \<longleftrightarrow> dictCompareKeys ty k' x" for x
    using assms cmp_sym cmp_trans by blast
  then show ?thesis by (simp add: dict_map_def)
qed

lemma dict_ok_keys: "dict_ok ty d \<Longrightarrow> distinct_keys ty (dict_entries d)"
  by (simp add: dict_ok_def)

lemma set_add_mset: "mset xs = add_mset e (mset ys) \<Longrightarrow> set xs = insert e (set ys)"
  by (metis set_mset_add_mset_insert set_mset_mset)

lemma dictAddRaw_set_ok:
  assumes ok: "dict_ok ty d" and room: "dict_room d" and none: "dict_map ty d k = None"
  obtains d1 ref d' where "dictAddRaw cr ty d k = Some (d1, Some ref, None)" "dictSetVal ty d1 ref v = Some d'"
    "dict_ok ty d'" "iterators d' = iterators d"
    "dict_map ty d' = (\<lambda>k'. if dictCompareKeys ty k' k then Some (Some (dup_val ty v)) else dict_map ty d k')"
    "length (dict_entries d') = Suc (length (dict_entries d))"
proof (cases rule: dictAddRaw_ok [OF ok room, of cr k])
  case (1 d' ref)
  with none show ?thesis by simp
next
  case (2 d1 ref)
  let ?e = "new_entry ty k"
  let ?e' = "?e\<lparr>de_val := Some (dup_val ty v)\<rparr>"
  obtain d' where set: "dictSetVal ty d1 ref v = Some d'" "dict_ok ty d'" "iterators d' = iterators d1"
    "add_mset ?e (mset (dict_entries d')) = add_mset ?e' (mset (dict_entries d1))"
    using dictSetVal_ok [OF 2(3,5,6)] .
  then have ms: "mset (dict_entries d') = add_mset ?e' (mset (dict_entries d))" using 2(7) by simp
  have "length (dict_entries d') = Suc (length (dict_entries d))"
    using ms by (metis size_add_mset size_mset)
  moreover have "dictCompareKeys ty k (de_key ?e')" using new_entry_key by simp
  then have "dict_map ty d' = (\<lambda>k'. if dictCompareKeys ty k' k then Some (de_val ?e') else dict_map ty d k')"
    using set_add_mset [OF ms] by (intro dict_map_put dict_ok_keys ok set) auto
  ultimately show ?thesis using 2 set by (intro that [of d1 ref d']) auto
qed

lemma dictAddRaw_existing_ok:
  assumes ok: "dict_ok ty d" and room: "dict_room d" and some: "dict_map ty d k \<noteq> None"
  obtains d1 ref where "dictAddRaw cr ty d k = Some (d1, None, Some ref)" "same_dict ty d d1" "ref_to ty d1 k ref"
  using some by (cases rule: dictAddRaw_ok [OF ok room, of cr k]) auto

lemma dictAdd_ok:
  assumes ok: "dict_ok ty d" and room: "dict_room d"
  shows "\<exists>d'. dictAdd cr ty d k v = Some (d', if dict_map ty d k = None then DICT_OK else DICT_ERR) \<and>
    dict_ok ty d' \<and> iterators d' = iterators d \<and>
    dict_map ty d' = (if dict_map ty d k = None
      then (\<lambda>k'. if dictCompareKeys ty k' k then Some (Some (dup_val ty v)) else dict_map ty d k')
      else dict_map ty d) \<and>
    length (dict_entries d') = (if dict_map ty d k = None then Suc (length (dict_entries d)) else length (dict_entries d))"
proof (cases "dict_map ty d k")
  case None
  from dictAddRaw_set_ok [OF ok room None, of cr v] obtain d1 ref d' where
    "dictAddRaw cr ty d k = Some (d1, Some ref, None)" "dictSetVal ty d1 ref v = Some d'"
    "dict_ok ty d'" "iterators d' = iterators d"
    "dict_map ty d' = (\<lambda>k'. if dictCompareKeys ty k' k then Some (Some (dup_val ty v)) else dict_map ty d k')"
    "length (dict_entries d') = Suc (length (dict_entries d))" .
  with None show ?thesis by (intro exI [of _ d']) (auto simp: dictAdd_def)
next
  case (Some w)
  then obtain d1 ref where "dictAddRaw cr ty d k = Some (d1, None, Some ref)" "same_dict ty d d1"
    using dictAddRaw_existing_ok [OF ok room] by (metis option.distinct(1))
  with Some dict_map_same [OF ok, of d1] same_dict_length [of ty d d1] show ?thesis
    by (intro exI [of _ d1]) (auto simp: dictAdd_def same_dict_def)
qed

lemma dictSetVal_ref:
  assumes ok: "dict_ok ty d" and ref: "ref_to ty d k ref"
  obtains d' where "dictSetVal ty d ref v = Some d'" "dict_ok ty d'" "iterators d' = iterators d"
    "dict_map ty d' = (\<lambda>k'. if dictCompareKeys ty k' k then Some (Some (dup_val ty v)) else dict_map ty d k')"
    "length (dict_entries d') = length (dict_entries d)"
proof -
  obtain e where e: "fst ref \<le> 1" "dictGetEntry d ref = Some e" "dictCompareKeys ty k (de_key e)"
    "e \<in> set (dict_entries d)" using ref by (auto simp: ref_to_def)
  let ?e' = "e\<lparr>de_val := Some (dup_val ty v)\<rparr>"
  obtain d' where d': "dictSetVal ty d ref v = Some d'" "dict_ok ty d'" "iterators d' = iterators d"
    and ms: "add_mset e (mset (dict_entries d')) = add_mset ?e' (mset (dict_entries d))"
    using dictSetVal_ok [OF ok e(1,2)] .
  have len: "length (dict_entries d') = length (dict_entries d)"
    using arg_cong [OF ms, of size] by simp
  have set: "insert e (set (dict_entries d')) = insert ?e' (set (dict_entries d))"
    using ms by (metis set_mset_add_mset_insert set_mset_mset)
  obtain es where "mset (dict_entries d) = add_mset e (mset es)"
    using e(4) by (metis ex_mset insert_DiffM set_mset_mset)
  then have "mset (dict_entries d') = add_mset ?e' (mset es)" using ms by simp
  then have mem: "?e' \<in> set (dict_entries d')" by (metis set_add_mset insertI1)
  have "dict_map ty d' = (\<lambda>k'. if dictCompareKeys ty k' k then Some (de_val ?e') else dict_map ty d k')"
  proof (intro dict_map_put dict_ok_keys ok d' mem)
    fix e2 :: "('k, 'v) dictEntry" assume "\<not> dictCompareKeys ty k (de_key e2)"
    then have "e2 \<noteq> e" "e2 \<noteq> ?e'" using e(3) by auto
    with set show "e2 \<in> set (dict_entries d') \<longleftrightarrow> e2 \<in> set (dict_entries d)" by blast
  qed (use e(3) in auto)
  with d' len show ?thesis by (intro that [of d']) auto
qed

lemma dictReplace_ok:
  assumes ok: "dict_ok ty d" and room: "dict_room d"
  shows "\<exists>d'. dictReplace cr ty d k v = Some (d', if dict_map ty d k = None then 1 else 0) \<and>
    dict_ok ty d' \<and> iterators d' = iterators d \<and>
    dict_map ty d' = (\<lambda>k'. if dictCompareKeys ty k' k then Some (Some (dup_val ty v)) else dict_map ty d k') \<and>
    length (dict_entries d') = (if dict_map ty d k = None then Suc (length (dict_entries d)) else length (dict_entries d))"
proof (cases "dict_map ty d k")
  case None
  from dictAddRaw_set_ok [OF ok room None, of cr v] obtain d1 ref d' where
    "dictAddRaw cr ty d k = Some (d1, Some ref, None)" "dictSetVal ty d1 ref v = Some d'"
    "dict_ok ty d'" "iterators d' = iterators d"
    "dict_map ty d' = (\<lambda>k'. if dictCompareKeys ty k' k then Some (Some (dup_val ty v)) else dict_map ty d k')"
    "length (dict_entries d') = Suc (length (dict_entries d))" .
  with None show ?thesis by (intro exI [of _ d']) (auto simp: dictReplace_def)
next
  case (Some w)
  then obtain d1 ref where raw: "dictAddRaw cr ty d k = Some (d1, None, Some ref)"
    and same: "same_dict ty d d1" and ref: "ref_to ty d1 k ref"
    using dictAddRaw_existing_ok [OF ok room] by (metis option.distinct(1))
  have ok1: "dict_ok ty d1" and it: "iterators d1 = iterators d" using same by (auto simp: same_dict_def)
  from dictSetVal_ref [OF ok1 ref, of v] obtain d' where
    "dictSetVal ty d1 ref v = Some d'" "dict_ok ty d'" "iterators d' = iterators d1"
    "dict_map ty d' = (\<lambda>k'. if dictCompareKeys ty k' k then Some (Some (dup_val ty v)) else dict_map ty d1 k')"
    "length (dict_entries d') = length (dict_entries d1)" .
  with Some raw it dict_map_same [OF ok same] same_dict_length [OF same] show ?thesis
    by (intro exI [of _ d']) (auto simp: dictReplace_def)
qed

lemma dictFetchValue_ok:
  assumes ok: "dict_ok ty d"
  shows "\<exists>d'. dictFetchValue ty d k = Some (d', Option.bind (dict_map ty d k) id) \<and> dict_ok ty d' \<and>
    dict_map ty d' = dict_map ty d \<and> iterators d' = iterators d \<and>
    length (dict_entries d') = length (dict_entries d)"
proof -
  obtain d' r where f: "dictFind ty d k = Some (d', r)" and same: "same_dict ty d d'"
    and r: "case r of None \<Rightarrow> dict_map ty d k = None | Some ref \<Rightarrow> ref_to ty d' k ref"
    using dictFind_ok [OF ok] .
  have ok': "dict_ok ty d'" "iterators d' = iterators d" using same by (auto simp: same_dict_def)
  have m: "dict_map ty d' = dict_map ty d" "length (dict_entries d') = length (dict_entries d)"
    using dict_map_same [OF ok same] same_dict_length [OF same] .
  show ?thesis
  proof (cases r)
    case None
    with f r m ok' show ?thesis by (intro exI [of _ d']) (auto simp: dictFetchValue_def)
  next
    case (Some ref)
    with r obtain e where e: "dictGetEntry d' ref = Some e" "dictCompareKeys ty k (de_key e)"
      "e \<in> set (dict_entries d')" by (auto simp: ref_to_def)
    then have "dict_map ty d' k = Some (de_val e)" using dict_map_Some [OF dict_ok_keys [OF ok'(1)]] by blast
    with Some f e m ok' show ?thesis by (intro exI [of _ d']) (auto simp: dictFetchValue_def)
  qed
qed

lemma unlink_entry_ok:
  assumes ok: "dict_ok ty d" and t: "fst ref \<le> 1" and e: "dictGetEntry d ref = Some e"
  obtains d' where "unlink_entry (fst ref) (fst (snd ref)) (snd (snd ref)) d = Some (d', e)" "dict_ok ty d'"
    "iterators d' = iterators d" "add_mset e (mset (dict_entries d')) = mset (dict_entries d)"
proof -
  obtain t i j where ref: "ref = (t, i, j)" by (cases ref) auto
  let ?h = "get_ht t d"
  let ?ch = "ht_table ?h ! i"
  let ?ch' = "take j ?ch @ drop (Suc j) ?ch"
  note g = dictGetEntry_cases [OF e [unfolded ref]]
  obtain n where live: "ht_live ty n ?h" and t': "t = 0 \<or> t = 1 \<and> dictIsRehashing d"
    by (rule get_ht_live [OF ok, of t]) (use t ref g(1) in auto)
  let ?d' = "put_chain t i ?ch' (ht_used ?h - 1) d"
  have un: "unlink_entry t i j d = Some (?d', e)"
    using g by (simp add: unlink_entry_def Let_def bucket_Some put_chain_def)
  have split: "?ch = take j ?ch @ e # drop (Suc j) ?ch" using g(2,3) by (simp add: id_take_nth_drop)
  then have ch: "mset ?ch = add_mset e (mset ?ch')"
    by (metis mset_append mset.simps(2) union_mset_add_mset_right)
  have put: "mset (dict_entries ?d') + mset ?ch = mset (dict_entries d) + mset ?ch'"
    using t ref g(1) by (intro put_chain_mset) auto
  then have ms: "add_mset e (mset (dict_entries ?d')) = mset (dict_entries d)"
    unfolding ch by simp
  have keys: "distinct_keys ty (dict_entries ?d')"
    using distinct_keys_Cons_mset [OF ms] dict_ok_keys [OF ok] by simp
  have "length (dict_entries d) = Suc (length (dict_entries ?d'))"
    using ms by (metis size_add_mset size_mset)
  then have len: "length (dict_entries ?d') < 2 ^ 64" using ok by (simp add: dict_ok_def)
  have "e \<in> set (ht_entries ?h)" using chain_entry_mem [OF g(1,2)] g(3) by (simp add: ht_entries_def)
  then have "0 < length (ht_entries ?h)" by (cases "ht_entries ?h") auto
  then have "0 < unat (ht_used ?h)" using ok t' by (auto simp: dict_ok_def used_ok_def get_ht_def)
  then have u: "unat (ht_used ?h - 1) + length ?ch = unat (ht_used ?h) + length ?ch'"
    using g(2) by (simp add: unat_sub_1)
  have "\<forall>e \<in> set ?ch'. slot ty n (de_key e) = i"
    using live g(1) by (auto simp: ht_live_def tab_ok_def dest: in_set_takeD in_set_dropD)
  then have "dict_ok ty ?d'"
    using ok live t' g u keys len by (intro put_chain_ok) auto
  with un ms ref show ?thesis by (intro that [of ?d']) auto
qed

lemma unlink_map:
  assumes ok: "dict_ok ty d" "dict_ok ty d'" and ms: "add_mset e (mset (dict_entries d')) = mset (dict_entries d)"
    and k: "dictCompareKeys ty k (de_key e)"
  shows "dict_map ty d' = (\<lambda>k'. if dictCompareKeys ty k' k then None else dict_map ty d k')"
proof (rule dict_map_del)
  fix e2 :: "('k, 'v) dictEntry"
  have nd: "\<forall>e' \<in> set (dict_entries d'). \<not> dictCompareKeys ty (de_key e) (de_key e')"
    using distinct_keys_Cons_mset [OF ms] dict_ok_keys [OF ok(1)] by simp
  then have nk: "\<forall>e' \<in> set (dict_entries d'). \<not> dictCompareKeys ty k (de_key e')"
    using k cmp_sym cmp_trans by blast
  show "e2 \<in> set (dict_entries d') \<longleftrightarrow> e2 \<in> set (dict_entries d) \<and> \<not> dictCompareKeys ty k (de_key e2)"
    using set_add_mset [OF ms [symmetric]] nk k by auto
qed (use ok dict_ok_keys in auto)

lemma dictGenericDelete_ok:
  assumes ok: "dict_ok ty d"
  shows "\<exists>d' he. dictGenericDelete ty d k = Some (d', he) \<and> dict_ok ty d' \<and> iterators d' = iterators d \<and>
    map_option de_val he = dict_map ty d k \<and>
    dict_map ty d' = (\<lambda>k'. if dictCompareKeys ty k' k then None else dict_map ty d k') \<and>
    length (dict_entries d') = (if dict_map ty d k = None then length (dict_entries d) else length (dict_entries d) - 1)"
proof -
  have gone: "dict_map ty d2 = (\<lambda>k'. if dictCompareKeys ty k' k then None else dict_map ty d k')"
    if "dict_map ty d k = None" "dict_map ty d2 = dict_map ty d" for d2
    using that dict_map_cong [of _ k d] by (auto simp: fun_eq_iff)
  show ?thesis
  proof (cases "dict_entries d = []")
    case True
    then have "dictGenericDelete ty d k = Some (d, None)" using used_zero [OF ok] by (simp add: dictGenericDelete_def)
    moreover have "dict_map ty d k = None" using True by (simp add: dict_map_None)
    ultimately show ?thesis using ok gone by auto
  next
    case False
    obtain d1 where st: "(if dictIsRehashing d then dictRehashStep ty d else Some d) = Some d1"
      and same: "same_dict ty d d1" using rehash_if_needed [OF ok] .
    have ok1: "dict_ok ty d1" "iterators d1 = iterators d" and ne: "dict_entries d1 \<noteq> []"
      using same same_dict_entries [OF same] False by (auto simp: same_dict_def)
    have m: "dict_map ty d1 = dict_map ty d" using dict_map_same [OF ok same] .
    from tables_search_ok [OF ok1(1), of k] ne obtain t idx r where
      ts: "tables_search ty k (ucast (dictHashKey ty k)) d1 = Some (t, idx, r)"
      and r: "case r of None \<Rightarrow> dict_map ty d1 k = None \<and> (dictIsRehashing d1 \<longrightarrow> t = 1)
       | Some j \<Rightarrow> ref_to ty d1 k (t, unat idx, j)" by metis
    have del: "dictGenericDelete ty d k = (case r of
          Some j \<Rightarrow> do { (d, he) \<leftarrow> unlink_entry t (unat idx) j d1; Some (d, Some he) }
        | None \<Rightarrow> Some (d1, None))"
      using False used_zero(2) [OF ok] st ts by (auto simp: dictGenericDelete_def)
    show ?thesis
    proof (cases r)
      case None
      with r m ok1 del gone [of d1] same_dict_length [OF same] show ?thesis by (intro exI [of _ d1] exI [of _ None]) auto
    next
      case (Some j)
      with r obtain e where e: "t \<le> 1" "dictGetEntry d1 (t, unat idx, j) = Some e"
        "dictCompareKeys ty k (de_key e)" "e \<in> set (dict_entries d1)" by (auto simp: ref_to_def)
      obtain d' where d': "unlink_entry t (unat idx) j d1 = Some (d', e)" "dict_ok ty d'"
        "iterators d' = iterators d1" "add_mset e (mset (dict_entries d')) = mset (dict_entries d1)"
        using unlink_entry_ok [OF ok1(1) _ e(2)] e(1) by auto
      have "dict_map ty d1 k = Some (de_val e)"
        using dict_map_Some [OF dict_ok_keys [OF ok1(1)]] e by blast
      moreover have "length (dict_entries d1) = Suc (length (dict_entries d'))"
        using arg_cong [OF d'(4), of size] by simp
      ultimately show ?thesis
        using Some del d' m ok1 unlink_map [OF ok1(1) d'(2,4) e(3)] same_dict_length [OF same]
        by (intro exI [of _ d'] exI [of _ "Some e"]) auto
    qed
  qed
qed

end

section \<open>The table as a map\<close>

definition dict_view :: "('k, 'v) dictType \<Rightarrow> ('k, 'v) dict \<Rightarrow> 'k \<Rightarrow> 'v option" where
  "dict_view ty d k = Option.bind (dict_map ty d k) id"

definition dict_vals_ok :: "('k, 'v) dictType \<Rightarrow> ('k, 'v) dict \<Rightarrow> bool" where
  "dict_vals_ok ty d \<longleftrightarrow> dict_ok ty d \<and> (\<forall>k. dict_map ty d k \<noteq> Some None)"

definition dict_put :: "bool \<Rightarrow> ('k, 'v) dictType \<Rightarrow> ('k, 'v) dict \<Rightarrow> 'k \<Rightarrow> 'v \<Rightarrow> (('k, 'v) dict \<times> bool) option" where
  "dict_put cr ty d k v = map_option (map_prod id (\<lambda>r. r = 1)) (dictReplace cr ty d k v)"

definition dict_del :: "('k, 'v) dictType \<Rightarrow> ('k, 'v) dict \<Rightarrow> 'k \<Rightarrow> (('k, 'v) dict \<times> bool) option" where
  "dict_del ty d k = map_option (map_prod id (\<lambda>st. st = DICT_OK)) (dictDelete ty d k)"

lemma dict_view_None: "dict_vals_ok ty d \<Longrightarrow> dict_view ty d k = None \<longleftrightarrow> dict_map ty d k = None"
proof (cases "dict_map ty d k")
  case (Some a)
  then show "dict_vals_ok ty d \<Longrightarrow> ?thesis" by (cases a) (auto simp: dict_vals_ok_def dict_view_def)
qed (simp add: dict_view_def)

lemma dictCreate_ok: "dict_ok ty dictCreate" "dict_entries dictCreate = []" "dict_map ty dictCreate = (\<lambda>k. None)"
  by (simp_all add: dict_ok_def dictCreate_def dict_entries_def distinct_keys_def dict_map_def fun_eq_iff)

sublocale dict_type \<subseteq> as_map: checked_map dictCreate "dict_put cr ty" "dict_del ty" "dictFetchValue ty"
    "dict_view ty" "\<lambda>d. length (dict_entries d)" "dict_vals_ok ty" "dictCompareKeys ty" "dup_val ty" "2 ^ 30" for cr
proof unfold_locales
  show "dict_vals_ok ty dictCreate" by (simp add: dict_vals_ok_def dictCreate_ok)
  show "dict_view ty dictCreate = (\<lambda>k. None)" by (simp add: dict_view_def dictCreate_ok fun_eq_iff)
  show "length (dict_entries dictCreate) = 0" by (simp add: dictCreate_ok)
next
  fix d k v
  assume ok: "dict_vals_ok ty d" and "length (dict_entries d) < 2 ^ 30"
  then have "dict_ok ty d" "dict_room d" by (auto simp: dict_vals_ok_def dict_room_def)
  from dictReplace_ok [OF this, of cr k v] obtain d' where
    "dictReplace cr ty d k v = Some (d', if dict_map ty d k = None then 1 else 0)" "dict_ok ty d'"
    "dict_map ty d' = (\<lambda>k'. if dictCompareKeys ty k' k then Some (Some (dup_val ty v)) else dict_map ty d k')"
    "length (dict_entries d') = (if dict_map ty d k = None then Suc (length (dict_entries d)) else length (dict_entries d))"
    by blast
  then show "\<exists>d'. dict_put cr ty d k v = Some (d', dict_view ty d k = None) \<and> dict_vals_ok ty d' \<and>
      dict_view ty d' = upd_at (dictCompareKeys ty) k (Some (dup_val ty v)) (dict_view ty d) \<and>
      length (dict_entries d') \<le> Suc (length (dict_entries d))"
    using ok dict_view_None [OF ok, of k]
    by (intro exI [of _ d']) (auto simp: dict_put_def dict_vals_ok_def dict_view_def upd_at_def fun_eq_iff)
next
  fix d k
  assume ok: "dict_vals_ok ty d"
  then have "dict_ok ty d" by (simp add: dict_vals_ok_def)
  from dictGenericDelete_ok [OF this, of k] obtain d' he where
    "dictGenericDelete ty d k = Some (d', he)" "dict_ok ty d'" "map_option de_val he = dict_map ty d k"
    "dict_map ty d' = (\<lambda>k'. if dictCompareKeys ty k' k then None else dict_map ty d k')"
    "length (dict_entries d') = (if dict_map ty d k = None then length (dict_entries d) else length (dict_entries d) - 1)"
    by blast
  then show "\<exists>d'. dict_del ty d k = Some (d', dict_view ty d k \<noteq> None) \<and> dict_vals_ok ty d' \<and>
      dict_view ty d' = upd_at (dictCompareKeys ty) k None (dict_view ty d) \<and>
      length (dict_entries d') \<le> length (dict_entries d)"
    using ok dict_view_None [OF ok, of k]
    by (intro exI [of _ d'])
      (auto simp: dict_del_def dictDelete_def dict_vals_ok_def dict_view_def upd_at_def fun_eq_iff split: if_splits)
next
  fix d k
  assume ok: "dict_vals_ok ty d"
  then have "dict_ok ty d" by (simp add: dict_vals_ok_def)
  from dictFetchValue_ok [OF this, of k] obtain d' where
    "dictFetchValue ty d k = Some (d', Option.bind (dict_map ty d k) id)" "dict_ok ty d'"
    "dict_map ty d' = dict_map ty d" "length (dict_entries d') = length (dict_entries d)" by blast
  then show "\<exists>d'. dictFetchValue ty d k = Some (d', dict_view ty d k) \<and> dict_vals_ok ty d' \<and>
      dict_view ty d' = dict_view ty d \<and> length (dict_entries d') \<le> length (dict_entries d)"
    using ok by (intro exI [of _ d']) (auto simp: dict_vals_ok_def dict_view_def fun_eq_iff)
qed

section \<open>Rehashing to the end, resizing, emptying\<close>


lemma rehashidx_bounds:
  assumes "dict_ok ty d" "dictIsRehashing d"
  shows "0 \<le> rehashidx d" "rehashidx d \<le> int (unat (ht_size (ht0 d)))"
proof -
  obtain n where "ht_live ty n (ht0 d)" "0 \<le> rehashidx d" "rehashidx d \<le> int (length (ht_table (ht0 d)))"
    using assms by (auto simp: dict_ok_def dictIsRehashing_def rehash_ok_def)
  then show "0 \<le> rehashidx d" "rehashidx d \<le> int (unat (ht_size (ht0 d)))"
    unfolding ht_live_size [OF \<open>ht_live ty n (ht0 d)\<close>] by auto
qed

lemma rehash_table_length:
  assumes "dict_ok ty d" "dictIsRehashing d"
  shows "unat (ht_size (ht0 d)) = length (ht_table (ht0 d))"
proof -
  obtain n where "ht_live ty n (ht0 d)" by (rule live_ht0 [OF assms(1)]) (use assms(2) in auto)
  then show ?thesis by (rule ht_live_size)
qed

context dict_type
begin

lemma dictRehashMilliseconds_loop_ok:
  assumes "dict_ok ty d"
  shows "\<exists>d' r. dictRehashMilliseconds_loop ty clock ms i rehashes d = Some (d', r) \<and> same_dict ty d d' \<and>
    ((\<forall>j. clock j - clock 0 \<le> ms) \<longrightarrow> \<not> dictIsRehashing d')"
  using assms
proof (induction "nat (int (unat (ht_size (ht0 d))) - rehashidx d)" arbitrary: d i rehashes rule: less_induct)
  case less
  obtain d1 where d1: "dictRehash ty d 100 = Some (d1, dictIsRehashing d1)" "dict_ok ty d1"
    "mset (dict_entries d1) = mset (dict_entries d)" "iterators d1 = iterators d"
    and prog: "dictIsRehashing d1 \<longrightarrow> dictIsRehashing d \<and> ht_size (ht0 d1) = ht_size (ht0 d) \<and>
       ht_size (ht1 d1) = ht_size (ht1 d) \<and> (0 < (100::nat) \<longrightarrow> rehashidx d < rehashidx d1)"
    using dictRehash_ok [OF less.prems] by blast
  have same: "same_dict ty d d1" using d1 by (simp add: same_dict_def)
  show ?case
  proof (cases "dictIsRehashing d1 \<and> \<not> clock i - clock 0 > ms")
    case False
    with d1 same show ?thesis
      by (subst dictRehashMilliseconds_loop.simps) (auto simp: not_less)
  next
    case True
    with prog rehashidx_bounds [OF d1(2)] rehashidx_bounds [OF less.prems]
    have "nat (int (unat (ht_size (ht0 d1))) - rehashidx d1) < nat (int (unat (ht_size (ht0 d))) - rehashidx d)"
      by auto
    from less.hyps [OF this d1(2), of "Suc i" "rehashes + 100"] obtain d' r where
      "dictRehashMilliseconds_loop ty clock ms (Suc i) (rehashes + 100) d1 = Some (d', r)" "same_dict ty d1 d'"
      "(\<forall>j. clock j - clock 0 \<le> ms) \<longrightarrow> \<not> dictIsRehashing d'" by blast
    with True d1(1) same_dict_trans [OF same] show ?thesis
      by (subst dictRehashMilliseconds_loop.simps) auto
  qed
qed

end

lemma max_four: "word_of_int (if int n < 4 then 4 else int n) = (of_nat (max 4 n) :: u64)"
  by (simp add: max_def)

lemma dictResize_ok:
  assumes ok: "dict_ok ty d" and room: "dict_room d" and nr: "\<not> dictIsRehashing d"
  obtains d' st where "dictResize True d = Some (d', st)" "same_dict ty d d'" "st = DICT_ERR \<longrightarrow> d' = d"
    "\<exists>n. 2 ^ n = unat (ht_size (if dictIsRehashing d' then ht1 d' else ht0 d')) \<and> 2 \<le> n \<and>
       length (dict_entries d) \<le> 2 ^ n \<and> (n = 2 \<or> 2 ^ (n - 1) < length (dict_entries d))"
proof -
  let ?u = "unat (ht_used (ht0 d))"
  have used: "?u = length (dict_entries d)" "?u \<le> 2 ^ 30"
    using ok room ht1_empty [OF ok nr]
    by (simp_all add: dict_ok_def used_ok_def dict_room_def dict_entries_def)
  let ?m = "max 4 ?u"
  have s: "sint (ucast (ht_used (ht0 d)) :: u32) = int ?u"
    using used(2) by (simp add: sint_u32 unat_u64_u32)
  have sz: "unat (of_nat ?m :: u64) = ?m" using used(2) by (simp add: unat_of_nat)
  have eq: "dictResize True d = dictExpand d (of_nat ?m)"
    unfolding dictResize_def s using nr max_four [of ?u] by (simp only: Let_def if_False not_True_eq_False simp_thms)
  have le: "unat (of_nat ?m :: u64) \<le> 2 ^ 31" using used(2) unfolding sz by simp
  obtain n where n: "dictNextPower (of_nat ?m) = Some (2 ^ n)" "n \<in> {2..31}" "?m \<le> 2 ^ n" "n = 2 \<or> 2 ^ (n - 1) < ?m"
    using dictNextPower_ok [OF le] unfolding sz by metis
  have "(2::nat) ^ (n - 1) < ?m \<Longrightarrow> n = 2 \<or> 2 ^ (n - 1) < ?u"
  proof -
    assume a: "(2::nat) ^ (n - 1) < ?m"
    have "(2::nat) ^ 2 \<le> 2 ^ (n - 1)" if "n \<noteq> 2" using n(2) that by (intro power_increasing) auto
    with a show ?thesis by (cases "n = 2") auto
  qed
  with n have tight: "n = 2 \<or> 2 ^ (n - 1) < ?u" by blast
  obtain d' st where ex: "dictExpand d (of_nat ?m) = Some (d', st)" "dict_ok ty d'" "dict_entries d' = dict_entries d"
    "iterators d' = iterators d" "st = DICT_ERR \<longrightarrow> d' = d"
    using dictExpand_ok [OF ok nr le] by metis
  have nu: "\<not> ht_used (ht0 d) > of_nat ?m" unfolding word_less_nat_alt sz by simp
  have "ht_size (if dictIsRehashing d' then ht1 d' else ht0 d') = 2 ^ n"
    using ex(1) n(1) nr nu by (auto simp: dictExpand_def Let_def dictIsRehashing_def split: if_splits)
  with ex eq tight n used unat_pow [OF n(2)] show ?thesis
    by (intro that [of d' st]) (auto simp: same_dict_def intro!: exI [of _ n])
qed

lemma dictClear_chain_eq: "dictClear_chain ch used freed = (freed @ ch, used - of_nat (length ch))"
  by (induction ch arbitrary: used freed) (auto simp: algebra_simps)

lemma dictClear_loop_ok:
  assumes "i \<le> length (ht_table ht)" "unat (ht_size ht) = length (ht_table ht)"
    "unat used = length (concat (drop i (ht_table ht)))"
  shows "dictClear_loop ht i used freed = Some (freed @ concat (drop i (ht_table ht)))"
  using assms
proof (induction "length (ht_table ht) - i" arbitrary: i used freed)
  case 0
  then show ?case by (subst dictClear_loop.simps) simp
next
  case (Suc n)
  then have i: "i < length (ht_table ht)" by simp
  show ?case
  proof (cases "used = 0")
    case True
    then have "concat (drop i (ht_table ht)) = []" using Suc.prems by simp
    with True show ?thesis by (subst dictClear_loop.simps) simp
  next
    case False
    let ?ch = "ht_table ht ! i"
    have d: "drop i (ht_table ht) = ?ch # drop (Suc i) (ht_table ht)" using i by (simp add: Cons_nth_drop_Suc)
    have le: "length ?ch \<le> unat used" using Suc.prems(3) d by simp
    then have lt: "length ?ch < 2 ^ 64" using unsigned_less [of used, where 'a = nat] by simp
    then have "unat (of_nat (length ?ch) :: u64) = length ?ch" by (simp add: unat_of_nat)
    then have "unat (used - of_nat (length ?ch)) = unat used - length ?ch"
      using le by (simp add: unat_sub word_le_nat_alt)
    then have "dictClear_loop ht (Suc i) (used - of_nat (length ?ch)) (freed @ ?ch) =
        Some ((freed @ ?ch) @ concat (drop (Suc i) (ht_table ht)))"
      using Suc d i by (intro Suc.hyps) auto
    with False i Suc.prems d show ?thesis
      by (subst dictClear_loop.simps) (simp add: bucket_Some dictClear_chain_eq word_neq_0_conv)
  qed
qed

lemma dictClear_ok:
  assumes "used_ok ht" "ht = dictReset \<or> ht_live ty n ht"
  shows "dictClear ht = Some (dictReset, ht_entries ht)"
proof -
  have "unat (ht_size ht) = length (ht_table ht)"
    using assms(2) ht_live_size by (auto simp: dictReset_def)
  then have "dictClear_loop ht 0 (ht_used ht) [] = Some (concat (ht_table ht))"
    using assms(1) dictClear_loop_ok [of 0 ht "ht_used ht" "[]"] by (simp add: used_ok_def ht_entries_def)
  then show ?thesis by (simp add: dictClear_def ht_entries_def)
qed

lemma dictEmpty_ok:
  assumes "dict_ok ty d"
  shows "dictEmpty d = Some (dictCreate, dict_entries d)"
proof -
  obtain n m where "ht0 d = dictReset \<or> ht_live ty n (ht0 d)" "ht1 d = dictReset \<or> ht_live ty m (ht1 d)"
    using assms by (auto simp: dict_ok_def rehash_ok_def split: if_splits)
  moreover have "used_ok (ht0 d)" "used_ok (ht1 d)" using assms by (auto simp: dict_ok_def)
  ultimately have "dictClear (ht0 d) = Some (dictReset, ht_entries (ht0 d))"
    "dictClear (ht1 d) = Some (dictReset, ht_entries (ht1 d))"
    using dictClear_ok by metis+
  then show ?thesis by (simp add: dictEmpty_def dictCreate_def dict_entries_def)
qed

context dict_type
begin

lemma history_ok:
  assumes "puts ops \<le> 2 ^ 30"
  shows "\<exists>d. run_map (dict_put cr ty) (dict_del ty) (dictFetchValue ty) dictCreate ops =
      Some (d, snd (spec_map (dictCompareKeys ty) (dup_val ty) (\<lambda>k. None) ops)) \<and>
    dict_ok ty d \<and> dict_view ty d = fst (spec_map (dictCompareKeys ty) (dup_val ty) (\<lambda>k. None) ops)"
  using as_map.run_map_correct [OF assms, of cr] by (auto simp: dict_vals_ok_def)

end

section \<open>Correctness\<close>

text \<open>A table keyed by words, with neither a comparison nor duplication functions: the example type below.\<close>

definition word_dictType :: "(u64, nat) dictType" where
  "word_dictType = \<lparr>hashFunction = (\<lambda>k. k), keyDup = None, valDup = None, keyCompare = None\<rparr>"

lemma word_dictType: "dict_type word_dictType"
  by unfold_locales (auto simp: word_dictType_def dictCompareKeys_def)

definition example_dict :: "(u64, nat) dict" where
  "example_dict = \<lparr>
     ht0 = \<lparr>ht_table = [[], [], [\<lparr>de_key = 6, de_val = Some 60\<rparr>, \<lparr>de_key = 2, de_val = Some 20\<rparr>], []],
            ht_size = 4, ht_sizemask = 3, ht_used = 2\<rparr>,
     ht1 = \<lparr>ht_table = [[], [\<lparr>de_key = 9, de_val = Some 90\<rparr>], [], [], [], [], [], []],
            ht_size = 8, ht_sizemask = 7, ht_used = 1\<rparr>,
     rehashidx = 2, iterators = 0\<rparr>"

lemma example_dict: "dict_ok word_dictType example_dict" "dict_room example_dict" "dictIsRehashing example_dict"
proof -
  have lt: "(\<forall>i < length tab. P i) \<longleftrightarrow> list_all P [0..<length tab]" for P and tab :: "(u64, nat) chain list"
    by (auto simp: list_all_iff)
  have l: "ht_live word_dictType 2 (ht0 example_dict)" "ht_live word_dictType 3 (ht1 example_dict)"
    unfolding ht_live_def tab_ok_def lt
    by (simp_all add: example_dict_def word_dictType_def slot_def dictHashKey_def mask_eq_exp_minus_1 upt_rec)
  have "rehash_ok word_dictType example_dict"
    unfolding rehash_ok_def using l
    by (intro conjI exI allI impI) (auto simp: example_dict_def nth_Cons' )
  then show "dict_ok word_dictType example_dict"
    by (simp add: dict_ok_def example_dict_def used_ok_def ht_entries_def dict_entries_def distinct_keys_def
        dictCompareKeys_def word_dictType_def)
  show "dict_room example_dict" "dictIsRehashing example_dict"
    by (simp_all add: example_dict_def dict_room_def dict_entries_def ht_entries_def dictIsRehashing_def)
qed

lemma example_dict_map:
  "dict_map word_dictType example_dict = (\<lambda>k. if k = 6 then Some (Some 60) else if k = 2 then Some (Some 20)
     else if k = 9 then Some (Some 90) else None)"
  by (auto simp: fun_eq_iff dict_map_def example_dict_def dict_entries_def ht_entries_def word_dictType_def
      dictCompareKeys_def)

text \<open>
  (C2) Any history of \<open>dictReplace\<close>, \<open>dictDelete\<close> and \<open>dictFetchValue\<close> calls on a new
  table, with at most \<open>2 ^ 30\<close> insertions, stays inside the tables, and every call returns
  what it would return on an associative map, through all the expansions and the incremental
  rehashing that happen on the way.
\<close>

theorem dict_history_correct:
  assumes "dict_type ty" "puts ops \<le> 2 ^ 30"
  shows "\<exists>d. run_map (dict_put cr ty) (dict_del ty) (dictFetchValue ty) dictCreate ops =
      Some (d, snd (spec_map (dictCompareKeys ty) (dup_val ty) (\<lambda>k. None) ops)) \<and>
    dict_ok ty d \<and> dict_view ty d = fst (spec_map (dictCompareKeys ty) (dup_val ty) (\<lambda>k. None) ops)"
  by (rule dict_type.history_ok [OF assms])

theorem dict_history_correct_witness:
  "\<exists>d. run_map (dict_put True word_dictType) (dict_del word_dictType) (dictFetchValue word_dictType) dictCreate
      [Put 1 10, Put 5 50, Get 1, Put 1 11, Get 1, Del 5, Get 5, Del 5] =
    Some (d, [Was_new True, Was_new True, Found (Some 10), Was_new False, Found (Some 11), Was_there True,
      Found None, Was_there False])"
  using dict_history_correct [OF word_dictType,
      of "[Put 1 10, Put 5 50, Get 1, Put 1 11, Get 1, Del 5, Get 5, Del 5]" True]
  by (auto simp: upd_at_def dictCompareKeys_def dup_val_def word_dictType_def)

text \<open>
  (C6) \<open>dictAdd\<close> on a well-formed table adds the key and its value when no equal key is there,
  and otherwise returns \<open>DICT_ERR\<close> and leaves the association as it was; either way the
  invariant holds afterwards.
\<close>

theorem dictAdd_correct:
  assumes "dict_type ty" "dict_ok ty d" "dict_room d"
  shows "\<exists>d'. dictAdd cr ty d k v = Some (d', if dict_map ty d k = None then DICT_OK else DICT_ERR) \<and>
    dict_ok ty d' \<and> iterators d' = iterators d \<and>
    dict_map ty d' = (if dict_map ty d k = None
      then (\<lambda>k'. if dictCompareKeys ty k' k then Some (Some (dup_val ty v)) else dict_map ty d k')
      else dict_map ty d) \<and>
    length (dict_entries d') = (if dict_map ty d k = None then Suc (length (dict_entries d)) else length (dict_entries d))"
  by (rule dict_type.dictAdd_ok [OF assms])

theorem dictAdd_correct_witness:
  "(\<exists>d'. dictAdd True word_dictType example_dict 10 100 = Some (d', DICT_OK) \<and>
     dict_map word_dictType d' 10 = Some (Some 100)) \<and>
   (\<exists>d'. dictAdd True word_dictType example_dict 9 100 = Some (d', DICT_ERR) \<and>
     dict_map word_dictType d' 9 = Some (Some 90))"
  using dictAdd_correct [OF word_dictType example_dict(1,2), of True 10 100]
    dictAdd_correct [OF word_dictType example_dict(1,2), of True 9 100]
  by (auto simp: example_dict_map dup_val_def) (auto simp: word_dictType_def dictCompareKeys_def)

text \<open>
  (C7) \<open>dictGenericDelete\<close>, behind \<open>dictDelete\<close> and \<open>dictUnlink\<close>, takes the entry of the key out of
  the table, hands that entry back, and changes no other association; when the key is absent it
  returns nothing and changes nothing.
\<close>

theorem dictGenericDelete_correct:
  assumes "dict_type ty" "dict_ok ty d"
  shows "\<exists>d' he. dictGenericDelete ty d k = Some (d', he) \<and> dict_ok ty d' \<and> iterators d' = iterators d \<and>
    map_option de_val he = dict_map ty d k \<and>
    dict_map ty d' = (\<lambda>k'. if dictCompareKeys ty k' k then None else dict_map ty d k') \<and>
    length (dict_entries d') = (if dict_map ty d k = None then length (dict_entries d) else length (dict_entries d) - 1)"
  by (rule dict_type.dictGenericDelete_ok [OF assms])

theorem dictGenericDelete_correct_witness:
  "\<exists>d' he. dictGenericDelete word_dictType example_dict 2 = Some (d', Some he) \<and> de_val he = Some 20 \<and>
     dict_map word_dictType d' 2 = None \<and> dict_map word_dictType d' 6 = Some (Some 60)"
  using dictGenericDelete_correct [OF word_dictType example_dict(1), of 2]
  by (auto simp: example_dict_map) (auto simp: word_dictType_def dictCompareKeys_def)

text \<open>
  (C4) A step of incremental rehashing keeps the invariant and the multiset of entries, hence the
  association; it returns true exactly when the rehashing is not over, and then it has moved the
  rehash index forward, so that repeating it comes to an end.
\<close>

theorem dictRehash_correct:
  assumes "dict_type ty" "dict_ok ty d"
  shows "\<exists>d'. dictRehash ty d n = Some (d', dictIsRehashing d') \<and> dict_ok ty d' \<and>
    mset (dict_entries d') = mset (dict_entries d) \<and> dict_map ty d' = dict_map ty d \<and>
    (dictIsRehashing d' \<and> 0 < n \<longrightarrow> rehashidx d < rehashidx d' \<and> rehashidx d' \<le> int (length (ht_table (ht0 d))))"
proof -
  obtain d' where d': "dictRehash ty d n = Some (d', dictIsRehashing d')" "dict_ok ty d'"
    "mset (dict_entries d') = mset (dict_entries d)" "iterators d' = iterators d"
    "dictIsRehashing d' \<longrightarrow> dictIsRehashing d \<and> ht_size (ht0 d') = ht_size (ht0 d) \<and>
       ht_size (ht1 d') = ht_size (ht1 d) \<and> (0 < n \<longrightarrow> rehashidx d < rehashidx d')"
    using dict_type.dictRehash_ok [OF assms] by blast
  have "dict_map ty d' = dict_map ty d"
    using d' by (intro dict_type.dict_map_same [OF assms]) (simp add: same_dict_def)
  moreover have "rehashidx d' \<le> int (length (ht_table (ht0 d)))" if "dictIsRehashing d'"
    using rehashidx_bounds(2) [OF d'(2) that] d'(5) that rehash_table_length [OF assms(2)] by auto
  ultimately show ?thesis using d' by auto
qed

theorem dictRehash_correct_witness:
  "\<exists>d'. dictRehash word_dictType example_dict 1 = Some (d', dictIsRehashing d') \<and>
     dict_map word_dictType d' 6 = Some (Some 60)"
  using dictRehash_correct [OF word_dictType example_dict(1), of 1] example_dict_map by auto

text \<open>
  (C24) \<open>dictRehashMilliseconds\<close> always returns, whatever the clock shows, and keeps the entries; if the
  clock never passes the budget, the rehashing is complete when it does.
\<close>

theorem dictRehashMilliseconds_correct:
  assumes "dict_type ty" "dict_ok ty d"
  shows "\<exists>d' r. dictRehashMilliseconds ty clock d ms = Some (d', r) \<and> dict_ok ty d' \<and>
    mset (dict_entries d') = mset (dict_entries d) \<and>
    ((\<forall>j. clock j - clock 0 \<le> ms) \<longrightarrow> \<not> dictIsRehashing d')"
  using dict_type.dictRehashMilliseconds_loop_ok [OF assms, of clock ms 1 0]
  by (auto simp: dictRehashMilliseconds_def same_dict_def)

theorem dictRehashMilliseconds_correct_witness:
  "\<exists>d' r. dictRehashMilliseconds word_dictType (\<lambda>_. 7) example_dict 1 = Some (d', r) \<and> \<not> dictIsRehashing d'"
  using dictRehashMilliseconds_correct [OF word_dictType example_dict(1), of "\<lambda>_. 7" 1] by auto



text \<open>
  (C26) \<open>dictEmpty\<close> passes every entry of both tables to the destructors exactly once, although its
  loop stops as soon as the count of used entries is zero, and leaves a new table.
\<close>

theorem dictEmpty_correct:
  assumes "dict_ok ty d"
  shows "dictEmpty d = Some (dictCreate, dict_entries d)"
  by (rule dictEmpty_ok [OF assms])

theorem dictEmpty_correct_witness:
  "dictEmpty example_dict = Some (dictCreate, dict_entries example_dict) \<and> length (dict_entries example_dict) = 3"
  using dictEmpty_correct [OF example_dict(1)]
  by (simp add: example_dict_def dict_entries_def ht_entries_def)

end
