(* ===== verification/Util.thy ===== *)
theory Util
  imports Prelude
begin

text \<open>
  The conversions between integers and decimal strings of \<open>util.c\<close>: \<open>digits10\<close>, \<open>sdigits10\<close>,
  \<open>ll2string\<close>, \<open>string2ll\<close>, \<open>string2l\<close> and \<open>memtoll\<close>. A \<open>long long\<close> is an \<open>int\<close> in its range, an
  \<open>unsigned long long\<close> a 64-bit word that wraps; a destination buffer is a byte block with checked
  writes. The reference is \<open>dec_int\<close>, the canonical decimal notation.
\<close>

section \<open>Definitions\<close>

abbreviation (input) chr_minus :: byte where "chr_minus \<equiv> 45"
abbreviation (input) chr_0 :: byte where "chr_0 \<equiv> 48"
abbreviation (input) chr_1 :: byte where "chr_1 \<equiv> 49"
abbreviation (input) chr_9 :: byte where "chr_9 \<equiv> 57"
abbreviation ULLONG_MAX :: u64 where "ULLONG_MAX \<equiv> 18446744073709551615"
abbreviation LLONG_MAX_u :: u64 where "LLONG_MAX_u \<equiv> 9223372036854775807"

text \<open>The bytes of a string literal.\<close>

definition bytes_of :: "string \<Rightarrow> byte list" where
  "bytes_of s = map (\<lambda>c. of_nat (of_char c)) s"

function digits10 :: "u64 \<Rightarrow> u32" where
  "digits10 v =
     (if v < 10 then 1
      else if v < 100 then 2
      else if v < 1000 then 3
      else if v < 1000000000000 then
        (if v < 100000000 then
           (if v < 1000000 then (if v < 10000 then 4 else 5 + (if v \<ge> 100000 then 1 else 0))
            else 7 + (if v \<ge> 10000000 then 1 else 0))
         else if v < 10000000000 then 9 + (if v \<ge> 1000000000 then 1 else 0)
         else 11 + (if v \<ge> 100000000000 then 1 else 0))
      else 12 + digits10 (v div 1000000000000))"
  by pat_completeness auto
termination
  by (relation "measure unat") (auto simp: word_less_nat_alt unat_div)

declare digits10.simps [simp del]

text \<open>The magnitude that \<open>sdigits10\<close> and \<open>ll2string\<close> compute, with its special case for \<open>LLONG_MIN\<close>.\<close>

definition ll_abs :: "int \<Rightarrow> u64" where
  "ll_abs v = (if v < 0 then if v \<noteq> INT64_MIN then word_of_int (- v) else LLONG_MAX_u + 1 else word_of_int v)"

definition sdigits10 :: "int \<Rightarrow> u32" where
  "sdigits10 v = (if v < 0 then digits10 (ll_abs v) + 1 else digits10 (ll_abs v))"

definition digits :: "byte list" where
  "digits = bytes_of (
     ''0001020304050607080910111213141516171819'' @
     ''2021222324252627282930313233343536373839'' @
     ''4041424344454647484950515253545556575859'' @
     ''6061626364656667686970717273747576777879'' @
     ''8081828384858687888990919293949596979899'')"

definition buf_set :: "byte list \<Rightarrow> nat \<Rightarrow> byte \<Rightarrow> byte list option" where
  "buf_set dst i b = (if i < length dst then Some (dst[i := b]) else None)"

function ll2string_loop :: "u64 \<Rightarrow> u32 \<Rightarrow> byte list \<Rightarrow> (u64 \<times> u32 \<times> byte list) option" where
  "ll2string_loop v nxt dst =
     (if v \<ge> 100 then
        (let i = unat (v mod 100) * 2 in do {
           dst \<leftarrow> buf_set dst (unat nxt) (digits ! (i + 1));
           dst \<leftarrow> buf_set dst (unat (nxt - 1)) (digits ! i);
           ll2string_loop (v div 100) (nxt - 2) dst
         })
      else Some (v, nxt, dst))"
  by pat_completeness auto
termination
  by (relation "measure (\<lambda>(v, nxt, dst). unat v)") (auto simp: word_le_nat_alt unat_div)

declare ll2string_loop.simps [simp del]

definition ll2string_last :: "u64 \<Rightarrow> u32 \<Rightarrow> byte list \<Rightarrow> byte list option" where
  "ll2string_last v nxt dst =
     (if v < 10 then buf_set dst (unat nxt) (chr_0 + ucast v)
      else (let i = unat v * 2 in do {
        dst \<leftarrow> buf_set dst (unat nxt) (digits ! (i + 1));
        buf_set dst (unat (nxt - 1)) (digits ! i)
      }))"

definition ll2string :: "byte list \<Rightarrow> nat \<Rightarrow> int \<Rightarrow> (byte list \<times> int) option" where
  "ll2string dst dstlen svalue =
     (let negative = svalue < 0;
          value = ll_abs svalue;
          len = digits10 value + (if negative then 1 else 0)
      in if unat len \<ge> dstlen then Some (dst, 0)
         else do {
           dst \<leftarrow> buf_set dst (unat len) 0;
           (value, nxt, dst) \<leftarrow> ll2string_loop value (len - 1) dst;
           dst \<leftarrow> ll2string_last value nxt dst;
           dst \<leftarrow> (if negative then buf_set dst 0 chr_minus else Some dst);
           Some (dst, int (unat len))
         })"

text \<open>
  \<open>string2ll\<close>: the pointer \<open>p\<close> is the rest of the string, so that \<open>plen == slen\<close> says that it
  is empty. \<open>None\<close> is the return value 0.
\<close>

primrec string2ll_loop :: "byte list \<Rightarrow> u64 \<Rightarrow> (u64 \<times> byte list) option" where
  "string2ll_loop [] v = Some (v, [])"
| "string2ll_loop (c # p) v =
     (if chr_0 \<le> c \<and> c \<le> chr_9 then
        (if v > ULLONG_MAX div 10 then None
         else (let v = v * 10 in
           if v > ULLONG_MAX - ucast (c - chr_0) then None
           else string2ll_loop p (v + ucast (c - chr_0))))
      else Some (v, c # p))"

definition string2ll_body :: "byte list \<Rightarrow> nat \<Rightarrow> bool \<Rightarrow> int option" where
  "string2ll_body p slen negative =
     (case p of [] \<Rightarrow> None
      | c # p' \<Rightarrow>
          if chr_1 \<le> c \<and> c \<le> chr_9 then do {
            (v, rest) \<leftarrow> string2ll_loop p' (ucast (c - chr_0));
            if rest \<noteq> [] then None
            else if negative then (if v > LLONG_MAX_u + 1 then None else Some (sint (- v)))
            else (if v > LLONG_MAX_u then None else Some (sint v))
          }
          else if c = chr_0 \<and> slen = 1 then Some 0
          else None)"

definition string2ll :: "byte list \<Rightarrow> int option" where
  "string2ll s =
     (case s of [] \<Rightarrow> None
      | c # p \<Rightarrow>
          if length s = 1 \<and> c = chr_0 then Some 0
          else if c = chr_minus then string2ll_body p (length s) True
          else string2ll_body s (length s) False)"

definition string2l :: "byte list \<Rightarrow> int option" where
  "string2l s = do {
     llval \<leftarrow> string2ll s;
     if llval < INT64_MIN \<or> llval > INT64_MAX then None else Some llval
   }"

text \<open>
  \<open>memtoll\<close>, on the characters of a C string without its terminator. The second component is
  the error flag. \<open>strtoll\<close> is the standard library's on the strings that \<open>memtoll\<close> gives it, an
  optional sign and digits: with no digit nothing is converted and \<open>endptr\<close> is the start; out of range
  values are clamped. Whether the library then also sets \<open>EINVAL\<close> is left open (\<open>einval\<close>). \<open>None\<close> is the
  signed overflow of the product.
\<close>

definition tolower :: "byte \<Rightarrow> byte" where
  "tolower c = (if 65 \<le> c \<and> c \<le> 90 then c + 32 else c)"

definition strcaseeq :: "byte list \<Rightarrow> byte list \<Rightarrow> bool" where
  "strcaseeq a b \<longleftrightarrow> map tolower a = map tolower b"

definition is_digit :: "byte \<Rightarrow> bool" where
  "is_digit c \<longleftrightarrow> chr_0 \<le> c \<and> c \<le> chr_9"

definition dval :: "byte list \<Rightarrow> nat" where
  "dval bs = foldl (\<lambda>a b. a * 10 + (unat b - 48)) 0 bs"

definition strtoll :: "byte list \<Rightarrow> int \<times> byte list" where
  "strtoll buf =
     (let neg = (buf \<noteq> [] \<and> hd buf = chr_minus);
          ds = takeWhile is_digit (if neg then tl buf else buf);
          v = (if neg then - int (dval ds) else int (dval ds))
      in if ds = [] then (0, buf)
         else (if v < INT64_MIN then INT64_MIN else if v > INT64_MAX then INT64_MAX else v,
               drop (length ds + (if neg then 1 else 0)) buf))"

definition memtoll_unit :: "byte list \<Rightarrow> int option" where
  "memtoll_unit u =
     (if u = [] \<or> strcaseeq u (bytes_of ''b'') then Some 1
      else if strcaseeq u (bytes_of ''k'') then Some 1000
      else if strcaseeq u (bytes_of ''kb'') then Some 1024
      else if strcaseeq u (bytes_of ''m'') then Some (1000 * 1000)
      else if strcaseeq u (bytes_of ''mb'') then Some (1024 * 1024)
      else if strcaseeq u (bytes_of ''g'') then Some (1000 * 1000 * 1000)
      else if strcaseeq u (bytes_of ''gb'') then Some (1024 * 1024 * 1024)
      else None)"

definition memtoll :: "bool \<Rightarrow> byte list \<Rightarrow> (int \<times> bool) option" where
  "memtoll einval p =
     (let u = dropWhile is_digit (if p \<noteq> [] \<and> hd p = chr_minus then tl p else p)
      in case memtoll_unit u of
           None \<Rightarrow> Some (0, True)
         | Some mul \<Rightarrow>
             (let dg = length p - length u
              in if dg \<ge> 128 then Some (0, True)
                 else (case strtoll (take dg p) of (val, endptr) \<Rightarrow>
                   if val = 0 \<and> endptr = take dg p \<and> einval \<or> endptr \<noteq> [] then Some (0, True)
                   else if fits 8 (val * mul) then Some (val * mul, False) else None)))"

section \<open>Decimal notation\<close>

fun dec_nat :: "nat \<Rightarrow> byte list" where
  "dec_nat n = (if n < 10 then [of_nat (48 + n)] else dec_nat (n div 10) @ [of_nat (48 + n mod 10)])"

declare dec_nat.simps [simp del]

definition dec_int :: "int \<Rightarrow> byte list" where
  "dec_int v = (if v < 0 then chr_minus # dec_nat (nat (- v)) else dec_nat (nat v))"

lemma dec_nat_small: "n < 10 \<Longrightarrow> dec_nat n = [of_nat (48 + n)]"
  by (simp add: dec_nat.simps)

lemma dec_nat_large: "10 \<le> n \<Longrightarrow> dec_nat n = dec_nat (n div 10) @ [of_nat (48 + n mod 10)]"
  by (subst dec_nat.simps) simp

lemma dec_nat_step: "0 < n \<Longrightarrow> d < 10 \<Longrightarrow> dec_nat (n * 10 + d) = dec_nat n @ [of_nat (48 + d)]"
  by (subst dec_nat_large) auto

lemma dec_nat_two:
  assumes "100 \<le> n"
  shows "dec_nat n = dec_nat (n div 100) @ [of_nat (48 + n mod 100 div 10), of_nat (48 + n mod 100 mod 10)]"
proof -
  have "dec_nat n = dec_nat (n div 10) @ [of_nat (48 + n mod 10)]" using assms dec_nat_large by simp
  also have "dec_nat (n div 10) = dec_nat (n div 10 div 10) @ [of_nat (48 + n div 10 mod 10)]"
    using assms by (intro dec_nat_large) simp
  also have "n div 10 div 10 = n div 100" by (simp add: div_mult2_eq [symmetric])
  also have "n div 10 mod 10 = n mod 100 div 10" using mod_mult2_eq [of n 10 10] by simp
  also have "n mod 10 = n mod 100 mod 10" using mod_mult2_eq [of n 10 10] by simp
  finally show ?thesis by simp
qed

lemma dec_nat_not_Nil [simp]: "dec_nat n \<noteq> []"
  by (subst dec_nat.simps) simp

lemma length_dec_nat_div: "10 ^ k \<le> n \<Longrightarrow> length (dec_nat n) = k + length (dec_nat (n div 10 ^ k))"
proof (induction k arbitrary: n)
  case 0
  then show ?case by simp
next
  case (Suc k)
  have "(10::nat) ^ 1 \<le> 10 ^ Suc k" by (rule power_increasing) auto
  then have "n \<ge> 10" using Suc.prems unfolding power_one_right by (rule order_trans)
  moreover have "10 ^ k \<le> n div 10" using Suc.prems by (simp add: less_eq_div_iff_mult_less_eq mult.commute)
  ultimately have "length (dec_nat (n div 10)) = k + length (dec_nat (n div 10 div 10 ^ k))"
    "dec_nat n = dec_nat (n div 10) @ [of_nat (48 + n mod 10)]"
    using Suc.IH dec_nat_large by blast+
  moreover have "n div 10 div 10 ^ k = n div 10 ^ Suc k" by (simp only: power_Suc div_mult2_eq)
  ultimately show ?case by (metis add_Suc length_append_singleton)
qed

lemma length_dec_nat_le: "n < 10 ^ k \<Longrightarrow> length (dec_nat n) \<le> k \<or> k = 0"
proof (induction k arbitrary: n)
  case (Suc k)
  show ?case
  proof (cases "n < 10")
    case False
    have "n div 10 < 10 ^ k" using Suc.prems by (simp add: div_less_iff_less_mult mult.commute)
    moreover have "k \<noteq> 0" using Suc.prems False by (cases k) auto
    ultimately show ?thesis using Suc.IH [of "n div 10"] False dec_nat_large [of n] by simp
  qed (simp add: dec_nat_small)
qed simp

lemma length_dec_nat:
  assumes "n < 10 ^ Suc k" "10 ^ k \<le> n \<or> k = 0"
  shows "length (dec_nat n) = Suc k"
proof -
  have "n div 10 ^ k < 10" using assms(1) by (simp add: less_mult_imp_div_less mult.commute)
  then show ?thesis using assms length_dec_nat_div [of k n] by (auto simp: dec_nat_small)
qed

section \<open>Lengths and digits\<close>

lemma digits10_correct: "unat (digits10 v) = length (dec_nat (unat v))"
proof (induction v rule: digits10.induct)
  case (1 v)
  have len: "length (dec_nat (unat v)) = Suc k" if "unat v < 10 ^ Suc k" "10 ^ k \<le> unat v \<or> k = 0" for k
    using that by (rule length_dec_nat)
  show ?case
  proof (cases "v < 1000000000000")
    case True
    then show ?thesis
      using len [of 0] len [of 1] len [of 2] len [of 3] len [of 4] len [of 5] len [of 6] len [of 7]
        len [of 8] len [of 9] len [of 10] len [of 11]
      by (subst digits10.simps) (simp add: word_less_nat_alt word_le_nat_alt)
  next
    case False
    then have big: "10 ^ 12 \<le> unat v" by (simp add: word_less_nat_alt)
    let ?w = "v div 1000000000000"
    have w: "unat ?w = unat v div 10 ^ 12" by (simp add: unat_div)
    have ih: "unat (digits10 ?w) = length (dec_nat (unat ?w))"
      using "1.IH" False by (simp add: word_less_nat_alt)
    have "unat v < 2 ^ 64" using unsigned_less [of v, where 'a = nat] by simp
    then have "unat ?w < 10 ^ 8" unfolding w by (simp add: div_less_iff_less_mult)
    then have "length (dec_nat (unat ?w)) \<le> 8" using length_dec_nat_le by fastforce
    then have "unat (12 + digits10 ?w) = 12 + unat (digits10 ?w)" using ih by (simp add: unat_word_ariths)
    moreover have "digits10 v = 12 + digits10 ?w"
      using False by (subst digits10.simps) (simp add: word_less_nat_alt)
    ultimately show ?thesis using ih w length_dec_nat_div [OF big] by simp
  qed
qed

lemma nth_pairs:
  "i < n \<Longrightarrow> concat (map (\<lambda>i. [f i, g i]) [0..<n]) ! (i * 2) = f i"
  "i < n \<Longrightarrow> concat (map (\<lambda>i. [f i, g i]) [0..<n]) ! (i * 2 + 1) = g i"
proof (induction n)
  case (Suc n)
  have len: "length (concat (map (\<lambda>i. [f i, g i]) [0..<n])) = n * 2" by (induction n) auto
  { case 1 with Suc.IH(1) len show ?case by (cases "i = n") (auto simp: nth_append) }
  { case 2 with Suc.IH(2) len show ?case by (cases "i = n") (auto simp: nth_append) }
qed auto

lemma digits_eq: "digits = concat (map (\<lambda>i. [of_nat (48 + i div 10), of_nat (48 + i mod 10)]) [0..<100])"
  unfolding digits_def bytes_of_def by (simp add: upt_conv_Cons)

lemma digits_nth:
  assumes "i < 100"
  shows "digits ! (i * 2) = of_nat (48 + i div 10)" "digits ! (i * 2 + 1) = of_nat (48 + i mod 10)"
  unfolding digits_eq using assms by (rule nth_pairs)+

lemma drop_update_one: "i < length xs \<Longrightarrow> drop i (xs[i := a]) = a # drop (Suc i) xs"
  by (subst Cons_nth_drop_Suc [symmetric]) auto

lemma drop_update_two: "Suc i < length xs \<Longrightarrow> drop i (xs[Suc i := a, i := b]) = b # a # drop (Suc (Suc i)) xs"
  using drop_update_one [of i "xs[Suc i := a]" b] drop_update_one [of "Suc i" xs a] by simp

lemma ll2string_last_ok:
  assumes v: "v < 100" and off: "unat nxt + 1 = off + length (dec_nat (unat v))" and len: "unat nxt < length dst"
  shows "ll2string_last v nxt dst = Some (take off dst @ dec_nat (unat v) @ drop (Suc (unat nxt)) dst)"
proof (cases "v < 10")
  case True
  then have n: "unat v < 10" by (simp add: word_less_nat_alt)
  then have "off = unat nxt" using off by (simp add: dec_nat_small)
  moreover have "ucast v = (of_nat (unat v) :: byte)" by (simp add: of_nat_unat)
  ultimately have "ll2string_last v nxt dst = Some (take (unat nxt) dst @ of_nat (48 + unat v) # drop (Suc (unat nxt)) dst)"
    using True len by (simp add: ll2string_last_def buf_set_def upd_conv_take_nth_drop)
  then show ?thesis using n \<open>off = unat nxt\<close> by (simp add: dec_nat_small)
next
  case False
  then have n: "10 \<le> unat v" "unat v < 100" using v by (auto simp: word_less_nat_alt)
  then have d: "dec_nat (unat v) = [of_nat (48 + unat v div 10), of_nat (48 + unat v mod 10)]"
    using dec_nat_large [of "unat v"] dec_nat_small [of "unat v div 10"] by simp
  then have off': "unat nxt = Suc off" using off by simp
  then have "unat (nxt - 1) = off" by (metis diff_Suc_1 nat.distinct(1) unat_0 unat_minus_one)
  then have "ll2string_last v nxt dst =
      Some (dst[Suc off := of_nat (48 + unat v mod 10), off := of_nat (48 + unat v div 10)])"
    using False len n off' digits_nth [of "unat v"] by (simp add: ll2string_last_def buf_set_def Let_def)
  also have "dst[Suc off := a, off := b] = take off dst @ b # a # drop (Suc (Suc off)) dst" for a b
    using drop_update_two [of off dst a b] len off'
    by (metis append_take_drop_id nat_le_linear not_less_eq_eq take_update_cancel)
  finally show ?thesis using off' d by simp
qed

lemma ll2string_loop_ok:
  assumes "unat nxt + 1 = off + length (dec_nat (unat v))" "unat nxt < length dst"
  shows "\<exists>v' nxt' dst'. ll2string_loop v nxt dst = Some (v', nxt', dst') \<and>
    ll2string_last v' nxt' dst' = Some (take off dst @ dec_nat (unat v) @ drop (Suc (unat nxt)) dst)"
  using assms
proof (induction v nxt dst rule: ll2string_loop.induct)
  case (1 v nxt dst)
  show ?case
  proof (cases "v < 100")
    case True
    then have "ll2string_loop v nxt dst = Some (v, nxt, dst)" by (subst ll2string_loop.simps) (simp add: not_le [symmetric])
    with ll2string_last_ok [OF True "1.prems"] show ?thesis by simp
  next
    case False
    let ?n = "unat v" and ?w = "v div 100"
    let ?i = "?n mod 100"
    let ?a = "of_nat (48 + ?i mod 10) :: byte" and ?b = "of_nat (48 + ?i div 10) :: byte"
    have n: "100 \<le> ?n" using False by (simp add: word_less_nat_alt)
    have w: "unat ?w = ?n div 100" "unat (v mod 100) = ?i" by (simp_all add: unat_div unat_mod)
    have d: "dec_nat ?n = dec_nat (unat ?w) @ [?b, ?a]" unfolding w by (rule dec_nat_two [OF n])
    obtain k where k: "unat nxt = Suc (Suc k)" "k + 1 = off + length (dec_nat (unat ?w))"
    proof (rule that [of "unat nxt - 2"])
      have "length (dec_nat (unat ?w)) \<noteq> 0" by simp
      then show "unat nxt = Suc (Suc (unat nxt - 2))" "unat nxt - 2 + 1 = off + length (dec_nat (unat ?w))"
        using "1.prems"(1) d by (simp_all del: length_0_conv)
    qed
    have u: "unat (nxt - 1) = Suc k" "unat (nxt - 2) = k"
      using k(1) by (simp_all add: unat_sub word_le_nat_alt)
    let ?d1 = "dst[Suc (Suc k) := ?a]" let ?d2 = "?d1[Suc k := ?b]"
    have s: "buf_set dst (unat nxt) (digits ! (unat (v mod 100) * 2 + 1)) = Some ?d1"
      "buf_set ?d1 (unat (nxt - 1)) (digits ! (unat (v mod 100) * 2)) = Some ?d2"
      using "1.prems"(2) k(1) u w digits_nth [of ?i] by (simp_all add: buf_set_def)
    then have l: "ll2string_loop v nxt dst = ll2string_loop ?w (nxt - 2) ?d2"
      using False by (subst ll2string_loop.simps) (simp add: Let_def not_less)
    have "\<exists>v' nxt' dst'. ll2string_loop ?w (nxt - 2) ?d2 = Some (v', nxt', dst') \<and>
      ll2string_last v' nxt' dst' = Some (take off ?d2 @ dec_nat (unat ?w) @ drop (Suc (unat (nxt - 2))) ?d2)"
    proof (rule "1.IH")
      show "v \<ge> 100" using False by simp
    qed (use s k u "1.prems"(2) in \<open>auto simp: ac_simps\<close>)
    moreover have "drop (Suc k) ?d2 = ?b # ?a # drop (Suc (unat nxt)) dst"
      using drop_update_two [of "Suc k" dst ?a ?b] "1.prems"(2) k(1) by simp
    moreover have "take off ?d2 = take off dst"
    proof -
      have "off \<le> Suc k" using k(2) by simp
      then show ?thesis by simp
    qed
    ultimately show ?thesis unfolding l d u by simp
  qed
qed

lemma ll_abs_nat: "fits 8 v \<Longrightarrow> unat (ll_abs v) = nat \<bar>v\<bar>"
proof -
  assume "fits 8 v"
  then have "\<bar>v\<bar> < 2 ^ 64" by (auto simp: fits_numeral)
  moreover have "ll_abs v = word_of_int \<bar>v\<bar>" by (auto simp: ll_abs_def)
  ultimately show ?thesis by (simp add: unat_eq_nat_uint uint_word_of_int)
qed

lemma length_dec_int: "length (dec_int v) = length (dec_nat (nat \<bar>v\<bar>)) + (if v < 0 then 1 else 0)"
  by (simp add: dec_int_def)

lemma ll2string_ok:
  assumes v: "fits 8 v" and len: "dstlen \<le> length dst"
  shows "ll2string dst dstlen v = Some
    (if length (dec_int v) < dstlen then (dec_int v @ 0 # drop (Suc (length (dec_int v))) dst, int (length (dec_int v)))
     else (dst, 0))"
proof -
  let ?n = "nat \<bar>v\<bar>" and ?neg = "if v < 0 then 1 else 0 :: nat"
  let ?L = "digits10 (ll_abs v) + (if v < 0 then 1 else 0)"
  have abs: "unat (ll_abs v) = ?n" using v by (rule ll_abs_nat)
  have "?n < 10 ^ 19" using v by (auto simp: fits_numeral)
  then have le: "length (dec_nat ?n) \<le> 19" using length_dec_nat_le by fastforce
  have "unat (digits10 (ll_abs v)) = length (dec_nat ?n)" using digits10_correct [of "ll_abs v"] abs by simp
  then have L: "unat ?L = length (dec_int v)" using le by (auto simp: length_dec_int unat_word_ariths)
  show ?thesis
  proof (cases "length (dec_int v) < dstlen")
    case False
    then show ?thesis using L by (simp add: ll2string_def Let_def)
  next
    case True
    let ?l = "length (dec_int v)"
    let ?d = "dst[?l := 0]"
    have pos: "0 < ?l" by (simp add: length_dec_int)
    have nxt: "unat (?L - 1) + 1 = ?neg + length (dec_nat (unat (ll_abs v)))"
    proof -
      have "unat (?L - 1) = ?l - 1" using L pos by (metis unat_gt_0 unat_minus_one unat_eq_zero less_numeral_extra(3))
      with pos abs show ?thesis by (simp add: length_dec_int)
    qed
    then have "unat (?L - 1) < length ?d" using True len abs by (simp add: length_dec_int split: if_splits)
    from ll2string_loop_ok [OF nxt this] obtain v' nxt' dst' where
      lp: "ll2string_loop (ll_abs v) (?L - 1) ?d = Some (v', nxt', dst')"
      "ll2string_last v' nxt' dst' = Some (take ?neg ?d @ dec_nat (unat (ll_abs v)) @ drop (Suc (unat (?L - 1))) ?d)" by blast
    have sl: "Suc (unat (?L - 1)) = ?l" using nxt abs by (simp add: length_dec_int)
    have drop: "drop (Suc (unat (?L - 1))) ?d = 0 # drop (Suc ?l) dst"
      unfolding sl using drop_update_one [of ?l dst 0] True len by simp
    have bs: "buf_set dst ?l 0 = Some ?d" using True len by (simp add: buf_set_def)
    have neq: "\<not> unat ?L \<ge> dstlen" using True L by simp
    have "ll2string dst dstlen v = do {
        dst \<leftarrow> Some (take ?neg ?d @ dec_nat ?n @ 0 # drop (Suc ?l) dst);
        dst \<leftarrow> (if v < 0 then buf_set dst 0 chr_minus else Some dst);
        Some (dst, int ?l) }"
      unfolding ll2string_def Let_def using neq bs lp drop abs L by simp
    also have "\<dots> = Some (dec_int v @ 0 # drop (Suc ?l) dst, int ?l)"
    proof (cases "v < 0")
      case True
      moreover have "0 < length dst" using \<open>length (dec_int v) < dstlen\<close> len by linarith
      ultimately show ?thesis
        by (cases "dst[?l := 0]") (auto simp: buf_set_def dec_int_def)
    next
      case False
      then show ?thesis by (simp add: dec_int_def)
    qed
    finally show ?thesis using True by simp
  qed
qed

section \<open>Parsing\<close>

lemma dval_append: "dval (xs @ [b]) = dval xs * 10 + (unat b - 48)"
  by (simp add: dval_def)

lemma unat_digit: "d < 10 \<Longrightarrow> unat (of_nat (48 + d) :: byte) = 48 + d"
  by (subst unat_of_nat) simp

lemma dval_dec_nat: "dval (dec_nat n) = n"
proof (induction n rule: dec_nat.induct)
  case (1 n)
  show ?case
  proof (cases "n < 10")
    case True
    then show ?thesis using unat_digit [OF True] by (simp add: dec_nat_small dval_def)
  next
    case False
    then have "dec_nat n = dec_nat (n div 10) @ [of_nat (48 + n mod 10)]" by (simp add: dec_nat_large)
    then show ?thesis using 1 False unat_digit [of "n mod 10"] by (simp add: dval_append)
  qed
qed

lemma dec_nat_inject: "dec_nat n = dec_nat m \<longleftrightarrow> n = m"
  using dval_dec_nat by metis

lemma dval_mono: "dval xs \<le> dval (xs @ ys)"
proof (induction ys rule: rev_induct)
  case (snoc y ys)
  have "dval (xs @ ys @ [y]) = dval (xs @ ys) * 10 + (unat y - 48)"
    using dval_append [of "xs @ ys"] by simp
  with snoc show ?case by simp
qed simp

lemma is_digit_iff: "is_digit c \<longleftrightarrow> (\<exists>d < 10. c = of_nat (48 + d))"
proof
  assume "is_digit c"
  then have "48 \<le> unat c" "unat c \<le> 57" by (auto simp: is_digit_def word_le_nat_alt)
  moreover have "c = of_nat (unat c)" by simp
  ultimately show "\<exists>d < 10. c = of_nat (48 + d)" by (intro exI [of _ "unat c - 48"]) auto
next
  assume "\<exists>d < 10. c = of_nat (48 + d)"
  then show "is_digit c" using unat_digit by (auto simp: is_digit_def word_le_nat_alt)
qed

lemma dec_nat_digits: "\<forall>c \<in> set (dec_nat n). is_digit c"
proof (induction n rule: dec_nat.induct)
  case (1 n)
  have "is_digit (of_nat (48 + n mod 10))" unfolding is_digit_iff by (intro exI [of _ "n mod 10"]) simp
  with 1 show ?case
    by (subst dec_nat.simps) (auto simp: is_digit_iff)
qed

lemma ucast_digit: "d < 10 \<Longrightarrow> ucast ((of_nat (48 + d) :: byte) - 48) = (of_nat d :: u64)"
proof -
  assume "d < 10"
  then have "unat (of_nat d :: byte) = d" by (subst unat_of_nat) simp
  moreover have "(of_nat (48 + d) :: byte) - 48 = of_nat d" by simp
  ultimately show ?thesis using of_nat_unat by metis
qed

lemma digit_step:
  assumes "is_digit c" and "\<not> v > ULLONG_MAX div 10" "\<not> v * 10 > ULLONG_MAX - ucast (c - chr_0)"
  shows "unat (v * 10 + ucast (c - chr_0)) = unat v * 10 + (unat c - 48)"
proof -
  obtain d where d: "d < 10" "c = of_nat (48 + d)" using assms(1) is_digit_iff by auto
  then have c: "unat c = 48 + d" using unat_digit by simp
  have u: "ucast (c - chr_0) = (of_nat d :: u64)" unfolding d(2) using d(1) by (rule ucast_digit)
  have ud: "unat (of_nat d :: u64) = d" using d by (simp add: unat_of_nat)
  have "unat v \<le> 1844674407370955161" using assms(2) by (simp add: word_less_nat_alt)
  then have v: "unat (v * 10) = unat v * 10" by (simp add: unat_word_ariths)
  have "unat (ULLONG_MAX - of_nat d :: u64) = 18446744073709551615 - d"
    using d ud by (simp add: unat_sub word_le_nat_alt)
  then have "unat v * 10 + d < 2 ^ 64" using assms(3) d v unfolding u by (simp add: word_less_nat_alt)
  then show ?thesis unfolding u using c v ud by (simp add: unat_word_ariths)
qed

lemma string2ll_loop_sound:
  assumes "string2ll_loop p v = Some (v', [])" "0 < unat v"
  shows "dec_nat (unat v') = dec_nat (unat v) @ p"
  using assms
proof (induction p arbitrary: v)
  case (Cons c p)
  let ?v = "v * 10 + ucast (c - chr_0)"
  have dig: "is_digit c" and no: "\<not> v > ULLONG_MAX div 10" "\<not> v * 10 > ULLONG_MAX - ucast (c - chr_0)"
    and rec: "string2ll_loop p ?v = Some (v', [])"
    using Cons.prems(1) by (auto simp: is_digit_def Let_def split: if_splits)
  note s = digit_step [OF dig no]
  obtain d where d: "d < 10" "c = of_nat (48 + d)" using dig is_digit_iff by auto
  then have v: "unat ?v = unat v * 10 + d" unfolding s using unat_digit by simp
  then have "dec_nat (unat ?v) = dec_nat (unat v) @ [c]" using dec_nat_step Cons.prems(2) d by simp
  with Cons.IH [OF rec] Cons.prems(2) v show ?case by simp
qed simp

lemma string2ll_loop_complete:
  assumes "dec_nat n = dec_nat (unat v) @ p" "0 < unat v" "n < 2 ^ 64"
  shows "string2ll_loop p v = Some (of_nat n, [])"
  using assms
proof (induction p arbitrary: v)
  case Nil
  then have "n = unat v" by (simp add: dec_nat_inject)
  then show ?case by simp
next
  case (Cons c p)
  have dig: "is_digit c" using dec_nat_digits [of n] Cons.prems(1) by simp
  then obtain d where d: "d < 10" "c = of_nat (48 + d)" using is_digit_iff by auto
  then have c: "unat c = 48 + d" using unat_digit by simp
  have u: "ucast (c - chr_0) = (of_nat d :: u64)" unfolding d(2) using d(1) by (rule ucast_digit)
  have app: "dec_nat (unat v * 10 + d) = dec_nat (unat v) @ [c]" using dec_nat_step [OF Cons.prems(2) d(1)] d by simp
  then have n: "dec_nat n = dec_nat (unat v * 10 + d) @ p" using Cons.prems(1) by simp
  have "unat v * 10 + d \<le> n" using dval_mono [of "dec_nat (unat v * 10 + d)" p] n dval_dec_nat by metis
  then have lt: "unat v * 10 + d < 2 ^ 64" using Cons.prems(3) by simp
  have ud: "unat (of_nat d :: u64) = d" using d by (simp add: unat_of_nat)
  have no1: "\<not> v > ULLONG_MAX div 10" using lt by (simp add: word_less_nat_alt)
  have v: "unat (v * 10) = unat v * 10" using lt by (simp add: unat_word_ariths)
  have "unat (ULLONG_MAX - of_nat d :: u64) = 18446744073709551615 - d"
    using d ud by (simp add: unat_sub word_le_nat_alt)
  then have no2: "\<not> v * 10 > ULLONG_MAX - ucast (c - chr_0)" unfolding u using lt v by (simp add: word_less_nat_alt)
  have "unat (v * 10 + ucast (c - chr_0)) = unat v * 10 + d" using digit_step [OF dig no1 no2] c by simp
  with Cons.IH [of "v * 10 + ucast (c - chr_0)"] n Cons.prems no1 no2 dig show ?case
    by (simp add: is_digit_def Let_def)
qed

lemma dec_nat_hd:
  assumes "0 < n"
  obtains c p where "dec_nat n = c # p" "chr_1 \<le> c" "c \<le> chr_9" "dec_nat n = dec_nat (unat (c - chr_0)) @ p"
    "0 < unat (c - chr_0)"
proof -
  have "\<exists>d p. 0 < d \<and> d < 10 \<and> dec_nat n = dec_nat d @ p"
    using assms
  proof (induction n rule: dec_nat.induct)
    case (1 n)
    show ?case
    proof (cases "n < 10")
      case True
      with 1 show ?thesis by (intro exI [of _ n] exI [of _ "[]"]) simp
    next
      case False
      then obtain d p where "0 < d" "d < 10" "dec_nat (n div 10) = dec_nat d @ p" using 1 by fastforce
      with False dec_nat_large [of n] show ?thesis by auto
    qed
  qed
  then obtain d p where d: "0 < d" "d < 10" "dec_nat n = dec_nat d @ p" by blast
  let ?c = "of_nat (48 + d) :: byte"
  have "unat (?c - chr_0) = d" using d by (simp add: unat_of_nat)
  moreover have "chr_1 \<le> ?c" "?c \<le> chr_9" using unat_digit [OF d(2)] d by (simp_all add: word_le_nat_alt)
  moreover have "dec_nat n = ?c # p" using d by (simp add: dec_nat_small)
  ultimately show ?thesis using d by (intro that [of ?c p]) auto
qed

lemma sint_word_of_int: "fits 8 x \<Longrightarrow> sint (word_of_int x :: u64) = x"
  by (simp add: signed_of_int signed_take_bit_int_eq_self fits_def)

lemma string2ll_neg:
  "(if v > LLONG_MAX_u + 1 then None else Some (sint (- v))) =
   (if fits 8 (- int (unat v)) then Some (- int (unat v)) else None)"
proof -
  have gt: "v > LLONG_MAX_u + 1 \<longleftrightarrow> \<not> unat v \<le> 9223372036854775808" unfolding word_less_nat_alt by (simp, linarith)
  have f: "fits 8 (- int (unat v)) \<longleftrightarrow> unat v \<le> 9223372036854775808" unfolding fits_numeral by linarith
  have "- v = word_of_int (- int (unat v))" by simp
  then have "fits 8 (- int (unat v)) \<Longrightarrow> sint (- v) = - int (unat v)" using sint_word_of_int by metis
  then show ?thesis unfolding gt f [symmetric] by simp
qed

lemma string2ll_pos:
  "(if v > LLONG_MAX_u then None else Some (sint v)) =
   (if fits 8 (int (unat v)) then Some (int (unat v)) else None)"
proof -
  have gt: "v > LLONG_MAX_u \<longleftrightarrow> \<not> unat v < 9223372036854775808" unfolding word_less_nat_alt by (simp, linarith)
  have f: "fits 8 (int (unat v)) \<longleftrightarrow> unat v < 9223372036854775808" unfolding fits_numeral by linarith
  have "v = word_of_int (int (unat v))" by simp
  then have "fits 8 (int (unat v)) \<Longrightarrow> sint v = int (unat v)" using sint_word_of_int by metis
  then show ?thesis unfolding gt f [symmetric] by simp
qed

lemma string2ll_body_eq:
  assumes z: "1 < slen \<or> p = [] \<or> hd p \<noteq> chr_0"
  shows "string2ll_body p slen negative = Some v \<longleftrightarrow>
    (\<exists>n > 0. p = dec_nat n \<and> v = (if negative then - int n else int n) \<and> fits 8 v)"
proof (cases "\<exists>c p'. p = c # p' \<and> chr_1 \<le> c \<and> c \<le> chr_9")
  case False
  then have "string2ll_body p slen negative = None" using z by (auto simp: string2ll_body_def split: list.splits)
  moreover have "p \<noteq> dec_nat n" if "0 < n" for n using dec_nat_hd [OF that] False by metis
  ultimately show ?thesis by auto
next
  case True
  then obtain c p' where p: "p = c # p'" "chr_1 \<le> c" "c \<le> chr_9" by blast
  let ?v = "ucast (c - chr_0) :: u64"
  let ?sg = "\<lambda>n :: nat. if negative then - int n else int n"
  have "49 \<le> unat c" "unat c \<le> 57" using p by (auto simp: word_le_nat_alt)
  then obtain d where d: "0 < d" "d < 10" "unat c = 48 + d" by (intro that [of "unat c - 48"]) auto
  moreover have "c = of_nat (unat c)" by simp
  ultimately have c: "c = of_nat (48 + d)" by simp
  have v: "?v = of_nat d" unfolding c using d(2) by (rule ucast_digit)
  have uv: "unat ?v = d" unfolding v using d by (simp add: unat_of_nat)
  have dd: "dec_nat (unat ?v) = [c]" unfolding uv using d dec_nat_small [of d] by (simp add: c)
  have body: "string2ll_body p slen negative = do {
      (w, rest) \<leftarrow> string2ll_loop p' ?v;
      if rest \<noteq> [] then None else if fits 8 (?sg (unat w)) then Some (?sg (unat w)) else None }"
    unfolding string2ll_body_def p(1) list.case string2ll_neg string2ll_pos using p(2,3)
    by (cases "string2ll_loop p' ?v") auto
  show ?thesis
  proof
    assume "string2ll_body p slen negative = Some v"
    then obtain w where w: "string2ll_loop p' ?v = Some (w, [])" "fits 8 (?sg (unat w))" "v = ?sg (unat w)"
      unfolding body by (auto split: bind_splits if_splits)
    then have eq: "dec_nat (unat w) = p" using string2ll_loop_sound [OF w(1)] uv d dd p by simp
    moreover have "0 < unat w"
    proof (rule ccontr)
      assume "\<not> 0 < unat w"
      then have "p = [chr_0]" using eq by (simp add: dec_nat_small)
      with p show False by simp
    qed
    ultimately show "\<exists>n > 0. p = dec_nat n \<and> v = ?sg n \<and> fits 8 v" using w by (intro exI [of _ "unat w"]) auto
  next
    assume "\<exists>n > 0. p = dec_nat n \<and> v = ?sg n \<and> fits 8 v"
    then obtain n where n: "0 < n" "p = dec_nat n" "v = ?sg n" "fits 8 v" by blast
    have lt: "n < 2 ^ 64" using n(3,4) by (auto simp: fits_numeral split: if_splits)
    have "string2ll_loop p' ?v = Some (of_nat n, [])"
      using n p dd uv d lt by (intro string2ll_loop_complete) auto
    moreover have "unat (of_nat n :: u64) = n" using lt by (simp add: unat_of_nat)
    ultimately show "string2ll_body p slen negative = Some v" unfolding body using n by (cases negative) auto
  qed
qed

lemma dec_nat_not_minus: "dec_nat n \<noteq> chr_minus # p"
  using dec_nat_digits [of n] by (auto simp: is_digit_def)

lemma dec_nat_zero: "dec_nat 0 = [chr_0]"
  by (simp add: dec_nat_small)

lemma dec_int_pos: "0 < n \<Longrightarrow> dec_int (int n) = dec_nat n" "0 < n \<Longrightarrow> dec_int (- int n) = chr_minus # dec_nat n"
  by (simp_all add: dec_int_def)

lemma string2ll_iff: "string2ll s = Some v \<longleftrightarrow> fits 8 v \<and> s = dec_int v"
proof (cases "s = [chr_0]")
  case True
  have "dec_int v = [chr_0] \<longleftrightarrow> v = 0"
    using dec_nat_inject [of "nat v" 0] by (auto simp: dec_int_def dec_nat_zero)
  with True show ?thesis by (auto simp: string2ll_def fits_numeral)
next
  case nz: False
  have v0: "fits 8 v \<and> s = dec_int v \<Longrightarrow> v \<noteq> 0" using nz by (auto simp: dec_int_def dec_nat_zero)
  show ?thesis
  proof (cases "\<exists>p. s = chr_minus # p")
    case True
    then obtain p where p: "s = chr_minus # p" by blast
    then have "string2ll s = string2ll_body p (length s) True" by (simp add: string2ll_def)
    moreover have "1 < length s \<or> p = [] \<or> hd p \<noteq> chr_0" using p by (cases p) auto
    ultimately have e: "string2ll s = Some v \<longleftrightarrow> (\<exists>n > 0. p = dec_nat n \<and> v = - int n \<and> fits 8 v)"
      using string2ll_body_eq [of "length s" p True v] by simp
    have "fits 8 v \<and> s = dec_int v \<longleftrightarrow> (\<exists>n > 0. p = dec_nat n \<and> v = - int n \<and> fits 8 v)"
    proof
      assume a: "fits 8 v \<and> s = dec_int v"
      have "\<not> 0 < v"
      proof
        assume "0 < v"
        then have "s = dec_nat (nat v)" "0 < nat v" using a by (auto simp: dec_int_def)
        then show False using dec_nat_not_minus p by metis
      qed
      with v0 [OF a] a p show "\<exists>n > 0. p = dec_nat n \<and> v = - int n \<and> fits 8 v"
        by (intro exI [of _ "nat (- v)"]) (auto simp: dec_int_def)
    qed (use p dec_int_pos(2) in auto)
    with e show ?thesis by simp
  next
    case False
    have "string2ll s = string2ll_body s (length s) False"
      using nz False by (cases s) (auto simp: string2ll_def string2ll_body_def)
    moreover have "1 < length s \<or> s = [] \<or> hd s \<noteq> chr_0" using nz by (cases s; cases "tl s") auto
    ultimately have e: "string2ll s = Some v \<longleftrightarrow> (\<exists>n > 0. s = dec_nat n \<and> v = int n \<and> fits 8 v)"
      using string2ll_body_eq [of "length s" s False v] by simp
    have "fits 8 v \<and> s = dec_int v \<longleftrightarrow> (\<exists>n > 0. s = dec_nat n \<and> v = int n \<and> fits 8 v)"
    proof
      assume a: "fits 8 v \<and> s = dec_int v"
      then have "\<not> v < 0" using False by (auto simp: dec_int_def)
      with v0 [OF a] a show "\<exists>n > 0. s = dec_nat n \<and> v = int n \<and> fits 8 v"
        by (intro exI [of _ "nat v"]) (auto simp: dec_int_def)
    qed (use dec_int_pos(1) in auto)
    with e show ?thesis by simp
  qed
qed

lemma memtoll_ok:
  assumes sg: "neg \<in> {[], [chr_minus]}" and ds: "ds \<noteq> []" "\<forall>c \<in> set ds. is_digit c" "length (neg @ ds) < 128"
    and u: "u = [] \<or> \<not> is_digit (hd u)" "memtoll_unit u = Some mul"
    and v: "v = (if neg = [] then int (dval ds) else - int (dval ds))" "fits 8 v" "fits 8 (v * mul)"
  shows "memtoll einval (neg @ ds @ u) = Some (v * mul, False)"
proof -
  have nd: "\<not> is_digit chr_minus" by (simp add: is_digit_def)
  have hd: "hd ds \<noteq> chr_minus" using ds nd by (cases ds) auto
  have tl: "(if neg @ ds @ u \<noteq> [] \<and> hd (neg @ ds @ u) = chr_minus then tl (neg @ ds @ u) else neg @ ds @ u) = ds @ u"
    using sg hd ds(1) by auto
  have dw: "dropWhile is_digit (ds @ u) = u"
    using ds(2) u(1) by (cases u) (auto simp: dropWhile_append2)
  have tk: "take (length (neg @ ds @ u) - length u) (neg @ ds @ u) = neg @ ds" by simp
  have tw: "takeWhile is_digit ds = ds" using ds(2) by (simp add: takeWhile_eq_all_conv)
  have rng: "\<not> v < INT64_MIN" "\<not> v > INT64_MAX" using v(2) by (auto simp: fits_numeral)
  have "strtoll (neg @ ds) = (v, [])"
  proof (cases "neg = []")
    case True
    then show ?thesis using rng v(1) ds(1) hd by (simp add: strtoll_def Let_def tw)
  next
    case False
    then have "neg = [chr_minus]" using sg by simp
    then show ?thesis using rng v(1) ds(1) by (simp add: strtoll_def Let_def tw)
  qed
  then show ?thesis
    unfolding memtoll_def Let_def tl dw tk u(2) using ds v(3) by simp
qed

section \<open>Correctness\<close>

text \<open>
  (C19) \<open>ll2string\<close> writes the canonical decimal notation of every \<open>long long\<close>, \<open>LLONG_MIN\<close> included, and
  its terminator, leaves the rest of the buffer alone and returns the length; when the
  buffer is too short for both it returns 0 and writes nothing. It never writes outside of the buffer.
\<close>

theorem ll2string_correct:
  assumes "fits 8 v" "dstlen \<le> length dst"
  shows "ll2string dst dstlen v = Some
    (if length (dec_int v) < dstlen then (dec_int v @ 0 # drop (Suc (length (dec_int v))) dst, int (length (dec_int v)))
     else (dst, 0))"
  by (rule ll2string_ok [OF assms])

theorem ll2string_correct_witness:
  "ll2string (replicate 32 7) 32 INT64_MIN =
     Some (dec_int INT64_MIN @ 0 # replicate 11 7, 20) \<and> ll2string (replicate 5 7) 5 12345 = Some (replicate 5 7, 0)"
proof -
  have "length (dec_nat 9223372036854775808) = Suc 18" by (rule length_dec_nat) simp_all
  then have "length (dec_int INT64_MIN) = 20" by (simp add: length_dec_int)
  moreover have "length (dec_nat 12345) = Suc 4" by (rule length_dec_nat) simp_all
  then have "length (dec_int 12345) = 5" by (simp add: length_dec_int)
  ultimately show ?thesis
    using ll2string_correct [of INT64_MIN 32 "replicate 32 7"] ll2string_correct [of 12345 5 "replicate 5 7"]
    by (simp add: fits_numeral)
qed

text \<open>
  (C18) \<open>string2ll\<close> accepts exactly the canonical decimal notations of the \<open>long long\<close> values and
  returns the value denoted: no other string (leading zeros, spaces, a lone sign, minus zero, values out of
  range) is accepted. Hence a string it accepts is recovered from the number by \<open>ll2string\<close>.
\<close>

theorem string2ll_correct: "string2ll s = Some v \<longleftrightarrow> fits 8 v \<and> s = dec_int v"
  by (rule string2ll_iff)

text \<open>
  \<open>digits10\<close> and \<open>sdigits10\<close> return the length of the decimal notation of their argument.
\<close>

theorem digits10_is_length:
  assumes "fits 8 w"
  shows "unat (digits10 v) = length (dec_nat (unat v)) \<and> unat (sdigits10 w) = length (dec_int w)"
proof -
  have "nat \<bar>w\<bar> < 10 ^ 19" using assms by (auto simp: fits_numeral)
  then have "length (dec_nat (nat \<bar>w\<bar>)) \<le> 19" using length_dec_nat_le by fastforce
  then have "unat (sdigits10 w) = length (dec_int w)"
    using digits10_correct [of "ll_abs w"] ll_abs_nat [OF assms]
    by (auto simp: sdigits10_def length_dec_int unat_word_ariths)
  then show ?thesis using digits10_correct by simp
qed

theorem digits10_is_length_witness:
  "unat (digits10 1000000000000) = length (dec_nat 1000000000000) \<and> unat (sdigits10 (-1)) = length (dec_int (-1))"
  using digits10_is_length [of "-1" 1000000000000] by (simp add: fits_numeral)




end
