(* ===== verification/Dict_Types.thy ===== *)
theory Dict_Types
  imports Dict Util
begin

unbundle bit_operations_syntax

text \<open>
  The hash function of \<open>siphash.c\<close> (SipHash with one compression and two finalization rounds, and its case
  insensitive variant) and the table types of \<open>server.c\<close> built on it. An \<open>sds\<close> string is the
  list of its bytes; the 16-byte seed \<open>dict_hash_function_seed\<close> is an argument. Destructors have no effect
  on the association and are left out of the types.

  The table types with binary safe keys, and the one whose keys are string objects that may be
  integer encoded, satisfy the laws of \<open>dict_type\<close>; the case insensitive ones do as long as no
  key has a NUL byte inside.
\<close>

section \<open>siphash.c\<close>

definition siptlw :: "byte \<Rightarrow> byte" where
  "siptlw c = (if 65 \<le> c \<and> c \<le> 90 then c + (97 - 65) else c)"

definition ROTL :: "u64 \<Rightarrow> nat \<Rightarrow> u64" where
  "ROTL x b = push_bit b x OR drop_bit (64 - b) x"

definition U8TO64_LE :: "byte list \<Rightarrow> u64" where
  "U8TO64_LE p =
     ucast (p ! 0) OR push_bit 8 (ucast (p ! 1)) OR
     push_bit 16 (ucast (p ! 2)) OR push_bit 24 (ucast (p ! 3)) OR
     push_bit 32 (ucast (p ! 4)) OR push_bit 40 (ucast (p ! 5)) OR
     push_bit 48 (ucast (p ! 6)) OR push_bit 56 (ucast (p ! 7))"

definition U8TO64_LE_NOCASE :: "byte list \<Rightarrow> u64" where
  "U8TO64_LE_NOCASE p =
     ucast (siptlw (p ! 0)) OR push_bit 8 (ucast (siptlw (p ! 1))) OR
     push_bit 16 (ucast (siptlw (p ! 2))) OR push_bit 24 (ucast (siptlw (p ! 3))) OR
     push_bit 32 (ucast (siptlw (p ! 4))) OR push_bit 40 (ucast (siptlw (p ! 5))) OR
     push_bit 48 (ucast (siptlw (p ! 6))) OR push_bit 56 (ucast (siptlw (p ! 7)))"

record sip_state =
  v0 :: u64
  v1 :: u64
  v2 :: u64
  v3 :: u64

definition SIPROUND :: "sip_state \<Rightarrow> sip_state" where
  "SIPROUND s =
     (let s = s\<lparr>v0 := v0 s + v1 s\<rparr>;
          s = s\<lparr>v1 := ROTL (v1 s) 13\<rparr>;
          s = s\<lparr>v1 := v1 s XOR v0 s\<rparr>;
          s = s\<lparr>v0 := ROTL (v0 s) 32\<rparr>;
          s = s\<lparr>v2 := v2 s + v3 s\<rparr>;
          s = s\<lparr>v3 := ROTL (v3 s) 16\<rparr>;
          s = s\<lparr>v3 := v3 s XOR v2 s\<rparr>;
          s = s\<lparr>v0 := v0 s + v3 s\<rparr>;
          s = s\<lparr>v3 := ROTL (v3 s) 21\<rparr>;
          s = s\<lparr>v3 := v3 s XOR v0 s\<rparr>;
          s = s\<lparr>v2 := v2 s + v1 s\<rparr>;
          s = s\<lparr>v1 := ROTL (v1 s) 17\<rparr>;
          s = s\<lparr>v1 := v1 s XOR v2 s\<rparr>
      in s\<lparr>v2 := ROTL (v2 s) 32\<rparr>)"

definition sip_init :: "byte list \<Rightarrow> sip_state" where
  "sip_init k =
     (let k0 = U8TO64_LE k; k1 = U8TO64_LE (drop 8 k)
      in \<lparr>v0 = 0x736f6d6570736575 XOR k0, v1 = 0x646f72616e646f6d XOR k1,
          v2 = 0x6c7967656e657261 XOR k0, v3 = 0x7465646279746573 XOR k1\<rparr>)"

text \<open>
  The loop over whole blocks; \<open>rd\<close> is the way a block is read, the only difference between the
  two variants. The rest of the input, less than eight bytes, is returned.
\<close>

function sip_blocks :: "(byte list \<Rightarrow> u64) \<Rightarrow> byte list \<Rightarrow> sip_state \<Rightarrow> byte list \<times> sip_state" where
  "sip_blocks rd p s =
     (if length p < 8 then (p, s)
      else (let m = rd p;
                s = s\<lparr>v3 := v3 s XOR m\<rparr>;
                s = SIPROUND s
            in sip_blocks rd (drop 8 p) (s\<lparr>v0 := v0 s XOR m\<rparr>)))"
  by pat_completeness auto
termination
  by (relation "measure (\<lambda>(rd, p, s). length p)") auto

declare sip_blocks.simps [simp del]

text \<open>The fall-through cases of the \<open>switch\<close>, from the last of the left bytes to the first.\<close>

definition sip_tail :: "byte list \<Rightarrow> u64 \<Rightarrow> u64" where
  "sip_tail p b =
     (let left = length p;
          b = (if left \<ge> 7 then b OR push_bit 48 (ucast (p ! 6)) else b);
          b = (if left \<ge> 6 then b OR push_bit 40 (ucast (p ! 5)) else b);
          b = (if left \<ge> 5 then b OR push_bit 32 (ucast (p ! 4)) else b);
          b = (if left \<ge> 4 then b OR push_bit 24 (ucast (p ! 3)) else b);
          b = (if left \<ge> 3 then b OR push_bit 16 (ucast (p ! 2)) else b);
          b = (if left \<ge> 2 then b OR push_bit 8 (ucast (p ! 1)) else b)
      in if left \<ge> 1 then b OR ucast (p ! 0) else b)"

definition sip_final :: "sip_state \<Rightarrow> u64 \<Rightarrow> u64" where
  "sip_final s b =
     (let s = SIPROUND (s\<lparr>v3 := v3 s XOR b\<rparr>);
          s = s\<lparr>v0 := v0 s XOR b\<rparr>;
          s = SIPROUND (SIPROUND (s\<lparr>v2 := v2 s XOR 0xff\<rparr>))
      in v0 s XOR v1 s XOR v2 s XOR v3 s)"

definition siphash :: "byte list \<Rightarrow> byte list \<Rightarrow> u64" where
  "siphash inp k =
     (case sip_blocks U8TO64_LE inp (sip_init k) of (rest, s) \<Rightarrow>
        sip_final s (sip_tail rest (push_bit 56 (of_nat (length inp)))))"

definition siphash_nocase :: "byte list \<Rightarrow> byte list \<Rightarrow> u64" where
  "siphash_nocase inp k =
     (case sip_blocks U8TO64_LE_NOCASE inp (sip_init k) of (rest, s) \<Rightarrow>
        sip_final s (sip_tail (map siptlw rest) (push_bit 56 (of_nat (length inp)))))"

section \<open>Keys\<close>

text \<open>
  Lengths are passed as \<open>int\<close>: \<open>c_int\<close> is the conversion from \<open>size_t\<close> and \<open>c_size\<close> the one
  back. They are the identity below \<open>2 ^ 31\<close>; the server refuses strings above 512 MB.
\<close>

definition c_int :: "nat \<Rightarrow> int" where
  "c_int n = sint (of_nat n :: u32)"

definition c_size :: "int \<Rightarrow> nat" where
  "c_size n = unat (word_of_int n :: u64)"

definition dictGenHashFunction :: "byte list \<Rightarrow> byte list \<Rightarrow> int \<Rightarrow> u64" where
  "dictGenHashFunction seed key len = siphash (take (c_size len) key) seed"

definition dictGenCaseHashFunction :: "byte list \<Rightarrow> byte list \<Rightarrow> int \<Rightarrow> u64" where
  "dictGenCaseHashFunction seed buf len = siphash_nocase (take (c_size len) buf) seed"

definition dictSdsKeyCompare :: "byte list \<Rightarrow> byte list \<Rightarrow> bool" where
  "dictSdsKeyCompare key1 key2 =
     (let l1 = c_int (length key1); l2 = c_int (length key2)
      in if l1 \<noteq> l2 then False else take (c_size l1) key1 = take (c_size l1) key2)"

text \<open>\<open>strcasecmp\<close> stops at the first NUL byte.\<close>

definition dictSdsKeyCaseCompare :: "byte list \<Rightarrow> byte list \<Rightarrow> bool" where
  "dictSdsKeyCaseCompare key1 key2 =
     strcaseeq (takeWhile (\<lambda>c. c \<noteq> 0) key1) (takeWhile (\<lambda>c. c \<noteq> 0) key2)"

definition dictSdsHash :: "byte list \<Rightarrow> byte list \<Rightarrow> u64" where
  "dictSdsHash seed key = dictGenHashFunction seed key (c_int (length key))"

definition dictSdsCaseHash :: "byte list \<Rightarrow> byte list \<Rightarrow> u64" where
  "dictSdsCaseHash seed key = dictGenCaseHashFunction seed key (c_int (length key))"

text \<open>String objects: an \<open>sds\<close> or, with \<open>OBJ_ENCODING_INT\<close>, a \<open>long\<close>.\<close>

datatype string_obj = Sds_obj "byte list" | Int_obj "64 word"

definition obj_decoded :: "string_obj \<Rightarrow> byte list" where
  "obj_decoded ob = (case ob of Sds_obj s \<Rightarrow> s | Int_obj n \<Rightarrow>
     (case ll2string (replicate 32 0) 32 (sint n) of Some (buf, len) \<Rightarrow> take (nat len) buf | None \<Rightarrow> []))"

definition dictEncObjKeyCompare :: "string_obj \<Rightarrow> string_obj \<Rightarrow> bool" where
  "dictEncObjKeyCompare o1 o2 =
     (case (o1, o2) of (Int_obj n1, Int_obj n2) \<Rightarrow> n1 = n2
      | _ \<Rightarrow> dictSdsKeyCompare (obj_decoded o1) (obj_decoded o2))"

definition dictEncObjHash :: "byte list \<Rightarrow> string_obj \<Rightarrow> u64" where
  "dictEncObjHash seed ob =
     (case ob of Sds_obj s \<Rightarrow> dictGenHashFunction seed s (c_int (length s))
      | Int_obj n \<Rightarrow>
          (case ll2string (replicate 32 0) 32 (sint n) of
             Some (buf, len) \<Rightarrow> dictGenHashFunction seed buf len | None \<Rightarrow> 0))"

section \<open>Table types\<close>

definition setDictType :: "byte list \<Rightarrow> (byte list, 'v) dictType" where
  "setDictType seed = \<lparr>hashFunction = dictSdsHash seed, keyDup = None, valDup = None, keyCompare = Some dictSdsKeyCompare\<rparr>"

definition zsetDictType :: "byte list \<Rightarrow> (byte list, 'v) dictType" where
  "zsetDictType seed = \<lparr>hashFunction = dictSdsHash seed, keyDup = None, valDup = None, keyCompare = Some dictSdsKeyCompare\<rparr>"

definition dbDictType :: "byte list \<Rightarrow> (byte list, 'v) dictType" where
  "dbDictType seed = \<lparr>hashFunction = dictSdsHash seed, keyDup = None, valDup = None, keyCompare = Some dictSdsKeyCompare\<rparr>"

definition keyptrDictType :: "byte list \<Rightarrow> (byte list, 'v) dictType" where
  "keyptrDictType seed = \<lparr>hashFunction = dictSdsHash seed, keyDup = None, valDup = None, keyCompare = Some dictSdsKeyCompare\<rparr>"

definition hashDictType :: "byte list \<Rightarrow> (byte list, 'v) dictType" where
  "hashDictType seed = \<lparr>hashFunction = dictSdsHash seed, keyDup = None, valDup = None, keyCompare = Some dictSdsKeyCompare\<rparr>"

definition commandTableDictType :: "byte list \<Rightarrow> (byte list, 'v) dictType" where
  "commandTableDictType seed = \<lparr>hashFunction = dictSdsCaseHash seed, keyDup = None, valDup = None,
     keyCompare = Some dictSdsKeyCaseCompare\<rparr>"

definition clusterNodesDictType :: "byte list \<Rightarrow> (byte list, 'v) dictType" where
  "clusterNodesDictType seed = \<lparr>hashFunction = dictSdsHash seed, keyDup = None, valDup = None, keyCompare = Some dictSdsKeyCompare\<rparr>"

definition migrateCacheDictType :: "byte list \<Rightarrow> (byte list, 'v) dictType" where
  "migrateCacheDictType seed = \<lparr>hashFunction = dictSdsHash seed, keyDup = None, valDup = None, keyCompare = Some dictSdsKeyCompare\<rparr>"

definition shaScriptObjectDictType :: "byte list \<Rightarrow> (byte list, 'v) dictType" where
  "shaScriptObjectDictType seed = \<lparr>hashFunction = dictSdsCaseHash seed, keyDup = None, valDup = None,
     keyCompare = Some dictSdsKeyCaseCompare\<rparr>"

definition clusterNodesBlackListDictType :: "byte list \<Rightarrow> (byte list, 'v) dictType" where
  "clusterNodesBlackListDictType seed = \<lparr>hashFunction = dictSdsCaseHash seed, keyDup = None, valDup = None,
     keyCompare = Some dictSdsKeyCaseCompare\<rparr>"

definition modulesDictType :: "byte list \<Rightarrow> (byte list, 'v) dictType" where
  "modulesDictType seed = \<lparr>hashFunction = dictSdsCaseHash seed, keyDup = None, valDup = None,
     keyCompare = Some dictSdsKeyCaseCompare\<rparr>"

definition replScriptCacheDictType :: "byte list \<Rightarrow> (byte list, 'v) dictType" where
  "replScriptCacheDictType seed = \<lparr>hashFunction = dictSdsCaseHash seed, keyDup = None, valDup = None,
     keyCompare = Some dictSdsKeyCaseCompare\<rparr>"

definition objectKeyPointerValueDictType :: "byte list \<Rightarrow> (string_obj, 'v) dictType" where
  "objectKeyPointerValueDictType seed = \<lparr>hashFunction = dictEncObjHash seed, keyDup = None, valDup = None,
     keyCompare = Some dictEncObjKeyCompare\<rparr>"

text \<open>\<open>htNeedsResize\<close>: \<open>HASHTABLE_MIN_FILL\<close> is 10 per cent; \<open>long long\<close> arithmetic.\<close>

definition htNeedsResize :: "('k, 'v) dict \<Rightarrow> bool" where
  "htNeedsResize d =
     (let sz = sint (dictSlots d); used = sint (dictSize d)
      in sz > 4 \<and> used * 100 div sz < 10)"

section \<open>Laws\<close>

lemma siptlw_tolower: "siptlw = tolower"
  by (simp add: siptlw_def tolower_def fun_eq_iff)

lemma U8TO64_LE_NOCASE: "8 \<le> length p \<Longrightarrow> U8TO64_LE_NOCASE p = U8TO64_LE (map siptlw p)"
proof -
  assume "8 \<le> length p"
  then have "map siptlw p ! i = siptlw (p ! i)" if "i < 8" for i using that by (intro nth_map) simp
  then show ?thesis unfolding U8TO64_LE_NOCASE_def U8TO64_LE_def by (simp del: nth_map)
qed

lemma sip_blocks_nocase:
  "sip_blocks U8TO64_LE (map siptlw p) s = (case sip_blocks U8TO64_LE_NOCASE p s of (rest, s') \<Rightarrow> (map siptlw rest, s'))"
proof (induction U8TO64_LE_NOCASE p s rule: sip_blocks.induct)
  case (1 p s)
  show ?case
  proof (cases "length p < 8")
    case True
    then show ?thesis by (simp add: sip_blocks.simps)
  next
    case False
    then show ?thesis
      using 1 U8TO64_LE_NOCASE [of p] by (subst (1 2) sip_blocks.simps) (simp add: Let_def drop_map)
  qed
qed

lemma siphash_nocase_eq: "siphash_nocase inp k = siphash (map siptlw inp) k"
  by (simp add: siphash_nocase_def siphash_def sip_blocks_nocase split: prod.splits)

lemma c_int_small: "n < 2 ^ 31 \<Longrightarrow> c_int n = int n"
  unfolding c_int_def by (subst sint_u32) (simp_all add: unat_of_nat)

lemma c_size_small: "n < 2 ^ 31 \<Longrightarrow> c_size (int n) = n"
  by (simp add: c_size_def unat_of_nat)

lemma sds_compare_refl: "dictSdsKeyCompare k k"
  by (simp add: dictSdsKeyCompare_def)

lemma sds_compare_sym: "dictSdsKeyCompare k k' \<Longrightarrow> dictSdsKeyCompare k' k"
  by (auto simp: dictSdsKeyCompare_def Let_def split: if_splits)

lemma sds_compare_trans: "dictSdsKeyCompare k k' \<Longrightarrow> dictSdsKeyCompare k' k'' \<Longrightarrow> dictSdsKeyCompare k k''"
  by (auto simp: dictSdsKeyCompare_def Let_def split: if_splits)

lemma sds_compare_hash: "dictSdsKeyCompare k k' \<Longrightarrow> dictSdsHash seed k = dictSdsHash seed k'"
  by (auto simp: dictSdsKeyCompare_def dictSdsHash_def dictGenHashFunction_def Let_def split: if_splits)

lemmas sds_compare = sds_compare_refl sds_compare_sym sds_compare_trans sds_compare_hash

lemma sds_compare_small:
  assumes "length k < 2 ^ 31" "length k' < 2 ^ 31"
  shows "dictSdsKeyCompare k k' \<longleftrightarrow> k = k'"
  using assms by (auto simp: dictSdsKeyCompare_def Let_def c_int_small c_size_small)

lemma sds_dict_type:
  "dict_type \<lparr>hashFunction = dictSdsHash seed, keyDup = None, valDup = None, keyCompare = Some dictSdsKeyCompare\<rparr>"
  by unfold_locales (auto simp: dictCompareKeys_def dictHashKey_def intro: sds_compare)

interpretation set_dict: dict_type "setDictType seed" for seed
  unfolding setDictType_def by (rule sds_dict_type)

interpretation zset_dict: dict_type "zsetDictType seed" for seed
  unfolding zsetDictType_def by (rule sds_dict_type)

interpretation db_dict: dict_type "dbDictType seed" for seed
  unfolding dbDictType_def by (rule sds_dict_type)

interpretation expires_dict: dict_type "keyptrDictType seed" for seed
  unfolding keyptrDictType_def by (rule sds_dict_type)

interpretation hash_dict: dict_type "hashDictType seed" for seed
  unfolding hashDictType_def by (rule sds_dict_type)

interpretation cluster_nodes_dict: dict_type "clusterNodesDictType seed" for seed
  unfolding clusterNodesDictType_def by (rule sds_dict_type)

interpretation migrate_cache_dict: dict_type "migrateCacheDictType seed" for seed
  unfolding migrateCacheDictType_def by (rule sds_dict_type)

lemma fits_sint: "fits 8 (sint (n :: u64))"
  using sint_ge [of n] sint_lt [of n] by (simp add: fits_def)

lemma length_dec_int_le: "fits 8 v \<Longrightarrow> length (dec_int v) \<le> 20"
proof -
  assume "fits 8 v"
  then have "nat \<bar>v\<bar> < 10 ^ 19" by (auto simp: fits_numeral)
  then have "length (dec_nat (nat \<bar>v\<bar>)) \<le> 19" using length_dec_nat_le by fastforce
  then show ?thesis by (auto simp: length_dec_int)
qed

lemma dec_int_inject: "fits 8 v \<Longrightarrow> fits 8 w \<Longrightarrow> dec_int v = dec_int w \<longleftrightarrow> v = w"
  using string2ll_iff by (metis option.inject)

lemma int_obj_string:
  "ll2string (replicate 32 0) 32 (sint (n :: u64)) =
     Some (dec_int (sint n) @ 0 # drop (Suc (length (dec_int (sint n)))) (replicate 32 0), int (length (dec_int (sint n))))"
  using ll2string_ok [OF fits_sint, of 32 "replicate 32 0" n] length_dec_int_le [OF fits_sint [of n]] by simp

lemma obj_decoded_simps: "obj_decoded (Sds_obj s) = s" "obj_decoded (Int_obj n) = dec_int (sint n)"
  by (simp_all add: obj_decoded_def int_obj_string)

lemma enc_compare: "dictEncObjKeyCompare o1 o2 \<longleftrightarrow> dictSdsKeyCompare (obj_decoded o1) (obj_decoded o2)"
proof (cases "\<exists>n m. o1 = Int_obj n \<and> o2 = Int_obj m")
  case True
  then obtain n m where o: "o1 = Int_obj n" "o2 = Int_obj m" by blast
  have "length (dec_int (sint n)) < 2 ^ 31" "length (dec_int (sint m)) < 2 ^ 31"
    using length_dec_int_le [OF fits_sint [of n]] length_dec_int_le [OF fits_sint [of m]] by simp_all
  then have "dictSdsKeyCompare (obj_decoded o1) (obj_decoded o2) \<longleftrightarrow> sint n = sint m"
    using sds_compare_small dec_int_inject [OF fits_sint fits_sint] by (simp add: o obj_decoded_simps)
  then show ?thesis using signed_word_eqI [of n m] by (auto simp: o dictEncObjKeyCompare_def)
next
  case False
  then show ?thesis by (auto simp: dictEncObjKeyCompare_def split: string_obj.splits)
qed

lemma enc_hash: "dictEncObjHash seed ob = dictSdsHash seed (obj_decoded ob)"
proof (cases ob)
  case (Int_obj n)
  have "length (dec_int (sint n)) < 2 ^ 31" using length_dec_int_le [OF fits_sint [of n]] by simp
  then show ?thesis
    by (simp add: Int_obj dictEncObjHash_def int_obj_string obj_decoded_simps dictSdsHash_def dictGenHashFunction_def
        c_int_small c_size_small)
qed (simp add: dictEncObjHash_def obj_decoded_simps dictSdsHash_def)

interpretation obj_dict: dict_type "objectKeyPointerValueDictType seed" for seed
  by unfold_locales
    (auto simp: objectKeyPointerValueDictType_def dictCompareKeys_def dictHashKey_def enc_compare enc_hash intro: sds_compare)

lemma sds_case_hash_small: "length k < 2 ^ 31 \<Longrightarrow> dictSdsCaseHash seed k = siphash_nocase k seed"
  by (simp add: dictSdsCaseHash_def dictGenCaseHashFunction_def c_int_small c_size_small)

lemma case_compare_hash:
  assumes "0 \<notin> set k" "0 \<notin> set k'" "dictSdsKeyCaseCompare k k'"
  shows "dictSdsCaseHash seed k = dictSdsCaseHash seed k'"
proof -
  have tw: "takeWhile (\<lambda>c. c \<noteq> 0) k = k" "takeWhile (\<lambda>c. c \<noteq> 0) k' = k'"
    using assms(1,2) by (auto simp: takeWhile_eq_all_conv)
  have m: "map tolower k = map tolower k'" using assms(3) unfolding dictSdsKeyCaseCompare_def strcaseeq_def tw .
  then have "length k = length k'" by (metis length_map)
  with m show ?thesis
    by (simp add: dictSdsCaseHash_def dictGenCaseHashFunction_def siphash_nocase_eq siptlw_tolower take_map [symmetric])
qed

text \<open>Two hashes, evaluated round by round.\<close>

lemma sip_rounds:
  "SIPROUND \<lparr>v0 = 8317987319222330741, v1 = 7237128888997146477, v2 = 7816392313619706465, v3 = 8603393037260816404\<rparr> =
     \<lparr>v0 = 7391682055845700822, v1 = 17970800291263650241, v2 = 4224353240964251090, v3 = 4496960269848613696\<rparr>"
  "SIPROUND \<lparr>v0 = 7319624461806436785, v1 = 17970800291263650241, v2 = 4224353240964250925, v3 = 4496960269848613696\<rparr> =
     \<lparr>v0 = 11096698660397420886, v1 = 9414416639243849681, v2 = 17660290668508335751, v3 = 13824457381421547807\<rparr>"
  "SIPROUND \<lparr>v0 = 11096698660397420886, v1 = 9414416639243849681, v2 = 17660290668508335751, v3 = 13824457381421547807\<rparr> =
     \<lparr>v0 = 2918513738984722221, v1 = 15194999041455912662, v2 = 470310710758864014, v3 = 6676393991498647277\<rparr>"
  "SIPROUND \<lparr>v0 = 8317987319222330741, v1 = 7237128888997146477, v2 = 7816392313619706465, v3 = 8171047163795603476\<rparr> =
     \<lparr>v0 = 10996813248318137046, v1 = 17538455104993204673, v2 = 4224353240863587722, v3 = 15519520051821075008\<rparr>"
  "SIPROUND \<lparr>v0 = 11357100909268797361, v1 = 17538455104993204673, v2 = 4224353240863587701, v3 = 15519520051821075008\<rparr> =
     \<lparr>v0 = 342180047685936110, v1 = 12744548071509316143, v2 = 12614502099791564408, v3 = 3132952523764435903\<rparr>"
  "SIPROUND \<lparr>v0 = 342180047685936110, v1 = 12744548071509316143, v2 = 12614502099791564408, v3 = 3132952523764435903\<rparr> =
     \<lparr>v0 = 17434082650766300976, v1 = 12882335239511318459, v2 = 1485513042598652497, v3 = 296690307419730274\<rparr>"
  by (simp_all add: SIPROUND_def ROTL_def Let_def)

lemma sip_values:
  "siphash_nocase (bytes_of ''get'') (replicate 16 0) = 11564802082802944920"
  "siphash_nocase (bytes_of ''get'' @ [0, 120]) (replicate 16 0) = 6032261734690509752"
  by (simp_all add: siphash_nocase_def bytes_of_def sip_blocks.simps sip_init_def U8TO64_LE_def sip_tail_def siptlw_def
      sip_final_def Let_def sip_rounds)

section \<open>Correctness\<close>

text \<open>
  \<open>siphash_nocase\<close> hashes a string as \<open>siphash\<close> hashes the string in lower case, for every
  length and key, so that strings that differ in the case of letters have the same hash.
\<close>

theorem siphash_nocase_correct: "siphash_nocase inp k = siphash (map siptlw inp) k"
  by (rule siphash_nocase_eq)

text \<open>
  (C8) The key space, with the table type and the hash function of the server: every history of at most
  \<open>2 ^ 30\<close> insertions, and of deletions and lookups, on a table of type \<open>dbDictType\<close>, with keys shorter than
  \<open>2 ^ 31\<close> bytes, observes what it would on an associative map from byte strings.
\<close>

theorem db_history_correct:
  fixes ops :: "(byte list, 'v) map_op list"
  assumes "puts ops \<le> 2 ^ 30" "\<forall>op \<in> set ops. length (op_key op) < 2 ^ 31"
  shows "\<exists>d. run_map (dict_put cr (dbDictType seed)) (dict_del (dbDictType seed)) (dictFetchValue (dbDictType seed))
      dictCreate ops = Some (d, snd (spec_map (=) id (\<lambda>k. None) ops)) \<and> dict_ok (dbDictType seed) d"
proof -
  let ?ty = "dbDictType seed :: (byte list, 'v) dictType"
  have "dictCompareKeys ?ty = dictSdsKeyCompare" "dup_val ?ty = id"
    by (simp_all add: dbDictType_def dictCompareKeys_def dup_val_def fun_eq_iff)
  moreover have "snd (spec_map dictSdsKeyCompare id (\<lambda>k. None) ops) = snd (spec_map (=) id (\<lambda>k. None) ops)"
    by (rule spec_map_cong [where K = "{k. length k < 2 ^ 31}"]) (use assms(2) sds_compare_small in auto)
  ultimately show ?thesis using db_dict.history_ok [OF assms(1), of cr seed] by auto
qed

theorem db_history_correct_witness:
  "\<exists>d. run_map (dict_put True (dbDictType (replicate 16 7))) (dict_del (dbDictType (replicate 16 7)))
      (dictFetchValue (dbDictType (replicate 16 7))) dictCreate
      [Put (bytes_of ''foo'') 10, Put (bytes_of ''bar'') (20 :: nat), Get (bytes_of ''foo''), Del (bytes_of ''foo''),
       Get (bytes_of ''foo''), Get (bytes_of ''bar'')] =
    Some (d, [Was_new True, Was_new True, Found (Some 10), Was_there True, Found None, Found (Some 20)])"
  using db_history_correct [of "[Put (bytes_of ''foo'') 10, Put (bytes_of ''bar'') (20 :: nat), Get (bytes_of ''foo''),
      Del (bytes_of ''foo''), Get (bytes_of ''foo''), Get (bytes_of ''bar'')]" True "replicate 16 7"]
  by (auto simp: bytes_of_def upd_at_def)

text \<open>
  (C30) The case insensitive key comparison and hash of the command table agree on strings
  without NUL bytes: keys that compare equal have the same hash.
\<close>

theorem case_hash_agrees:
  assumes "0 \<notin> set k" "0 \<notin> set k'" "dictSdsKeyCaseCompare k k'"
  shows "dictSdsCaseHash seed k = dictSdsCaseHash seed k'"
  by (rule case_compare_hash [OF assms])

theorem case_hash_agrees_witness:
  "dictSdsCaseHash (replicate 16 1) (bytes_of ''GeT'') = dictSdsCaseHash (replicate 16 1) (bytes_of ''get'')"
  by (rule case_hash_agrees) (simp_all add: bytes_of_def dictSdsKeyCaseCompare_def strcaseeq_def tolower_def)

text \<open>
  (C37) With a NUL byte inside they do not: \<open>get\<close> and \<open>get\<close> followed by a NUL byte and \<open>x\<close>
  compare equal in the command table and have different hashes, for instance under the seed of
  all zeros, so that the result of a lookup of the second depends on the bucket it falls into.
\<close>

theorem case_hash_differs:
  "dictSdsKeyCaseCompare (bytes_of ''get'') (bytes_of ''get'' @ [0, 120]) \<and>
   dictSdsCaseHash (replicate 16 0) (bytes_of ''get'') \<noteq> dictSdsCaseHash (replicate 16 0) (bytes_of ''get'' @ [0, 120])"
proof -
  have "dictSdsCaseHash (replicate 16 0) (bytes_of ''get'') = siphash_nocase (bytes_of ''get'') (replicate 16 0)"
    "dictSdsCaseHash (replicate 16 0) (bytes_of ''get'' @ [0, 120]) =
       siphash_nocase (bytes_of ''get'' @ [0, 120]) (replicate 16 0)"
    by (simp_all add: sds_case_hash_small bytes_of_def)
  then show ?thesis
    unfolding sip_values by (simp add: dictSdsKeyCaseCompare_def bytes_of_def strcaseeq_def)
qed

end
