(* ===== verification/Dict_Scan.thy ===== *)
theory Dict_Scan
  imports Dict
begin

unbundle bit_operations_syntax

text \<open>
  The cursor scan of \<open>dict.c\<close>: \<open>rev\<close> and \<open>dictScan\<close>. The scan is stateless; its cursor
  counts with the bits reversed, so that tables may be resized between two calls. A call returns the new
  cursor and the entries passed to the callback, in order; \<open>bucketfn\<close> is not modelled.

  In the space of reversed hashes, a call with a cursor that fits the smaller table emits all
  entries of a dyadic interval that starts at or below the reversed cursor, and the new cursor
  is its end. Hence a sequence of calls emits every key that is present throughout, as long
  as the smaller table never shrinks. When it does, the loop over the larger table starts in the
  middle of the expansions and some can be missed.
\<close>

section \<open>Definitions\<close>

function rev_loop :: "u64 \<Rightarrow> u64 \<Rightarrow> u64 \<Rightarrow> u64" where
  "rev_loop s msk v =
     (let s = drop_bit 1 s
      in if s > 0 then
           (let msk = msk XOR push_bit (unat s) msk
            in rev_loop s msk ((drop_bit (unat s) v AND msk) OR (push_bit (unat s) v AND NOT msk)))
         else v)"
  by pat_completeness auto
termination
  by (relation "measure (\<lambda>(s, msk, v). unat s)") (auto simp: drop_bit_eq_div unat_div word_less_nat_alt)

declare rev_loop.simps [simp del]

definition rev :: "u64 \<Rightarrow> u64" where
  "rev v = rev_loop (8 * 8) (NOT 0) v"

partial_function (option) dictScan_loop ::
    "('k, 'v) dictht \<Rightarrow> u64 \<Rightarrow> u64 \<Rightarrow> u64 \<Rightarrow> ('k, 'v) chain \<Rightarrow> (u64 \<times> ('k, 'v) chain) option" where
  "dictScan_loop t1 m0 m1 v emitted = do {
     de \<leftarrow> bucket t1 (unat (v AND m1));
     let v' = (((v OR m0) + 1) AND NOT m0) OR (v AND m0);
     if v' AND (m0 XOR m1) \<noteq> 0 then dictScan_loop t1 m0 m1 v' (emitted @ de)
     else Some (v', emitted @ de)
   }"

definition dictScan_next :: "u64 \<Rightarrow> u64 \<Rightarrow> u64" where
  "dictScan_next v m0 = rev (rev (v OR NOT m0) + 1)"

definition dictScan :: "('k, 'v) dict \<Rightarrow> u64 \<Rightarrow> (u64 \<times> ('k, 'v) chain) option" where
  "dictScan d v =
     (if dictSize d = 0 then Some (0, [])
      else if \<not> dictIsRehashing d then do {
        de \<leftarrow> bucket (ht0 d) (unat (v AND ht_sizemask (ht0 d)));
        Some (dictScan_next v (ht_sizemask (ht0 d)), de)
      }
      else (let (t0, t1) = (if ht_size (ht0 d) > ht_size (ht1 d) then (ht1 d, ht0 d) else (ht0 d, ht1 d));
                m0 = ht_sizemask t0; m1 = ht_sizemask t1
            in do {
              de \<leftarrow> bucket t0 (unat (v AND m0));
              (v', emitted) \<leftarrow> dictScan_loop t1 m0 m1 v de;
              Some (dictScan_next v' m0, emitted)
            }))"

text \<open>A scan: one call per state of the table, until the cursor is zero again.\<close>

primrec scan_run :: "('k, 'v) dict list \<Rightarrow> u64 \<Rightarrow> (u64 \<times> ('k, 'v) chain) option" where
  "scan_run [] v = Some (v, [])"
| "scan_run (d # ds) v = do {
     (v', es) \<leftarrow> dictScan d v;
     if v' = 0 then Some (0, es)
     else do { (v'', es') \<leftarrow> scan_run ds v'; Some (v'', es @ es') }
   }"

section \<open>Reversal of bits\<close>

text \<open>One round exchanges neighbouring blocks of \<open>2 ^ k\<close> bits; \<open>flip k\<close> reverses inside blocks.\<close>

definition mask_ok :: "nat \<Rightarrow> u64 \<Rightarrow> bool" where
  "mask_ok k m \<longleftrightarrow> (\<forall>n < 64. bit m n \<longleftrightarrow> even (n div 2 ^ k))"

definition flip :: "nat \<Rightarrow> nat \<Rightarrow> nat" where
  "flip k n = (n div 2 ^ k) * 2 ^ k + (2 ^ k - 1 - n mod 2 ^ k)"

lemma mask_ok_step:
  assumes "mask_ok (Suc k) m"
  shows "mask_ok k (m XOR push_bit (2 ^ k) m)"
  unfolding mask_ok_def
proof (intro allI impI)
  fix n :: nat
  assume n: "n < 64"
  let ?q = "n div 2 ^ k"
  have d: "i div 2 ^ Suc k = i div 2 ^ k div 2" for i :: nat by (simp only: power_Suc2 div_mult2_eq)
  have b: "bit m i \<longleftrightarrow> even (i div 2 ^ k div 2)" if "i < 64" for i
    using assms that unfolding mask_ok_def d by blast
  have sub: "(n - 2 ^ k) div 2 ^ k = ?q - 1" if "2 ^ k \<le> n"
    using that by (simp add: le_div_geq)
  show "bit (m XOR push_bit (2 ^ k) m) n \<longleftrightarrow> even ?q"
  proof (cases "2 ^ k \<le> n")
    case False
    then have "?q = 0" by simp
    with False n b show ?thesis by (simp add: bit_simps)
  next
    case True
    then have "0 < ?q" by (simp add: div_greater_zero_iff)
    moreover have "even (i div 2) \<noteq> even ((i - 1) div 2) \<longleftrightarrow> even i" if "0 < i" for i :: nat
      using that by presburger
    ultimately have "even (?q div 2) \<noteq> even ((?q - 1) div 2) \<longleftrightarrow> even ?q" by blast
    with True n b [of n] b [of "n - 2 ^ k"] sub show ?thesis by (simp add: bit_simps)
  qed
qed

lemma bit_round:
  assumes "mask_ok k m" "n < 64" "n + 2 ^ k < 64 \<or> odd (n div 2 ^ k)"
  shows "bit ((drop_bit (2 ^ k) v AND m) OR (push_bit (2 ^ k) v AND NOT m)) n \<longleftrightarrow>
    bit v (if even (n div 2 ^ k) then n + 2 ^ k else n - 2 ^ k)"
proof -
  have m: "bit m n \<longleftrightarrow> even (n div 2 ^ k)" using assms by (simp add: mask_ok_def)
  have "2 ^ k \<le> n" if "odd (n div 2 ^ k)" using that by (metis div_less even_zero not_le)
  with m assms(2,3) show ?thesis by (auto simp: bit_simps ac_simps)
qed

lemma flip_div: "flip k n div 2 ^ k = n div 2 ^ k"
proof -
  have "2 ^ k - 1 - n mod 2 ^ k < (2 :: nat) ^ k" by (simp add: less_imp_diff_less)
  then show ?thesis unfolding flip_def by simp
qed

lemma flip_Suc:
  "flip (Suc k) n = (if even (n div 2 ^ k) then flip k n + 2 ^ k else flip k n - 2 ^ k)"
proof -
  define P Q r where "P = (2 :: nat) ^ k" and "Q = n div 2 ^ k" and "r = n mod 2 ^ k"
  have P: "2 ^ Suc k = P + P" and r: "r < P" by (simp_all add: P_def r_def)
  have d: "n div 2 ^ Suc k = Q div 2" unfolding Q_def by (simp only: power_Suc2 div_mult2_eq)
  have m: "n mod 2 ^ Suc k = P * (Q mod 2) + r" unfolding P_def Q_def r_def by (simp only: power_Suc2 mod_mult2_eq)
  have f: "flip (Suc k) n = Q div 2 * (P + P) + (P + P - 1 - (P * (Q mod 2) + r))" "flip k n = Q * P + (P - 1 - r)"
    unfolding flip_def d m by (simp only: P, simp only: P_def Q_def r_def)
  show ?thesis
  proof (cases "even Q")
    case True
    then obtain a where "Q = 2 * a" by (elim evenE)
    then have "flip (Suc k) n = flip k n + P" unfolding f using r by (simp add: algebra_simps)
    with True show ?thesis by (simp add: P_def Q_def)
  next
    case False
    then obtain a where a: "Q = 2 * a + 1" by (elim oddE)
    then have "Q mod 2 = 1" "Q div 2 = a" by simp_all
    then have "flip (Suc k) n = a * (P + P) + (P - 1 - r)" unfolding f using r by simp
    moreover have "flip k n = a * (P + P) + (P - 1 - r) + P" unfolding f a by (simp add: algebra_simps)
    ultimately have "flip (Suc k) n = flip k n - P" by simp
    with False show ?thesis by (simp add: P_def Q_def)
  qed
qed

lemma flip_less: "n < 64 \<Longrightarrow> k \<le> 6 \<Longrightarrow> flip k n < 64"
proof -
  assume n: "n < 64" and k: "k \<le> 6"
  have dvd: "(2 :: nat) ^ k dvd 64" using k le_imp_power_dvd [of k 6 "2 :: nat"] by simp
  then obtain c :: nat where c: "64 = 2 ^ k * c" by (elim dvdE)
  have "flip k n div 2 ^ k < c" unfolding flip_div using n c by (metis div_less_iff_less_mult mult.commute zero_less_numeral zero_less_power)
  then show ?thesis using c by (metis div_less_iff_less_mult mult.commute zero_less_numeral zero_less_power)
qed

lemma rev_loop_bit:
  assumes "mask_ok k m" "k \<le> 6" "n < 64"
  shows "bit (rev_loop (2 ^ k) m v) n \<longleftrightarrow> bit v (flip k n)"
  using assms
proof (induction k arbitrary: m v)
  case 0
  then show ?case by (subst rev_loop.simps) (simp add: flip_def Let_def drop_bit_eq_div)
next
  case (Suc k)
  let ?m = "m XOR push_bit (2 ^ k) m"
  let ?v = "(drop_bit (2 ^ k) v AND ?m) OR (push_bit (2 ^ k) v AND NOT ?m)"
  have k: "k < 64" using Suc.prems by simp
  have "k \<in> {0, 1, 2, 3, 4, 5}" using Suc.prems(2) by auto
  then have half: "drop_bit 1 (2 ^ Suc k :: u64) = 2 ^ k" and u: "unat (2 ^ k :: u64) = 2 ^ k"
    by auto
  have ok: "mask_ok k ?m" using Suc.prems(1) by (rule mask_ok_step)
  have "rev_loop (2 ^ Suc k) m v = rev_loop (2 ^ k) ?m ?v"
    using u by (subst rev_loop.simps) (simp add: half [unfolded One_nat_def] Let_def word_less_nat_alt del: drop_bit_Suc power_Suc)
  moreover have "bit (rev_loop (2 ^ k) ?m ?v) n \<longleftrightarrow> bit ?v (flip k n)"
    using Suc.IH [OF ok] Suc.prems by simp
  moreover have "bit ?v (flip k n) \<longleftrightarrow> bit v (flip (Suc k) n)"
    using bit_round [OF ok, of "flip k n" v] flip_less [of n k] flip_less [of n "Suc k"] Suc.prems
    by (simp add: flip_div flip_Suc split: if_splits)
  ultimately show ?case by simp
qed

lemma rev_word_reverse: "rev v = word_reverse v"
proof (rule bit_eqI)
  fix n
  assume "possible_bit TYPE(u64) n"
  then have n: "n < 64" by simp
  have "mask_ok 6 (NOT 0)" by (simp add: mask_ok_def bit_simps)
  from rev_loop_bit [OF this _ n, of v] have "bit (rev v) n \<longleftrightarrow> bit v (63 - n)"
    using n by (simp add: rev_def flip_def)
  then show "bit (rev v) n \<longleftrightarrow> bit (word_reverse v) n"
    using n by (simp add: bit_word_reverse_iff)
qed

section \<open>The cursor\<close>

text \<open>\<open>rpos v\<close> is the position of a cursor or of a hash in the order of the scan.\<close>

definition rpos :: "u64 \<Rightarrow> nat" where
  "rpos v = unat (word_reverse v)"

lemma rpos_less: "rpos v < 2 ^ 64"
  unfolding rpos_def using unsigned_less [of "word_reverse v", where 'a = nat] by simp

lemma rpos_0: "rpos v = 0 \<longleftrightarrow> v = 0"
proof -
  have "word_reverse (0 :: u64) = 0" by (rule bit_eqI) (simp add: bit_word_reverse_iff)
  then have "word_reverse v = 0 \<longleftrightarrow> v = 0" by (metis word_rev_rev)
  then show ?thesis by (simp add: rpos_def unat_eq_0)
qed

lemma unat_drop_bit: "unat (drop_bit k (w :: u64)) = unat w div 2 ^ k"
proof -
  have "take_bit 64 (unat w) = unat w" by (rule take_bit_nat_eq_self) (use unsigned_less [of w, where 'a = nat] in simp)
  then have "unat (drop_bit k w) = drop_bit k (unat w)" by (simp add: unsigned_drop_bit_eq)
  then show ?thesis by (simp only: drop_bit_eq_div)
qed

lemma drop_bit_of_nat: "drop_bit k (w :: u64) = of_nat (unat w div 2 ^ k)"
  using unat_drop_bit [of k w] by (metis of_nat_unat ucast_id)

lemma same_low_bits:
  assumes "n \<le> 64"
  shows "unat h mod 2 ^ n = unat v mod 2 ^ n \<longleftrightarrow> rpos h div 2 ^ (64 - n) = rpos v div 2 ^ (64 - n)"
proof -
  have "take_bit n h = take_bit n v \<longleftrightarrow> drop_bit (64 - n) (word_reverse h) = drop_bit (64 - n) (word_reverse v)"
  proof
    assume "take_bit n h = take_bit n v"
    then have "i < n \<Longrightarrow> bit h i = bit v i" for i by (metis bit_take_bit_iff)
    then show "drop_bit (64 - n) (word_reverse h) = drop_bit (64 - n) (word_reverse v)"
      by (intro bit_eqI) (auto simp: bit_simps bit_word_reverse_iff)
  next
    assume d: "drop_bit (64 - n) (word_reverse h) = drop_bit (64 - n) (word_reverse v)"
    have e: "bit (word_reverse h) (64 - n + i) = bit (word_reverse v) (64 - n + i)" for i
      using arg_cong [OF d, of "\<lambda>w. bit w i"] by (simp add: bit_drop_bit_eq)
    have "bit h i = bit v i" if "i < n" for i
      using e [of "n - 1 - i"] that assms by (simp add: bit_word_reverse_iff less_imp_diff_less)
    then show "take_bit n h = take_bit n v" by (intro bit_eqI) (auto simp: bit_take_bit_iff)
  qed
  moreover have "unat (take_bit n w) = unat w mod 2 ^ n" for w :: u64
    unfolding unsigned_take_bit_eq by (rule take_bit_eq_mod)
  ultimately show ?thesis unfolding rpos_def by (simp only: word_unat_eq_iff unat_drop_bit)
qed

lemma rpos_next:
  assumes "n \<le> 64"
  shows "rpos (dictScan_next v (mask n)) = (rpos v div 2 ^ (64 - n) + 1) * 2 ^ (64 - n) mod 2 ^ 64"
proof -
  let ?R = "word_reverse v" and ?k = "64 - n"
  have rv: "word_reverse (v OR NOT (mask n)) = push_bit ?k (drop_bit ?k ?R) OR mask ?k"
    using assms by (intro bit_eqI) (auto simp: bit_simps bit_word_reverse_iff)
  also have "\<dots> = push_bit ?k (drop_bit ?k ?R) + mask ?k"
    by (rule disjunctive_add [symmetric]) (auto simp: bit_simps)
  finally have "word_reverse (dictScan_next v (mask n)) = push_bit ?k (drop_bit ?k ?R) + (mask ?k + 1)"
    unfolding dictScan_next_def rev_word_reverse by (simp add: word_rev_rev add.assoc)
  also have "mask ?k + 1 = (2 :: u64) ^ ?k" by (simp add: mask_eq_exp_minus_1)
  finally have "word_reverse (dictScan_next v (mask n)) = (drop_bit ?k ?R + 1) * 2 ^ ?k"
    by (simp add: push_bit_eq_mult algebra_simps)
  then have "rpos (dictScan_next v (mask n)) = unat ((drop_bit ?k ?R + 1) * 2 ^ ?k)" by (simp add: rpos_def)
  also have "drop_bit ?k ?R = of_nat (unat ?R div 2 ^ ?k)"
    by (rule drop_bit_of_nat)
  also have "unat ((of_nat (unat ?R div 2 ^ ?k) + 1) * 2 ^ ?k :: u64) = (unat ?R div 2 ^ ?k + 1) * 2 ^ ?k mod 2 ^ 64"
  proof -
    have "(of_nat (unat ?R div 2 ^ ?k) + 1) * 2 ^ ?k = (of_nat ((unat ?R div 2 ^ ?k + 1) * 2 ^ ?k) :: u64)" by (simp add: algebra_simps)
    then show ?thesis by (simp only: unat_of_nat) simp
  qed
  finally show ?thesis by (simp add: rpos_def)
qed

section \<open>One call\<close>

lemma high_increment:
  assumes "n \<le> 31"
  shows "unat ((((v OR mask n) + 1) AND NOT (mask n)) OR (v AND mask n) :: u64) =
    (unat v div 2 ^ n + 1) mod 2 ^ (64 - n) * 2 ^ n + unat v mod 2 ^ n"
proof -
  let ?h = "push_bit n (drop_bit n v) :: u64"
  have "v OR mask n = ?h OR mask n" by (rule bit_eqI) (auto simp: bit_simps)
  also have "\<dots> = ?h + mask n" by (rule disjunctive_add [symmetric]) (auto simp: bit_simps)
  finally have "(v OR mask n) + 1 = ?h + 2 ^ n" by (simp add: mask_eq_exp_minus_1)
  also have "\<dots> = push_bit n (drop_bit n v + 1)" by (simp add: push_bit_eq_mult algebra_simps)
  finally have s: "(v OR mask n) + 1 = push_bit n (drop_bit n v + 1)" .
  have "(push_bit n (drop_bit n v + 1) AND NOT (mask n)) OR (v AND mask n) =
      push_bit n (drop_bit n v + 1) OR take_bit n v"
    by (rule bit_eqI) (auto simp: bit_simps)
  also have "\<dots> = push_bit n (drop_bit n v + 1) + take_bit n v"
    by (rule disjunctive_add [symmetric]) (auto simp: bit_simps)
  finally have e: "(((v OR mask n) + 1) AND NOT (mask n)) OR (v AND mask n) =
      push_bit n (drop_bit n v + 1) + take_bit n v" unfolding s .
  have "(2 :: nat) ^ 64 = 2 ^ (64 - n) * 2 ^ n" using assms by (simp flip: power_add)
  then have mm: "x * 2 ^ n mod 2 ^ 64 = x mod 2 ^ (64 - n) * 2 ^ n" for x :: nat
    by (simp add: mult_mod_left)
  have u64: "unat (of_nat x :: u64) = x mod 2 ^ 64" for x by (simp add: unat_of_nat)
  have "push_bit n (drop_bit n v + 1) = (of_nat ((unat v div 2 ^ n + 1) * 2 ^ n) :: u64)"
    unfolding drop_bit_of_nat push_bit_eq_mult by (simp add: algebra_simps)
  then have hi: "unat (push_bit n (drop_bit n v + 1)) = (unat v div 2 ^ n + 1) mod 2 ^ (64 - n) * 2 ^ n"
    by (simp only: u64 mm)
  have lo: "unat (take_bit n v) = unat v mod 2 ^ n"
    unfolding unsigned_take_bit_eq by (rule take_bit_eq_mod)
  let ?q = "(unat v div 2 ^ n + 1) mod 2 ^ (64 - n)" and ?r = "unat v mod 2 ^ n"
  have "?q * 2 ^ n + ?r < (?q + 1) * 2 ^ n" by simp
  also have "\<dots> \<le> 2 ^ (64 - n) * 2 ^ n" by (intro mult_right_mono) (auto simp: Suc_le_eq)
  finally have "?q * 2 ^ n + ?r < 2 ^ 64" using \<open>(2 :: nat) ^ 64 = 2 ^ (64 - n) * 2 ^ n\<close> by simp
  then show ?thesis unfolding e by (simp add: unat_word_ariths hi lo)
qed

lemma high_bits_zero:
  assumes "n0 \<le> n1" "n1 \<le> 31"
  shows "(v :: u64) AND (mask n0 XOR mask n1) = 0 \<longleftrightarrow> unat v div 2 ^ n0 mod 2 ^ (n1 - n0) = 0"
proof -
  have "v AND (mask n0 XOR mask n1) = push_bit n0 (take_bit (n1 - n0) (drop_bit n0 v))"
    using assms by (intro bit_eqI) (auto simp: bit_simps)
  moreover have "push_bit n0 w = 0 \<longleftrightarrow> w = 0" if "w = take_bit (n1 - n0) w" for w :: u64
  proof
    assume z: "push_bit n0 w = 0"
    have "\<not> bit w i" for i
    proof
      assume b: "bit w i"
      then have "i < n1 - n0" using that by (metis bit_take_bit_iff)
      with b assms have "bit (push_bit n0 w) (n0 + i)" by (simp add: bit_simps)
      with z show False by simp
    qed
    then show "w = 0" by (simp add: bit_eq_iff)
  qed simp
  ultimately have "v AND (mask n0 XOR mask n1) = 0 \<longleftrightarrow> take_bit (n1 - n0) (drop_bit n0 v) = 0" by simp
  also have "\<dots> \<longleftrightarrow> unat (take_bit (n1 - n0) (drop_bit n0 v)) = 0" by (simp only: unat_eq_0)
  also have "unat (take_bit (n1 - n0) (drop_bit n0 v)) = unat v div 2 ^ n0 mod 2 ^ (n1 - n0)"
    unfolding unsigned_take_bit_eq unat_drop_bit by (rule take_bit_eq_mod)
  finally show ?thesis .
qed

lemma dictScan_loop_ok:
  assumes n: "n0 \<le> n1" "n1 \<le> 31" and len: "length (ht_table t1) = 2 ^ n1"
  defines "w \<equiv> n1 - n0"
  shows "\<exists>v'. dictScan_loop t1 (mask n0) (mask n1) v em = Some (v', em @ concat (map (\<lambda>j.
      ht_table t1 ! (j * 2 ^ n0 + unat v mod 2 ^ n0)) [unat v div 2 ^ n0 mod 2 ^ w..<2 ^ w])) \<and>
    unat v' mod 2 ^ n0 = unat v mod 2 ^ n0"
proof (induction "2 ^ w - unat v div 2 ^ n0 mod 2 ^ w" arbitrary: v em rule: less_induct)
  case less
  let ?q = "unat v div 2 ^ n0" and ?r = "unat v mod 2 ^ n0"
  let ?j = "?q mod 2 ^ w"
  let ?v = "(((v OR mask n0) + 1) AND NOT (mask n0)) OR (v AND mask n0) :: u64"
  have jlt: "?j < 2 ^ w" by simp
  have pw: "(2 :: nat) ^ n1 = 2 ^ n0 * 2 ^ w" using n by (simp add: w_def flip: power_add)
  have idx: "unat (v AND mask n1) = ?j * 2 ^ n0 + ?r"
    unfolding unat_and_mask pw using mod_mult2_eq [of "unat v" "2 ^ n0" "2 ^ w"] by (simp add: ac_simps)
  have "unat (v AND mask n1) < 2 ^ n1" unfolding unat_and_mask by simp
  then have b: "bucket t1 (unat (v AND mask n1)) = Some (ht_table t1 ! (?j * 2 ^ n0 + ?r))"
    using len idx by (simp add: bucket_def)
  have uv: "unat ?v = (?q + 1) mod 2 ^ (64 - n0) * 2 ^ n0 + ?r" by (rule high_increment) (use n in simp)
  have q': "unat ?v div 2 ^ n0 = (?q + 1) mod 2 ^ (64 - n0)" and r': "unat ?v mod 2 ^ n0 = ?r"
    unfolding uv by simp_all
  have "(2 :: nat) ^ w dvd 2 ^ (64 - n0)" using n by (intro le_imp_power_dvd) (simp add: w_def)
  then have j': "unat ?v div 2 ^ n0 mod 2 ^ w = (?j + 1) mod 2 ^ w"
    unfolding q' by (simp add: mod_mod_cancel mod_simps)
  have up: "[?j..<2 ^ w] = ?j # [?j + 1..<2 ^ w]" using jlt by (simp add: upt_conv_Cons)
  have unf: "dictScan_loop t1 (mask n0) (mask n1) v em =
      (if ?v AND (mask n0 XOR mask n1) \<noteq> 0
       then dictScan_loop t1 (mask n0) (mask n1) ?v (em @ ht_table t1 ! (?j * 2 ^ n0 + ?r))
       else Some (?v, em @ ht_table t1 ! (?j * 2 ^ n0 + ?r)))"
    by (subst dictScan_loop.simps) (simp add: b Let_def)
  have z: "?v AND (mask n0 XOR mask n1) = 0 \<longleftrightarrow> (?j + 1) mod 2 ^ w = 0"
    using high_bits_zero [OF n, of ?v] j' by (simp add: w_def)
  show ?case
  proof (cases "?j + 1 < 2 ^ w")
    case True
    then have m: "(?j + 1) mod 2 ^ w = ?j + 1" by simp
    have "2 ^ w - unat ?v div 2 ^ n0 mod 2 ^ w < 2 ^ w - ?j" unfolding j' m using True by simp
    from less.hyps [OF this, of "em @ ht_table t1 ! (?j * 2 ^ n0 + ?r)"] z m True show ?thesis
      unfolding unf r' j' m up by simp
  next
    case False
    with jlt have "?j + 1 = 2 ^ w" by linarith
    then have "(?j + 1) mod 2 ^ w = 0" "[?j + 1..<2 ^ w] = []" by simp_all
    then show ?thesis unfolding unf up using z r' by simp
  qed
qed

text \<open>The mask of the smaller table, which decides how far the cursor moves.\<close>

definition scan_mask :: "('k, 'v) dict \<Rightarrow> u64" where
  "scan_mask d = (if dictIsRehashing d \<and> ht_size (ht0 d) > ht_size (ht1 d) then ht_sizemask (ht1 d)
     else ht_sizemask (ht0 d))"

lemma pow_word_less: "a \<in> {2..31} \<Longrightarrow> b \<in> {2..31} \<Longrightarrow> (2 ^ a :: u64) < 2 ^ b \<longleftrightarrow> a < b"
  by (simp add: word_less_nat_alt unat_pow)

lemma unat_mask_small: "n \<in> {2..31} \<Longrightarrow> unat (mask n :: u64) = 2 ^ n - 1"
  using unat_and_mask [of "-1" n] unat_pow [of n] by (simp add: mask_eq_exp_minus_1 unat_minus_one)

lemma bucket_entries:
  assumes "ht_live ty n h" "i < 2 ^ n"
  shows "bucket h i = Some (ht_table h ! i)" "set (ht_table h ! i) = {e \<in> set (ht_entries h). slot ty n (de_key e) = i}"
proof -
  have t: "tab_ok ty n (ht_table h)" using assms(1) by (simp add: ht_live_def)
  then have i: "i < length (ht_table h)" using assms(2) by (simp add: tab_ok_def)
  then show "bucket h i = Some (ht_table h ! i)" by (rule bucket_Some)
  show "set (ht_table h ! i) = {e \<in> set (ht_entries h). slot ty n (de_key e) = i}"
  proof (intro set_eqI iffI)
    fix e assume "e \<in> set (ht_table h ! i)"
    then show "e \<in> {e \<in> set (ht_entries h). slot ty n (de_key e) = i}"
      using t i nth_mem [OF i] by (auto simp: tab_ok_def ht_entries_def)
  next
    fix e assume "e \<in> {e \<in> set (ht_entries h). slot ty n (de_key e) = i}"
    then show "e \<in> set (ht_table h ! i)" using set_concat_member [OF t] by (auto simp: ht_entries_def)
  qed
qed

definition in_class :: "('k, 'v) dictType \<Rightarrow> nat \<Rightarrow> u64 \<Rightarrow> ('k, 'v) dictEntry \<Rightarrow> bool" where
  "in_class ty n v e \<longleftrightarrow> unat (dictHashKey ty (de_key e)) mod 2 ^ n = unat v mod 2 ^ n"

lemma large_table_class:
  assumes live: "ht_live ty n1 t1" and n: "n0 \<le> n1" and r: "r < 2 ^ n0"
  shows "set (concat (map (\<lambda>j. ht_table t1 ! (j * 2 ^ n0 + r)) [0..<2 ^ (n1 - n0)])) =
    {e \<in> set (ht_entries t1). slot ty n0 (de_key e) = r}"
proof -
  have pw: "(2 :: nat) ^ n1 = 2 ^ n0 * 2 ^ (n1 - n0)" using n by (simp flip: power_add)
  have lt: "j * 2 ^ n0 + r < 2 ^ n1" if "j < 2 ^ (n1 - n0)" for j
  proof -
    have "j * 2 ^ n0 + r < (j + 1) * 2 ^ n0" using r by simp
    also have "\<dots> \<le> 2 ^ (n1 - n0) * 2 ^ n0" using that by (intro mult_right_mono) auto
    finally show ?thesis using pw by (simp add: mult.commute)
  qed
  have dec: "slot ty n1 k = (unat (dictHashKey ty k) div 2 ^ n0 mod 2 ^ (n1 - n0)) * 2 ^ n0 + slot ty n0 k" for k
    unfolding slot_def pw using mod_mult2_eq [of "unat (dictHashKey ty k)" "2 ^ n0" "2 ^ (n1 - n0)"] by (simp add: ac_simps)
  have to: "slot ty n0 k = r" if "slot ty n1 k = j * 2 ^ n0 + r" for k j
  proof -
    have "slot ty n0 k = slot ty n1 k mod 2 ^ n0" unfolding slot_def using n by (simp add: mod_mod_pow)
    then show ?thesis using that r by simp
  qed
  have be: "set (ht_table t1 ! (j * 2 ^ n0 + r)) = {e \<in> set (ht_entries t1). slot ty n1 (de_key e) = j * 2 ^ n0 + r}"
    if "j < 2 ^ (n1 - n0)" for j using bucket_entries(2) [OF live lt [OF that]] .
  show ?thesis
  proof (intro set_eqI iffI)
    fix e assume "e \<in> set (concat (map (\<lambda>j. ht_table t1 ! (j * 2 ^ n0 + r)) [0..<2 ^ (n1 - n0)]))"
    then obtain j where "j < 2 ^ (n1 - n0)" "e \<in> set (ht_table t1 ! (j * 2 ^ n0 + r))" by auto
    with be to show "e \<in> {e \<in> set (ht_entries t1). slot ty n0 (de_key e) = r}" by blast
  next
    fix e assume e: "e \<in> {e \<in> set (ht_entries t1). slot ty n0 (de_key e) = r}"
    let ?j = "unat (dictHashKey ty (de_key e)) div 2 ^ n0 mod 2 ^ (n1 - n0)"
    have "?j < 2 ^ (n1 - n0)" by simp
    moreover have "slot ty n1 (de_key e) = ?j * 2 ^ n0 + r" using dec [of "de_key e"] e by simp
    then have "e \<in> set (ht_table t1 ! (?j * 2 ^ n0 + r))" using be [OF \<open>?j < _\<close>] e by blast
    ultimately show "e \<in> set (concat (map (\<lambda>j. ht_table t1 ! (j * 2 ^ n0 + r)) [0..<2 ^ (n1 - n0)]))" by auto
  qed
qed

lemma scan_pair:
  assumes "ht_live ty a t0" "ht_live ty b t1" "a \<le> b"
  shows "\<exists>v' es. bucket t0 (unat (v AND ht_sizemask t0)) \<bind> (\<lambda>de. dictScan_loop t1 (ht_sizemask t0) (ht_sizemask t1) v de) =
      Some (v', es) \<and> unat v' mod 2 ^ a = unat v mod 2 ^ a \<and>
    (unat v < 2 ^ a \<longrightarrow> set es = {e \<in> set (ht_entries t0) \<union> set (ht_entries t1). in_class ty a v e})"
proof -
  let ?r = "unat v mod 2 ^ a"
  have m: "ht_sizemask t0 = mask a" "ht_sizemask t1 = mask b" "length (ht_table t1) = 2 ^ b" "b \<le> 31"
    using assms by (auto simp: ht_live_def tab_ok_def)
  have b0: "bucket t0 (unat (v AND mask a)) = Some (ht_table t0 ! ?r)"
    "set (ht_table t0 ! ?r) = {e \<in> set (ht_entries t0). slot ty a (de_key e) = ?r}"
    unfolding unat_and_mask by (rule bucket_entries [OF assms(1)]; simp)+
  obtain v' where v': "dictScan_loop t1 (mask a) (mask b) v (ht_table t0 ! ?r) = Some (v', ht_table t0 ! ?r @
      concat (map (\<lambda>j. ht_table t1 ! (j * 2 ^ a + ?r)) [unat v div 2 ^ a mod 2 ^ (b - a)..<2 ^ (b - a)]))"
    "unat v' mod 2 ^ a = ?r"
    using dictScan_loop_ok [OF assms(3) m(4,3), of v "ht_table t0 ! ?r"] by blast
  have "set (concat (map (\<lambda>j. ht_table t1 ! (j * 2 ^ a + ?r)) [0..<2 ^ (b - a)])) =
      {e \<in> set (ht_entries t1). slot ty a (de_key e) = ?r}"
    by (rule large_table_class [OF assms(2,3)]) simp
  then show ?thesis
    using v' b0 m by (auto simp: in_class_def slot_def)
qed

lemma dictScan_call:
  assumes ok: "dict_ok ty d" and ne: "dict_entries d \<noteq> []"
  obtains n v' es where "n \<in> {2..31}" "scan_mask d = mask n" "dictScan d v = Some (v', es)"
    "rpos v' = (rpos v div 2 ^ (64 - n) + 1) * 2 ^ (64 - n) mod 2 ^ 64"
    "unat v < 2 ^ n \<longrightarrow> set es = {e \<in> set (dict_entries d). in_class ty n v e}"
proof -
  obtain n where live: "ht_live ty n (ht0 d)" by (rule live_ht0 [OF ok]) (use ne in auto)
  then have n: "n \<in> {2..31}" "ht_sizemask (ht0 d) = mask n" "ht_size (ht0 d) = 2 ^ n" by (auto simp: ht_live_def)
  have sz: "dictSize d \<noteq> 0" using used_zero(1) [OF ok] ne by (simp add: dictSize_def)
  show ?thesis
  proof (cases "dictIsRehashing d")
    case False
    let ?r = "unat v mod 2 ^ n"
    have sc: "dictScan d v = Some (dictScan_next v (mask n), ht_table (ht0 d) ! ?r)"
      using sz False n bucket_entries(1) [OF live, of ?r] by (simp add: dictScan_def unat_and_mask)
    have st: "set (ht_table (ht0 d) ! ?r) = {e \<in> set (dict_entries d). in_class ty n v e}"
      using bucket_entries(2) [OF live, of ?r] ht1_empty [OF ok False]
      by (simp add: dict_entries_def in_class_def slot_def)
    show ?thesis
    proof (rule that [OF n(1) _ sc])
      show "scan_mask d = mask n" using False n(2) by (simp add: scan_mask_def)
      show "rpos (dictScan_next v (mask n)) = (rpos v div 2 ^ (64 - n) + 1) * 2 ^ (64 - n) mod 2 ^ 64"
        by (rule rpos_next) (use n in simp)
    qed (intro impI st)
  next
    case True
    obtain m where live1: "ht_live ty m (ht1 d)" using live_ht1 [OF ok True] .
    then have m: "m \<in> {2..31}" "ht_sizemask (ht1 d) = mask m" "ht_size (ht1 d) = 2 ^ m" by (auto simp: ht_live_def)
    define a t0 t1 where "a = min n m" and "t0 = (if m < n then ht1 d else ht0 d)" and "t1 = (if m < n then ht0 d else ht1 d)"
    have gt: "ht_size (ht0 d) > ht_size (ht1 d) \<longleftrightarrow> m < n" using n m pow_word_less by simp
    have l: "ht_live ty a t0" "ht_live ty (max n m) t1" "a \<le> max n m"
      using live live1 by (auto simp: a_def t0_def t1_def min_def max_def)
    have a: "a \<in> {2..31}" "ht_sizemask t0 = mask a" using l(1) by (auto simp: ht_live_def)
    obtain v1 es where sp: "bucket t0 (unat (v AND ht_sizemask t0)) \<bind>
        (\<lambda>de. dictScan_loop t1 (ht_sizemask t0) (ht_sizemask t1) v de) = Some (v1, es)"
      "unat v1 mod 2 ^ a = unat v mod 2 ^ a"
      "unat v < 2 ^ a \<longrightarrow> set es = {e \<in> set (ht_entries t0) \<union> set (ht_entries t1). in_class ty a v e}"
      using scan_pair [OF l] by blast
    have "rpos v1 div 2 ^ (64 - a) = rpos v div 2 ^ (64 - a)" using sp(2) same_low_bits [of a v1 v] a by simp
    then have "rpos (dictScan_next v1 (mask a)) = (rpos v div 2 ^ (64 - a) + 1) * 2 ^ (64 - a) mod 2 ^ 64"
      using rpos_next [of a v1] a by simp
    moreover have "dictScan d v = Some (dictScan_next v1 (mask a), es)"
    proof -
      have "dictScan d v = do { de \<leftarrow> bucket t0 (unat (v AND ht_sizemask t0));
          (v', em) \<leftarrow> dictScan_loop t1 (ht_sizemask t0) (ht_sizemask t1) v de;
          Some (dictScan_next v' (ht_sizemask t0), em) }"
        using sz True gt by (simp add: dictScan_def t0_def t1_def Let_def)
      also have "\<dots> = do { (v', em) \<leftarrow> bucket t0 (unat (v AND ht_sizemask t0)) \<bind>
          (\<lambda>de. dictScan_loop t1 (ht_sizemask t0) (ht_sizemask t1) v de); Some (dictScan_next v' (ht_sizemask t0), em) }"
        by simp
      finally show ?thesis unfolding sp(1) by (simp add: a(2))
    qed
    moreover have "scan_mask d = mask a"
      using True gt n m by (auto simp: scan_mask_def a_def min_def)
    moreover have "set (ht_entries t0) \<union> set (ht_entries t1) = set (dict_entries d)"
      by (auto simp: dict_entries_def t0_def t1_def)
    ultimately show ?thesis using a(1) sp(3)
      by (intro that [of a "dictScan_next v1 (mask a)" es]) simp_all
  qed
qed

section \<open>Sequences of calls\<close>

lemma interval_class:
  assumes D: "n \<in> {2..31}" and nxt: "rpos v' = (rpos v div 2 ^ (64 - n) + 1) * 2 ^ (64 - n) mod 2 ^ 64"
    and h: "rpos v \<le> rpos h" "v' = 0 \<or> rpos h < rpos v'"
  shows "unat h mod 2 ^ n = unat v mod 2 ^ n"
proof -
  define D where "D = (2 :: nat) ^ (64 - n)"
  have pos: "0 < D" by (simp add: D_def)
  have full: "(2 :: nat) ^ 64 = 2 ^ n * D" using D unfolding D_def by (simp flip: power_add)
  let ?q = "rpos v div D"
  have "?q < 2 ^ n" using rpos_less [of v] full pos by (simp add: div_less_iff_less_mult mult.commute)
  then have le: "(?q + 1) * D \<le> 2 ^ 64" unfolding full by (intro mult_right_mono) auto
  have up: "rpos h < (?q + 1) * D"
  proof (cases "(?q + 1) * D = 2 ^ 64")
    case True
    then show ?thesis using rpos_less [of h] by simp
  next
    case False
    then have "rpos v' = (?q + 1) * D" using nxt le by (simp add: D_def)
    then show ?thesis using h(2) rpos_0 [of v'] pos by auto
  qed
  have "?q * D \<le> rpos h" using h(1) by (metis div_times_less_eq_dividend le_trans)
  then have "rpos h div D = ?q" using up pos by (intro div_nat_eqI) (auto simp: mult.commute)
  then show ?thesis using same_low_bits [of n h v] D by (simp add: D_def)
qed

lemma cursor_fits:
  assumes D: "n \<in> {2..31}" and r: "rpos v = x * 2 ^ (64 - n) mod 2 ^ 64"
  shows "unat v < 2 ^ n"
proof -
  have "(2 :: nat) ^ (64 - n) dvd rpos v"
    unfolding r by (intro dvd_mod dvd_triv_right le_imp_power_dvd diff_le_self)
  then have z: "take_bit (64 - n) (word_reverse v) = 0"
    unfolding rpos_def by (simp add: unat_eq_0 [symmetric] unsigned_take_bit_eq take_bit_eq_0_iff)
  have "\<not> bit v i" if i: "n \<le> i" "i < 64" for i
  proof
    assume "bit v i"
    then have "bit (take_bit (64 - n) (word_reverse v)) (63 - i)"
      using i D by (auto simp: bit_take_bit_iff bit_word_reverse_iff)
    with z show False by simp
  qed
  then have "bit v i \<Longrightarrow> i < 64 \<Longrightarrow> i < n" for i by (meson not_le)
  then have "v = take_bit n v" by (intro bit_eqI) (auto simp: bit_take_bit_iff)
  then have "unat v = unat v mod 2 ^ n" by (metis take_bit_eq_mod unsigned_take_bit_eq)
  then show ?thesis by (metis mod_less_divisor zero_less_numeral zero_less_power)
qed

context dict_type
begin

lemma scan_run_covers:
  assumes "\<forall>d \<in> set ds. dict_ok ty d \<and> dict_map ty d k \<noteq> None" "sorted (map (\<lambda>d. unat (scan_mask d)) ds)"
    and "ds = [] \<or> unat v \<le> unat (scan_mask (hd ds))" "ds = [] \<longrightarrow> v \<noteq> 0" "rpos v \<le> rpos (dictHashKey ty k)"
    and "scan_run ds v = Some (0, es)"
  shows "\<exists>e \<in> set es. dictCompareKeys ty k (de_key e)"
  using assms
proof (induction ds arbitrary: v es)
  case Nil
  then show ?case by simp
next
  case (Cons d ds)
  have ok: "dict_ok ty d" and "dict_map ty d k \<noteq> None" using Cons.prems(1) by auto
  then obtain e where e: "e \<in> set (dict_entries d)" "dictCompareKeys ty k (de_key e)" by (elim dict_map_present)
  then have ne: "dict_entries d \<noteq> []" by auto
  obtain n v' es1 where n: "n \<in> {2..31}" "scan_mask d = mask n" and c: "dictScan d v = Some (v', es1)"
    and r: "rpos v' = (rpos v div 2 ^ (64 - n) + 1) * 2 ^ (64 - n) mod 2 ^ 64"
    and el: "unat v < 2 ^ n \<longrightarrow> set es1 = {e \<in> set (dict_entries d). in_class ty n v e}"
    using dictScan_call [OF ok ne] .
  have mk: "unat (mask n :: u64) = 2 ^ n - 1" using n(1) by (rule unat_mask_small)
  have "unat v \<le> 2 ^ n - 1" using Cons.prems(3) mk n(2) by simp
  then have fit: "unat v < 2 ^ n" by (simp add: le_less_trans)
  have hash: "dictHashKey ty (de_key e) = dictHashKey ty k" using cmp_hash [OF e(2)] by simp
  show ?case
  proof (cases "v' = 0 \<or> rpos (dictHashKey ty k) < rpos v'")
    case True
    then have "in_class ty n v e"
      unfolding in_class_def hash by (intro interval_class [OF n(1) r Cons.prems(5)])
    then have "e \<in> set es1" using el fit e by blast
    moreover have "set es1 \<subseteq> set es" using Cons.prems(6) c by (auto split: if_splits bind_splits)
    ultimately show ?thesis using e by blast
  next
    case False
    then obtain es2 where rec: "scan_run ds v' = Some (0, es2)" "set es2 \<subseteq> set es"
      using Cons.prems(6) c by (auto split: bind_splits)
    have "unat v' < 2 ^ n" using r by (rule cursor_fits [OF n(1)])
    then have le: "unat v' \<le> unat (scan_mask d)" using mk n(2) by simp
    have "\<exists>e \<in> set es2. dictCompareKeys ty k (de_key e)"
    proof (rule Cons.IH [OF _ _ _ _ _ rec(1)])
      show "ds = [] \<or> unat v' \<le> unat (scan_mask (hd ds))"
        using le Cons.prems(2) by (cases ds) auto
    qed (use Cons.prems False in auto)
    then show ?thesis using rec(2) by blast
  qed
qed

end

text \<open>On an unchanged table the cursor comes back to zero.\<close>

lemma scan_run_ends:
  assumes ok: "dict_ok ty d" and ne: "dict_entries d \<noteq> []" and n: "n \<in> {2..31}" "scan_mask d = mask n"
    and "rpos v = i * 2 ^ (64 - n)" "i < 2 ^ n" "2 ^ n - i \<le> m"
  shows "\<exists>es. scan_run (replicate m d) v = Some (0, es)"
  using assms(5-7)
proof (induction m arbitrary: v i)
  case 0
  then show ?case by simp
next
  case (Suc m)
  obtain n' v' es1 where n': "n' \<in> {2..31}" "scan_mask d = mask n'" and c: "dictScan d v = Some (v', es1)"
    and r: "rpos v' = (rpos v div 2 ^ (64 - n') + 1) * 2 ^ (64 - n') mod 2 ^ 64"
    using dictScan_call [OF ok ne] .
  have "(2 :: nat) ^ n - 1 = 2 ^ n' - 1"
    using unat_mask_small [OF n(1)] unat_mask_small [OF n'(1)] n(2) n'(2) by simp
  moreover have "0 < (2 :: nat) ^ n" "0 < (2 :: nat) ^ n'" by simp_all
  ultimately have "(2 :: nat) ^ n = 2 ^ n'" by linarith
  then have eq: "n' = n" by simp
  have "rpos v div 2 ^ (64 - n) = i" using Suc.prems(1) by simp
  then have r': "rpos v' = (i + 1) * 2 ^ (64 - n) mod 2 ^ 64" using r eq by simp
  show ?case
  proof (cases "i + 1 = 2 ^ n")
    case True
    then have "(i + 1) * 2 ^ (64 - n) = (2 :: nat) ^ 64" using n(1) by (simp flip: power_add)
    then have "v' = 0" using r' rpos_0 [of v'] by simp
    with c show ?thesis by simp
  next
    case False
    then have lt: "i + 1 < 2 ^ n" using Suc.prems(2) by simp
    have "(i + 1) * 2 ^ (64 - n) < (2 :: nat) ^ n * 2 ^ (64 - n)" by (rule mult_strict_right_mono [OF lt]) simp
    also have "\<dots> = 2 ^ 64" using n(1) by (simp flip: power_add)
    finally have r2: "rpos v' = (i + 1) * 2 ^ (64 - n)" using r' by simp
    have "2 ^ n - (i + 1) \<le> m" using Suc.prems(3) by linarith
    then obtain es where "scan_run (replicate m d) v' = Some (0, es)" using Suc.IH [OF r2 lt] by blast
    with c show ?thesis by simp
  qed
qed

section \<open>A shrinking table\<close>

definition shrink_before :: "(u64, nat) dict" where
  "shrink_before = \<lparr>
     ht0 = \<lparr>ht_table = [[], [], [], [], [\<lparr>de_key = 4, de_val = Some 40\<rparr>], [], [], [], [], [], [], [], [], [], [], []],
            ht_size = 16, ht_sizemask = 15, ht_used = 1\<rparr>,
     ht1 = dictReset, rehashidx = -1, iterators = 0\<rparr>"

definition shrink_after :: "(u64, nat) dict" where
  "shrink_after = shrink_before\<lparr>ht1 := \<lparr>ht_table = replicate 4 [], ht_size = 4, ht_sizemask = 3, ht_used = 0\<rparr>,
     rehashidx := 0\<rparr>"

lemma shrink_live: "ht_live word_dictType 4 (ht0 shrink_before)"
  unfolding ht_live_def tab_ok_def
  by (auto simp: shrink_before_def word_dictType_def slot_def dictHashKey_def mask_eq_exp_minus_1 nth_Cons' split: if_splits)

lemma shrink_entries: "dict_entries shrink_before = [\<lparr>de_key = 4, de_val = Some 40\<rparr>]"
  "dict_entries shrink_after = [\<lparr>de_key = 4, de_val = Some 40\<rparr>]"
  by (simp_all add: shrink_after_def shrink_before_def dict_entries_def ht_entries_def dictReset_def)

lemma shrink_ok: "dict_ok word_dictType shrink_before" "dict_ok word_dictType shrink_after"
proof -
  show "dict_ok word_dictType shrink_before"
    using shrink_live unfolding dict_ok_def shrink_entries
    by (auto simp: shrink_before_def used_ok_def ht_entries_def distinct_keys_def dictReset_def)
  have "ht_live word_dictType 2 (ht1 shrink_after)"
    by (simp add: shrink_after_def ht_live_def tab_ok_def mask_eq_exp_minus_1)
  moreover have "ht0 shrink_after = ht0 shrink_before" by (simp add: shrink_after_def)
  ultimately have "rehash_ok word_dictType shrink_after"
    using shrink_live unfolding rehash_ok_def by (auto simp: shrink_after_def)
  then show "dict_ok word_dictType shrink_after"
    unfolding dict_ok_def shrink_entries
    by (simp add: shrink_after_def shrink_before_def used_ok_def ht_entries_def distinct_keys_def)
qed

text \<open>Evaluation of \<open>rev\<close> on constants: its six rounds.\<close>

definition rev_round :: "nat \<Rightarrow> u64 \<Rightarrow> u64 \<Rightarrow> u64" where
  "rev_round k m v = (drop_bit k v AND m) OR (push_bit k v AND NOT m)"

lemma rev_loop_round:
  "drop_bit 1 s = s' \<Longrightarrow> 0 < s' \<Longrightarrow> unat s' = k \<Longrightarrow> m XOR push_bit k m = m' \<Longrightarrow>
   rev_loop s m v = rev_loop s' m' (rev_round k m' v)"
  by (subst rev_loop.simps) (simp add: Let_def rev_round_def)

lemma rev_eval: "rev v = rev_round 1 0x5555555555555555 (rev_round 2 0x3333333333333333 (rev_round 4 0x0F0F0F0F0F0F0F0F
    (rev_round 8 0x00FF00FF00FF00FF (rev_round 16 0x0000FFFF0000FFFF (rev_round 32 0x00000000FFFFFFFF v)))))"
proof -
  have "rev_loop 64 (-1) v = rev_loop 32 0x00000000FFFFFFFF
      (rev_round 32 0x00000000FFFFFFFF v)"
    by (rule rev_loop_round) (simp_all add: mask_eq_exp_minus_1)
  also have "\<dots> = rev_loop 16 0x0000FFFF0000FFFF
      (rev_round 16 0x0000FFFF0000FFFF (rev_round 32 0x00000000FFFFFFFF v))"
    by (rule rev_loop_round) (simp_all add: mask_eq_exp_minus_1)
  also have "\<dots> = rev_loop 8 0x00FF00FF00FF00FF
      (rev_round 8 0x00FF00FF00FF00FF (rev_round 16 0x0000FFFF0000FFFF (rev_round 32 0x00000000FFFFFFFF v)))"
    by (rule rev_loop_round) (simp_all add: mask_eq_exp_minus_1)
  also have "\<dots> = rev_loop 4 0x0F0F0F0F0F0F0F0F
      (rev_round 4 0x0F0F0F0F0F0F0F0F (rev_round 8 0x00FF00FF00FF00FF (rev_round 16 0x0000FFFF0000FFFF (rev_round 32 0x00000000FFFFFFFF v))))"
    by (rule rev_loop_round) (simp_all add: mask_eq_exp_minus_1)
  also have "\<dots> = rev_loop 2 0x3333333333333333
      (rev_round 2 0x3333333333333333 (rev_round 4 0x0F0F0F0F0F0F0F0F (rev_round 8 0x00FF00FF00FF00FF (rev_round 16 0x0000FFFF0000FFFF (rev_round 32 0x00000000FFFFFFFF v)))))"
    by (rule rev_loop_round) (simp_all add: mask_eq_exp_minus_1)
  also have "\<dots> = rev_loop 1 0x5555555555555555
      (rev_round 1 0x5555555555555555 (rev_round 2 0x3333333333333333 (rev_round 4 0x0F0F0F0F0F0F0F0F (rev_round 8 0x00FF00FF00FF00FF (rev_round 16 0x0000FFFF0000FFFF (rev_round 32 0x00000000FFFFFFFF v))))))"
    by (rule rev_loop_round) (simp_all add: mask_eq_exp_minus_1)
  also have "rev_loop 1 m w = w" for m w by (subst rev_loop.simps) simp
  finally show ?thesis by (simp add: rev_def)
qed

lemma next_eval: "v OR NOT m = w \<Longrightarrow> rev w = x \<Longrightarrow> rev (x + 1) = y \<Longrightarrow> dictScan_next v m = y"
  by (simp add: dictScan_next_def)

lemma next_values: "dictScan_next 0 15 = 8" "dictScan_next 16 3 = 2" "dictScan_next 18 3 = 1" "dictScan_next 17 3 = 3" "dictScan_next 19 3 = 0"
proof -
  have "rev 18446744073709551600 = 1152921504606846975" "rev (1152921504606846975 + 1) = 8" by (simp_all add: rev_eval rev_round_def)
  then show "dictScan_next 0 15 = 8" by (intro next_eval [of _ _ 18446744073709551600 1152921504606846975]) simp_all
  have "rev 18446744073709551612 = 4611686018427387903" "rev (4611686018427387903 + 1) = 2" by (simp_all add: rev_eval rev_round_def)
  then show "dictScan_next 16 3 = 2" by (intro next_eval [of _ _ 18446744073709551612 4611686018427387903]) simp_all
  have "rev 18446744073709551614 = 9223372036854775807" "rev (9223372036854775807 + 1) = 1" by (simp_all add: rev_eval rev_round_def)
  then show "dictScan_next 18 3 = 1" by (intro next_eval [of _ _ 18446744073709551614 9223372036854775807]) simp_all
  have "rev 18446744073709551613 = 13835058055282163711" "rev (13835058055282163711 + 1) = 3" by (simp_all add: rev_eval rev_round_def)
  then show "dictScan_next 17 3 = 3" by (intro next_eval [of _ _ 18446744073709551613 13835058055282163711]) simp_all
  have "rev 18446744073709551615 = 18446744073709551615" "rev (18446744073709551615 + 1) = 0" by (simp_all add: rev_eval rev_round_def)
  then show "dictScan_next 19 3 = 0" by (intro next_eval [of _ _ 18446744073709551615 18446744073709551615]) simp_all
qed

lemma shrink_calls:
  "dictScan shrink_before 0 = Some (8, [])" "dictScan shrink_after 8 = Some (2, [])"
  "dictScan shrink_after 2 = Some (1, [])" "dictScan shrink_after 1 = Some (3, [])"
  "dictScan shrink_after 3 = Some (0, [])"
  by (simp_all add: dictScan_def dictSize_def dictIsRehashing_def shrink_before_def shrink_after_def bucket_def
      dictReset_def dictScan_loop.simps Let_def next_values)

section \<open>Correctness\<close>

text \<open>
  (C20) The loop of shifts and masks of \<open>rev\<close> reverses the order of the 64 bits.
\<close>

theorem rev_correct: "rev v = word_reverse v"
  by (rule rev_word_reverse)

text \<open>
  (C9) A scan is complete: a key that is in the table at every call of \<open>dictScan\<close>, from the cursor zero
  until the cursor is zero again, is passed to the callback at least once, whatever insertions,
  deletions, expansions and rehashing steps happen between the calls, as long as the smaller
  of the tables in use never becomes smaller.
\<close>

theorem dictScan_complete:
  assumes "dict_type ty" "ds \<noteq> []" "\<forall>d \<in> set ds. dict_ok ty d \<and> dict_map ty d k \<noteq> None"
    and "sorted (map (\<lambda>d. unat (scan_mask d)) ds)" "scan_run ds 0 = Some (0, es)"
  shows "\<exists>e \<in> set es. dictCompareKeys ty k (de_key e)"
  by (rule dict_type.scan_run_covers [OF assms(1,3,4) _ _ _ assms(5)]) (use assms(2) rpos_0 [of 0] in auto)

text \<open>
  (C10) On a table that does not change, the scan ends after at most as many calls as the smaller
  table has buckets, and it has then emitted every key of the table.
\<close>

theorem dictScan_terminates:
  assumes "dict_type ty" "dict_ok ty d" "dict_entries d \<noteq> []"
  shows "\<exists>es. scan_run (replicate (Suc (unat (scan_mask d))) d) 0 = Some (0, es) \<and>
    (\<forall>k. dict_map ty d k \<noteq> None \<longrightarrow> (\<exists>e \<in> set es. dictCompareKeys ty k (de_key e)))"
proof -
  obtain n v' es1 where n: "n \<in> {2..31}" "scan_mask d = mask n" and "dictScan d 0 = Some (v', es1)"
    and "rpos v' = (rpos 0 div 2 ^ (64 - n) + 1) * 2 ^ (64 - n) mod 2 ^ 64"
    and "unat (0 :: u64) < 2 ^ n \<longrightarrow> set es1 = {e \<in> set (dict_entries d). in_class ty n 0 e}"
    using dictScan_call [OF assms(2,3)] .
  have m: "Suc (unat (scan_mask d)) = 2 ^ n" using unat_mask_small [OF n(1)] n(2) by simp
  obtain es where es: "scan_run (replicate (2 ^ n) d) 0 = Some (0, es)"
    using scan_run_ends [OF assms(2,3) n, of 0 0 "2 ^ n"] rpos_0 [of 0] by auto
  have "\<exists>e \<in> set es. dictCompareKeys ty k (de_key e)" if "dict_map ty d k \<noteq> None" for k
    by (rule dict_type.scan_run_covers [OF assms(1) _ _ _ _ _ es])
      (use assms(2) that rpos_0 [of 0] in \<open>auto simp: sorted_replicate\<close>)
  with es m show ?thesis by auto
qed

theorem dictScan_terminates_witness:
  "\<exists>es. scan_run (replicate 4 example_dict) 0 = Some (0, es) \<and> (\<exists>e \<in> set es. de_key e = 6)"
proof -
  have "dict_entries example_dict \<noteq> []" by (simp add: example_dict_def dict_entries_def ht_entries_def)
  moreover have "Suc (unat (scan_mask example_dict)) = 4" by (simp add: example_dict_def scan_mask_def dictIsRehashing_def)
  ultimately obtain es where es: "scan_run (replicate 4 example_dict) 0 = Some (0, es)"
    and all: "\<forall>k. dict_map word_dictType example_dict k \<noteq> None \<longrightarrow>
      (\<exists>e \<in> set es. dictCompareKeys word_dictType k (de_key e))"
    using dictScan_terminates [OF word_dictType example_dict(1)] by metis
  have "\<exists>e \<in> set es. dictCompareKeys word_dictType 6 (de_key e)" using all example_dict_map by simp
  then have "\<exists>e \<in> set es. de_key e = 6" by (auto simp: word_dictType_def dictCompareKeys_def)
  with es show ?thesis by blast
qed

theorem dictScan_complete_witness:
  "\<exists>es. scan_run [example_dict, example_dict, example_dict, example_dict] 0 = Some (0, es) \<and>
     (\<exists>e \<in> set es. dictCompareKeys word_dictType 9 (de_key e))"
proof -
  have ne: "dict_entries example_dict \<noteq> []" by (simp add: example_dict_def dict_entries_def ht_entries_def)
  have m: "scan_mask example_dict = mask 2"
    by (simp add: example_dict_def scan_mask_def dictIsRehashing_def mask_eq_exp_minus_1)
  have l: "replicate 4 x = [x, x, x, x]" for x :: "(u64, nat) dict" by (simp add: numeral_eq_Suc)
  obtain es where es: "scan_run [example_dict, example_dict, example_dict, example_dict] 0 = Some (0, es)"
    using scan_run_ends [OF example_dict(1) ne _ m, of 0 0 4] rpos_0 [of 0] unfolding l by auto
  with dictScan_complete [OF word_dictType _ _ _ es, of 9] example_dict(1) example_dict_map show ?thesis by auto
qed

text \<open>
  (C31) The guarantee is lost when the table shrinks during the scan. A table of 16 buckets holds
  the key 4; after the first call, which returns the cursor 8, \<open>dictResize\<close> starts to move it to
  4 buckets, and the calls that follow visit the buckets 8 and 12 of the larger table but not 4. The
  scan ends without the key, although it was in the table all the time.
\<close>

theorem dictScan_shrink_misses:
  "dict_ok word_dictType shrink_before \<and> dict_map word_dictType shrink_before 4 = Some (Some 40) \<and>
   dictResize True shrink_before = Some (shrink_after, DICT_OK) \<and>
   dict_ok word_dictType shrink_after \<and> dict_map word_dictType shrink_after 4 = Some (Some 40) \<and>
   scan_run [shrink_before, shrink_after, shrink_after, shrink_after, shrink_after] 0 = Some (0, [])"
proof -
  have m: "dict_map word_dictType d 4 = Some (Some 40)" if "dict_entries d = [\<lparr>de_key = 4, de_val = Some 40\<rparr>]" for d
    using that by (simp add: dict_map_def dictCompareKeys_def word_dictType_def)
  have "dictNextPower_loop 4 4 = Some 4" by (subst dictNextPower_loop.simps) simp
  then have "dictResize True shrink_before = Some (shrink_after, DICT_OK)"
    by (simp add: dictResize_def dictExpand_def dictNextPower_def shrink_before_def shrink_after_def
        dictIsRehashing_def Let_def)
  with m shrink_entries shrink_ok shrink_calls show ?thesis by simp
qed

end
