(* ===== verification/Seq_Interface.thy ===== *)
theory Seq_Interface
  imports Prelude
begin

text \<open>
  The contract of a container of a sequence: adding at both ends, insertion and deletion next to an
  element given by its index from either end, and lookup by index. An operation may fail (\<open>None\<close>: an
  access through a bad pointer) or report that it did nothing (memory is exhausted, the index is out of
  range). The laws say that it never fails while the container is below its capacity \<open>cap\<close>, and what sequence it
  then holds; the client lemma is about whole histories.
\<close>

datatype 'v seq_op = Add_head 'v | Add_tail 'v | Insert_at int bool 'v | Delete_at int | Index_at int | Rotate_seq

datatype 'v seq_obs = Done bool | Value "'v option"

text \<open>Indices count from 0 at the head and from -1 at the tail.\<close>

definition seq_pos :: "int \<Rightarrow> 'v list \<Rightarrow> nat option" where
  "seq_pos i xs =
     (if 0 \<le> i \<and> nat i < length xs then Some (nat i)
      else if i < 0 \<and> nat (- i) \<le> length xs then Some (length xs - nat (- i)) else None)"

definition rotate_back :: "'v list \<Rightarrow> 'v list" where
  "rotate_back xs = (if xs = [] then [] else last xs # butlast xs)"

lemma length_rotate_back [simp]: "length (rotate_back xs) = length xs"
  by (simp add: rotate_back_def)

lemma seq_pos_less: "seq_pos i xs = Some j \<Longrightarrow> j < length xs"
  by (auto simp: seq_pos_def split: if_splits)

primrec run_seq ::
    "('s \<Rightarrow> 'v \<Rightarrow> ('s \<times> bool) option) \<Rightarrow> ('s \<Rightarrow> 'v \<Rightarrow> ('s \<times> bool) option) \<Rightarrow>
     ('s \<Rightarrow> int \<Rightarrow> bool \<Rightarrow> 'v \<Rightarrow> ('s \<times> bool) option) \<Rightarrow> ('s \<Rightarrow> int \<Rightarrow> ('s \<times> bool) option) \<Rightarrow>
     ('s \<Rightarrow> int \<Rightarrow> 'v option option) \<Rightarrow> ('s \<Rightarrow> 's option) \<Rightarrow>
     's \<Rightarrow> 'v seq_op list \<Rightarrow> ('s \<times> 'v seq_obs list) option" where
  "run_seq ah at ins del idx rot s [] = Some (s, [])"
| "run_seq ah at ins del idx rot s (op # ops) = do {
     (s', ob) \<leftarrow> (case op of
        Add_head v \<Rightarrow> map_option (map_prod id Done) (ah s v)
      | Add_tail v \<Rightarrow> map_option (map_prod id Done) (at s v)
      | Insert_at i after v \<Rightarrow> map_option (map_prod id Done) (ins s i after v)
      | Delete_at i \<Rightarrow> map_option (map_prod id Done) (del s i)
      | Index_at i \<Rightarrow> map_option (\<lambda>r. (s, Value r)) (idx s i)
      | Rotate_seq \<Rightarrow> map_option (\<lambda>s. (s, Done True)) (rot s));
     (s'', obs) \<leftarrow> run_seq ah at ins del idx rot s' ops;
     Some (s'', ob # obs)
   }"

text \<open>
  The specification: the sequences a history may lead to and what it observes. An addition succeeds
  unless memory is exhausted, and then it does nothing; all the rest is determined.
\<close>

fun seq_step :: "'v list \<Rightarrow> 'v seq_op \<Rightarrow> 'v seq_obs \<Rightarrow> 'v list option" where
  "seq_step xs (Add_head v) (Done b) = Some (if b then v # xs else xs)"
| "seq_step xs (Add_tail v) (Done b) = Some (if b then xs @ [v] else xs)"
| "seq_step xs (Insert_at i after v) (Done b) = (case seq_pos i xs of
     None \<Rightarrow> if b then None else Some xs
   | Some j \<Rightarrow> let k = (if after then Suc j else j) in Some (if b then take k xs @ v # drop k xs else xs))"
| "seq_step xs (Delete_at i) (Done b) = (case seq_pos i xs of
     None \<Rightarrow> if b then None else Some xs
   | Some j \<Rightarrow> if b then Some (take j xs @ drop (Suc j) xs) else None)"
| "seq_step xs (Index_at i) (Value r) = (if r = map_option (nth xs) (seq_pos i xs) then Some xs else None)"
| "seq_step xs Rotate_seq (Done b) = (if b then Some (rotate_back xs) else None)"
| "seq_step xs _ _ = None"

fun seq_steps :: "'v list \<Rightarrow> 'v seq_op list \<Rightarrow> 'v seq_obs list \<Rightarrow> 'v list option" where
  "seq_steps xs [] [] = Some xs"
| "seq_steps xs (op # ops) (ob # obs) = Option.bind (seq_step xs op ob) (\<lambda>xs'. seq_steps xs' ops obs)"
| "seq_steps xs _ _ = None"

definition okop :: "(int \<Rightarrow> bool) \<Rightarrow> 'v seq_op \<Rightarrow> bool" where
  "okop okidx op \<longleftrightarrow>
     (case op of Insert_at i _ _ \<Rightarrow> okidx i | Delete_at i \<Rightarrow> okidx i | Index_at i \<Rightarrow> okidx i | _ \<Rightarrow> True)"

locale checked_seq =
  fixes add_head :: "'s \<Rightarrow> 'v \<Rightarrow> ('s \<times> bool) option"
    and add_tail :: "'s \<Rightarrow> 'v \<Rightarrow> ('s \<times> bool) option"
    and insert_at :: "'s \<Rightarrow> int \<Rightarrow> bool \<Rightarrow> 'v \<Rightarrow> ('s \<times> bool) option"
    and delete_at :: "'s \<Rightarrow> int \<Rightarrow> ('s \<times> bool) option"
    and index_at :: "'s \<Rightarrow> int \<Rightarrow> 'v option option"
    and rotate :: "'s \<Rightarrow> 's option"
    and holds :: "'s \<Rightarrow> 'v list \<Rightarrow> bool"
    and cap :: nat
    and okidx :: "int \<Rightarrow> bool"
  assumes add_head: "holds s xs \<Longrightarrow> length xs < cap \<Longrightarrow>
      \<exists>s' b. add_head s v = Some (s', b) \<and> holds s' (if b then v # xs else xs)"
    and add_tail: "holds s xs \<Longrightarrow> length xs < cap \<Longrightarrow>
      \<exists>s' b. add_tail s v = Some (s', b) \<and> holds s' (if b then xs @ [v] else xs)"
    and insert_at: "holds s xs \<Longrightarrow> length xs < cap \<Longrightarrow> okidx i \<Longrightarrow>
      \<exists>s' b. insert_at s i after v = Some (s', b) \<and>
        (case seq_pos i xs of None \<Rightarrow> \<not> b \<and> holds s' xs
         | Some j \<Rightarrow> let k = (if after then Suc j else j) in holds s' (if b then take k xs @ v # drop k xs else xs))"
    and delete_at: "holds s xs \<Longrightarrow> okidx i \<Longrightarrow>
      \<exists>s'. delete_at s i = Some (s', seq_pos i xs \<noteq> None) \<and>
        holds s' (case seq_pos i xs of None \<Rightarrow> xs | Some j \<Rightarrow> take j xs @ drop (Suc j) xs)"
    and index_at: "holds s xs \<Longrightarrow> okidx i \<Longrightarrow> index_at s i = Some (map_option (nth xs) (seq_pos i xs))"
    and rotate: "holds s xs \<Longrightarrow> \<exists>s'. rotate s = Some s' \<and> holds s' (rotate_back xs)"
begin

lemma seq_step_sound:
  assumes "holds s xs" "length xs < cap" "okop okidx op"
  obtains s' ob xs' where "run_seq add_head add_tail insert_at delete_at index_at rotate s [op] = Some (s', [ob])"
    "seq_step xs op ob = Some xs'" "holds s' xs'" "length xs' \<le> Suc (length xs)"
proof (cases op)
  case (Add_head v)
  then show ?thesis using add_head [OF assms(1,2), of v] that by fastforce
next
  case (Add_tail v)
  then show ?thesis using add_tail [OF assms(1,2), of v] that by fastforce
next
  case (Insert_at i after v)
  then obtain s' b where s': "insert_at s i after v = Some (s', b)"
    "case seq_pos i xs of None \<Rightarrow> \<not> b \<and> holds s' xs
     | Some j \<Rightarrow> let k = (if after then Suc j else j) in holds s' (if b then take k xs @ v # drop k xs else xs)"
    using insert_at [OF assms(1,2), of i after v] assms(3) by (auto simp: okop_def)
  show ?thesis
  proof (cases "seq_pos i xs")
    case None
    with s' Insert_at that show ?thesis by auto
  next
    case (Some j)
    with s' Insert_at seq_pos_less [OF Some] show ?thesis by (intro that) (auto simp: Let_def)
  qed
next
  case (Delete_at i)
  then obtain s' where "delete_at s i = Some (s', seq_pos i xs \<noteq> None)"
    "holds s' (case seq_pos i xs of None \<Rightarrow> xs | Some j \<Rightarrow> take j xs @ drop (Suc j) xs)"
    using delete_at [OF assms(1), of i] assms(3) by (auto simp: okop_def)
  with Delete_at show ?thesis by (intro that) (auto split: option.splits)
next
  case (Index_at i)
  then show ?thesis using index_at [OF assms(1), of i] assms that by (auto simp: okop_def)
next
  case Rotate_seq
  then show ?thesis using rotate [OF assms(1)] that by fastforce
qed

lemma seq_history:
  assumes "holds s xs" "length xs + length ops \<le> cap" "\<And>op. op \<in> set ops \<Longrightarrow> okop okidx op"
  shows "\<exists>s' obs xs'. run_seq add_head add_tail insert_at delete_at index_at rotate s ops = Some (s', obs) \<and>
    seq_steps xs ops obs = Some xs' \<and> holds s' xs'"
  using assms
proof (induction ops arbitrary: s xs)
  case Nil
  then show ?case by simp
next
  case (Cons op ops)
  have "length xs < cap" "okop okidx op" using Cons.prems(2,3) by auto
  with seq_step_sound [OF Cons.prems(1)] obtain s1 ob xs1 where
    s1: "run_seq add_head add_tail insert_at delete_at index_at rotate s [op] = Some (s1, [ob])"
    "seq_step xs op ob = Some xs1" "holds s1 xs1" "length xs1 \<le> Suc (length xs)" by blast
  have "length xs1 + length ops \<le> cap" using s1(4) Cons.prems(2) by simp
  from Cons.IH [OF s1(3) this] Cons.prems(3) obtain s2 obs xs2 where
    "run_seq add_head add_tail insert_at delete_at index_at rotate s1 ops = Some (s2, obs)"
    "seq_steps xs1 ops obs = Some xs2" "holds s2 xs2" by auto
  with s1(1,2) show ?case by (auto simp: bind_eq_Some_conv)
qed

end

end
