(* ===== verification/Adlist.thy ===== *)
theory Adlist
  imports Seq_Interface
begin

text \<open>
  The doubly linked list of \<open>adlist.c\<close> over an explicit heap of nodes: a map from addresses to
  nodes, \<open>None\<close> as \<open>NULL\<close>, and every access through a pointer that is \<open>NULL\<close> or dangling a failure
  (\<open>None\<close>). \<open>zmalloc\<close> is a parameter that yields the address of the new node; the theorems assume that it
  is not in use. The three callbacks of a list are arguments of the functions that call them.

  \<open>list_rep h l cs\<close> says that \<open>l\<close> is a well-formed list with the addresses and values \<open>cs\<close>. The lemmas
  show that every operation keeps this for the list that the operation on sequences yields and
  changes no node outside of the list.
\<close>

section \<open>Definitions\<close>

type_synonym addr = nat

record 'v listNode =
  ln_prev :: "addr option"
  ln_next :: "addr option"
  ln_value :: 'v

type_synonym 'v heap = "addr \<Rightarrow> 'v listNode option"

record adlist =
  l_head :: "addr option"
  l_tail :: "addr option"
  l_len :: u64

datatype al_direction = AL_START_HEAD | AL_START_TAIL

record listIter =
  li_next :: "addr option"
  li_direction :: al_direction

definition deref :: "'v heap \<Rightarrow> addr option \<Rightarrow> 'v listNode option" where
  "deref h p = Option.bind p h"

definition upd_node :: "'v heap \<Rightarrow> addr option \<Rightarrow> ('v listNode \<Rightarrow> 'v listNode) \<Rightarrow> 'v heap option" where
  "upd_node h p f = do { a \<leftarrow> p; n \<leftarrow> h a; Some (h(a \<mapsto> f n)) }"

definition listCreate :: adlist where
  "listCreate = \<lparr>l_head = None, l_tail = None, l_len = 0\<rparr>"

primrec listEmpty_loop :: "nat \<Rightarrow> 'v heap \<Rightarrow> addr option \<Rightarrow> 'v list \<Rightarrow> ('v heap \<times> 'v list) option" where
  "listEmpty_loop 0 h current freed = Some (h, freed)"
| "listEmpty_loop (Suc len) h current freed = do {
     a \<leftarrow> current;
     n \<leftarrow> h a;
     listEmpty_loop len (h(a := None)) (ln_next n) (freed @ [ln_value n])
   }"

text \<open>The values passed to the \<open>free\<close> callback, if there is one, are returned too.\<close>

definition listEmpty :: "'v heap \<Rightarrow> adlist \<Rightarrow> ('v heap \<times> adlist \<times> 'v list) option" where
  "listEmpty h l = do {
     (h, freed) \<leftarrow> listEmpty_loop (unat (l_len l)) h (l_head l) [];
     Some (h, l\<lparr>l_head := None, l_tail := None, l_len := 0\<rparr>, freed)
   }"

definition listRelease :: "'v heap \<Rightarrow> adlist \<Rightarrow> ('v heap \<times> 'v list) option" where
  "listRelease h l = map_option (\<lambda>(h, l, freed). (h, freed)) (listEmpty h l)"

definition listAddNodeHead ::
    "('v heap \<Rightarrow> addr option) \<Rightarrow> 'v heap \<Rightarrow> adlist \<Rightarrow> 'v \<Rightarrow> ('v heap \<times> adlist \<times> bool) option" where
  "listAddNodeHead zmalloc h l value = (case zmalloc h of
     None \<Rightarrow> Some (h, l, False)
   | Some node \<Rightarrow>
       if l_len l = 0 then
         Some (h(node \<mapsto> \<lparr>ln_prev = None, ln_next = None, ln_value = value\<rparr>),
               l\<lparr>l_head := Some node, l_tail := Some node, l_len := l_len l + 1\<rparr>, True)
       else do {
         h \<leftarrow> Some (h(node \<mapsto> \<lparr>ln_prev = None, ln_next = l_head l, ln_value = value\<rparr>));
         h \<leftarrow> upd_node h (l_head l) (\<lambda>n. n\<lparr>ln_prev := Some node\<rparr>);
         Some (h, l\<lparr>l_head := Some node, l_len := l_len l + 1\<rparr>, True)
       })"

definition listAddNodeTail ::
    "('v heap \<Rightarrow> addr option) \<Rightarrow> 'v heap \<Rightarrow> adlist \<Rightarrow> 'v \<Rightarrow> ('v heap \<times> adlist \<times> bool) option" where
  "listAddNodeTail zmalloc h l value = (case zmalloc h of
     None \<Rightarrow> Some (h, l, False)
   | Some node \<Rightarrow>
       if l_len l = 0 then
         Some (h(node \<mapsto> \<lparr>ln_prev = None, ln_next = None, ln_value = value\<rparr>),
               l\<lparr>l_head := Some node, l_tail := Some node, l_len := l_len l + 1\<rparr>, True)
       else do {
         h \<leftarrow> Some (h(node \<mapsto> \<lparr>ln_prev = l_tail l, ln_next = None, ln_value = value\<rparr>));
         h \<leftarrow> upd_node h (l_tail l) (\<lambda>n. n\<lparr>ln_next := Some node\<rparr>);
         Some (h, l\<lparr>l_tail := Some node, l_len := l_len l + 1\<rparr>, True)
       })"

definition listInsertNode ::
    "('v heap \<Rightarrow> addr option) \<Rightarrow> 'v heap \<Rightarrow> adlist \<Rightarrow> addr \<Rightarrow> 'v \<Rightarrow> bool \<Rightarrow> ('v heap \<times> adlist \<times> bool) option" where
  "listInsertNode zmalloc h l old_node value after = (case zmalloc h of
     None \<Rightarrow> Some (h, l, False)
   | Some node \<Rightarrow> do {
       old \<leftarrow> h old_node;
       let nprev = (if after then Some old_node else ln_prev old);
       let nnext = (if after then ln_next old else Some old_node);
       let l = (if after then (if l_tail l = Some old_node then l\<lparr>l_tail := Some node\<rparr> else l)
                else (if l_head l = Some old_node then l\<lparr>l_head := Some node\<rparr> else l));
       h \<leftarrow> Some (h(node \<mapsto> \<lparr>ln_prev = nprev, ln_next = nnext, ln_value = value\<rparr>));
       h \<leftarrow> (if nprev \<noteq> None then upd_node h nprev (\<lambda>n. n\<lparr>ln_next := Some node\<rparr>) else Some h);
       h \<leftarrow> (if nnext \<noteq> None then upd_node h nnext (\<lambda>n. n\<lparr>ln_prev := Some node\<rparr>) else Some h);
       Some (h, l\<lparr>l_len := l_len l + 1\<rparr>, True)
     })"

definition listDelNode :: "'v heap \<Rightarrow> adlist \<Rightarrow> addr \<Rightarrow> ('v heap \<times> adlist) option" where
  "listDelNode h l node = do {
     n \<leftarrow> h node;
     (h, l) \<leftarrow> (if ln_prev n \<noteq> None
       then map_option (\<lambda>h. (h, l)) (upd_node h (ln_prev n) (\<lambda>m. m\<lparr>ln_next := ln_next n\<rparr>))
       else Some (h, l\<lparr>l_head := ln_next n\<rparr>));
     n \<leftarrow> h node;
     (h, l) \<leftarrow> (if ln_next n \<noteq> None
       then map_option (\<lambda>h. (h, l)) (upd_node h (ln_next n) (\<lambda>m. m\<lparr>ln_prev := ln_prev n\<rparr>))
       else Some (h, l\<lparr>l_tail := ln_prev n\<rparr>));
     Some (h(node := None), l\<lparr>l_len := l_len l - 1\<rparr>)
   }"

definition listGetIterator :: "adlist \<Rightarrow> al_direction \<Rightarrow> listIter" where
  "listGetIterator l direction =
     \<lparr>li_next = (if direction = AL_START_HEAD then l_head l else l_tail l), li_direction = direction\<rparr>"

definition listRewind :: "adlist \<Rightarrow> listIter" where
  "listRewind l = \<lparr>li_next = l_head l, li_direction = AL_START_HEAD\<rparr>"

definition listRewindTail :: "adlist \<Rightarrow> listIter" where
  "listRewindTail l = \<lparr>li_next = l_tail l, li_direction = AL_START_TAIL\<rparr>"

definition listNext :: "'v heap \<Rightarrow> listIter \<Rightarrow> (addr option \<times> listIter) option" where
  "listNext h it = (case li_next it of
     None \<Rightarrow> Some (None, it)
   | Some current \<Rightarrow> do {
       n \<leftarrow> h current;
       Some (Some current, it\<lparr>li_next := (if li_direction it = AL_START_HEAD then ln_next n else ln_prev n)\<rparr>)
     })"

text \<open>
  \<open>listDup\<close>: the copy is built in the same heap. The callback \<open>dup\<close> may fail; the copy is then
  released, as it is when memory is exhausted.
\<close>

definition dup_value :: "('v \<Rightarrow> 'v option) option \<Rightarrow> 'v \<Rightarrow> 'v option" where
  "dup_value dup value = (case dup of None \<Rightarrow> Some value | Some d \<Rightarrow> d value)"

partial_function (option) listDup_loop ::
    "('v heap \<Rightarrow> addr option) \<Rightarrow> ('v \<Rightarrow> 'v option) option \<Rightarrow> 'v heap \<Rightarrow> adlist \<Rightarrow> listIter \<Rightarrow>
     ('v heap \<times> adlist option) option" where
  "listDup_loop zmalloc dup h copy it = do {
     (node, it) \<leftarrow> listNext h it;
     case node of
       None \<Rightarrow> Some (h, Some copy)
     | Some a \<Rightarrow> do {
         n \<leftarrow> h a;
         case dup_value dup (ln_value n) of
           None \<Rightarrow> map_option (\<lambda>(h, _). (h, None)) (listRelease h copy)
         | Some value \<Rightarrow> do {
             (h, copy, done) \<leftarrow> listAddNodeTail zmalloc h copy value;
             if done then listDup_loop zmalloc dup h copy it
             else map_option (\<lambda>(h, _). (h, None)) (listRelease h copy)
           }
       }
   }"

definition listDup ::
    "('v heap \<Rightarrow> addr option) \<Rightarrow> ('v \<Rightarrow> 'v option) option \<Rightarrow> 'v heap \<Rightarrow> adlist \<Rightarrow> ('v heap \<times> adlist option) option" where
  "listDup zmalloc dup h orig = listDup_loop zmalloc dup h listCreate (listRewind orig)"

partial_function (option) listSearchKey_loop ::
    "('v \<Rightarrow> 'k \<Rightarrow> bool) \<Rightarrow> 'v heap \<Rightarrow> listIter \<Rightarrow> 'k \<Rightarrow> addr option option" where
  "listSearchKey_loop matches h it key = do {
     (node, it) \<leftarrow> listNext h it;
     case node of
       None \<Rightarrow> Some None
     | Some a \<Rightarrow> do {
         n \<leftarrow> h a;
         if matches (ln_value n) key then Some (Some a) else listSearchKey_loop matches h it key
       }
   }"

text \<open>\<open>matches\<close> is the \<open>match\<close> callback, or equality of pointers when there is none.\<close>

definition listSearchKey :: "('v \<Rightarrow> 'k \<Rightarrow> bool) \<Rightarrow> 'v heap \<Rightarrow> adlist \<Rightarrow> 'k \<Rightarrow> addr option option" where
  "listSearchKey matches h l key = listSearchKey_loop matches h (listRewind l) key"

primrec listIndex_loop :: "('v listNode \<Rightarrow> addr option) \<Rightarrow> 'v heap \<Rightarrow> nat \<Rightarrow> addr option \<Rightarrow> addr option option" where
  "listIndex_loop step h 0 n = Some n"
| "listIndex_loop step h (Suc i) n = (case n of
     None \<Rightarrow> Some None
   | Some a \<Rightarrow> do { nd \<leftarrow> h a; listIndex_loop step h i (step nd) })"

text \<open>The negation of the least \<open>long\<close> overflows.\<close>

definition listIndex :: "'v heap \<Rightarrow> adlist \<Rightarrow> int \<Rightarrow> addr option option" where
  "listIndex h l index =
     (if index = - (2 ^ 63) then None
      else if index < 0 then listIndex_loop ln_prev h (nat (- index - 1)) (l_tail l)
      else listIndex_loop ln_next h (nat index) (l_head l))"

definition listRotate :: "'v heap \<Rightarrow> adlist \<Rightarrow> ('v heap \<times> adlist) option" where
  "listRotate h l =
     (if l_len l \<le> 1 then Some (h, l)
      else do {
        tail \<leftarrow> l_tail l;
        n \<leftarrow> h tail;
        l \<leftarrow> Some (l\<lparr>l_tail := ln_prev n\<rparr>);
        h \<leftarrow> upd_node h (l_tail l) (\<lambda>n. n\<lparr>ln_next := None\<rparr>);
        h \<leftarrow> upd_node h (l_head l) (\<lambda>n. n\<lparr>ln_prev := Some tail\<rparr>);
        h \<leftarrow> upd_node h (Some tail) (\<lambda>n. n\<lparr>ln_prev := None\<rparr>);
        h \<leftarrow> upd_node h (Some tail) (\<lambda>n. n\<lparr>ln_next := l_head l\<rparr>);
        Some (h, l\<lparr>l_head := Some tail\<rparr>)
      })"

definition listJoin :: "'v heap \<Rightarrow> adlist \<Rightarrow> adlist \<Rightarrow> ('v heap \<times> adlist \<times> adlist) option" where
  "listJoin h l ot = do {
     h \<leftarrow> (if l_head ot \<noteq> None then upd_node h (l_head ot) (\<lambda>n. n\<lparr>ln_prev := l_tail l\<rparr>) else Some h);
     (h, l) \<leftarrow> (if l_tail l \<noteq> None
       then map_option (\<lambda>h. (h, l)) (upd_node h (l_tail l) (\<lambda>n. n\<lparr>ln_next := l_head ot\<rparr>))
       else Some (h, l\<lparr>l_head := l_head ot\<rparr>));
     Some (h, l\<lparr>l_tail := l_tail ot, l_len := l_len l + l_len ot\<rparr>,
           ot\<lparr>l_head := None, l_tail := None, l_len := 0\<rparr>)
   }"

section \<open>Segments\<close>

text \<open>
  \<open>dseg h pv p cs q nx\<close>: the nodes from \<open>p\<close> on hold the cells \<open>cs\<close>; the node before the first
  is \<open>pv\<close>, the last node is \<open>q\<close> and the node after it \<open>nx\<close>.
\<close>

fun dseg :: "'v heap \<Rightarrow> addr option \<Rightarrow> addr option \<Rightarrow> (addr \<times> 'v) list \<Rightarrow> addr option \<Rightarrow> addr option \<Rightarrow> bool" where
  "dseg h pv p [] q nx \<longleftrightarrow> p = nx \<and> q = pv"
| "dseg h pv p ((a, v) # cs) q nx \<longleftrightarrow> p = Some a \<and>
     (\<exists>m. h a = Some \<lparr>ln_prev = pv, ln_next = m, ln_value = v\<rparr> \<and> dseg h (Some a) m cs q nx)"

definition list_rep :: "'v heap \<Rightarrow> adlist \<Rightarrow> (addr \<times> 'v) list \<Rightarrow> bool" where
  "list_rep h l cs \<longleftrightarrow> dseg h None (l_head l) cs (l_tail l) None \<and> distinct (map fst cs) \<and>
     unat (l_len l) = length cs"

definition frame :: "'v heap \<Rightarrow> 'v heap \<Rightarrow> addr set \<Rightarrow> bool" where
  "frame h h' A \<longleftrightarrow> (\<forall>b. b \<notin> A \<longrightarrow> h' b = h b)"

lemma dseg_append:
  "dseg h pv p (cs @ ds) q nx \<longleftrightarrow> (\<exists>k m. dseg h pv p cs k m \<and> dseg h k m ds q nx)"
  by (induction h pv p cs q nx rule: dseg.induct) auto

lemma dseg_cong: "(\<And>a. a \<in> fst ` set cs \<Longrightarrow> h' a = h a) \<Longrightarrow> dseg h' pv p cs q nx \<longleftrightarrow> dseg h pv p cs q nx"
  by (induction h pv p cs q nx rule: dseg.induct) auto

lemma dseg_upd [simp]: "a \<notin> fst ` set cs \<Longrightarrow> dseg (h(a := x)) pv p cs q nx \<longleftrightarrow> dseg h pv p cs q nx"
  by (rule dseg_cong) auto

lemma dseg_snoc:
  "dseg h pv p (cs @ [(a, v)]) q nx \<longleftrightarrow>
     (\<exists>k. dseg h pv p cs k (Some a) \<and> h a = Some \<lparr>ln_prev = k, ln_next = nx, ln_value = v\<rparr> \<and> q = Some a)"
  by (auto simp: dseg_append)

lemma list_rep_len: "list_rep h l cs \<Longrightarrow> l_len l = 0 \<longleftrightarrow> cs = []"
  by (auto simp: list_rep_def unat_eq_0 [symmetric])

lemma unat_inc: "unat (x :: u64) + 1 < 2 ^ 64 \<Longrightarrow> unat (x + 1) = Suc (unat x)"
  by (simp add: unat_word_ariths)

lemma frame_refl [simp]: "frame h h A"
  by (simp add: frame_def)

lemma frame_upd [simp]: "a \<in> A \<Longrightarrow> frame h (h'(a := x)) A \<longleftrightarrow> frame h h' A"
  by (auto simp: frame_def)

lemma dseg_frame: "frame h h' A \<Longrightarrow> A \<inter> fst ` set cs = {} \<Longrightarrow> dseg h' pv p cs q nx \<longleftrightarrow> dseg h pv p cs q nx"
  by (rule dseg_cong) (auto simp: frame_def)

section \<open>Insertion\<close>

lemma dseg_dom: "dseg h pv p cs q nx \<Longrightarrow> fst ` set cs \<subseteq> dom h"
  by (induction h pv p cs q nx rule: dseg.induct) auto

lemma fresh_cells: "dseg h pv p cs q nx \<Longrightarrow> a \<notin> dom h \<Longrightarrow> a \<notin> fst ` set cs"
  using dseg_dom by blast

text \<open>Changing the pointers at the two ends of a segment.\<close>

lemma dseg_set_prev:
  assumes "dseg h pv p cs q nx" "distinct (map fst cs)" "cs \<noteq> []"
  obtains a h' where "p = Some a" "a \<in> fst ` set cs" "upd_node h p (\<lambda>n. n\<lparr>ln_prev := pv'\<rparr>) = Some h'"
    "dseg h' pv' p cs q nx" "frame h h' {a}"
  using assms by (cases cs) (auto simp: upd_node_def)

lemma dseg_set_next:
  assumes "dseg h pv p cs q nx" "distinct (map fst cs)" "cs \<noteq> []"
  obtains a h' where "q = Some a" "a \<in> fst ` set cs" "upd_node h q (\<lambda>n. n\<lparr>ln_next := nx'\<rparr>) = Some h'"
    "dseg h' pv p cs q nx'" "frame h h' {a}"
proof -
  obtain ds a v where cs: "cs = ds @ [(a, v)]" using assms(3) by (metis rev_exhaust surj_pair)
  show ?thesis
    using assms(1,2) unfolding cs dseg_snoc
    by (intro that [of a "h(a \<mapsto> (the (h a))\<lparr>ln_next := nx'\<rparr>)"]) (auto simp: upd_node_def dseg_snoc cs)
qed

lemma listAddNodeHead_ok:
  assumes rep: "list_rep h l cs" and a: "zmalloc h = Some a" "a \<notin> dom h" and len: "length cs + 1 < 2 ^ 64"
  shows "\<exists>h' l'. listAddNodeHead zmalloc h l v = Some (h', l', True) \<and> list_rep h' l' ((a, v) # cs) \<and>
    frame h h' (insert a (fst ` set cs))"
proof (cases "cs = []")
  case True
  then have "l_len l = 0" using list_rep_len [OF rep] by simp
  with rep a True show ?thesis by (auto simp: listAddNodeHead_def list_rep_def unat_inc)
next
  case False
  have ne: "l_len l \<noteq> 0" using list_rep_len [OF rep] False by simp
  have seg: "dseg h None (l_head l) cs (l_tail l) None" and d: "distinct (map fst cs)" "unat (l_len l) = length cs"
    using rep by (auto simp: list_rep_def)
  have fr: "a \<notin> fst ` set cs" using seg a(2) by (rule fresh_cells)
  let ?h = "h(a \<mapsto> \<lparr>ln_prev = None, ln_next = l_head l, ln_value = v\<rparr>)"
  have "dseg ?h None (l_head l) cs (l_tail l) None" using seg fr by simp
  then obtain b h' where h': "b \<in> fst ` set cs" "upd_node ?h (l_head l) (\<lambda>n. n\<lparr>ln_prev := Some a\<rparr>) = Some h'"
    "dseg h' (Some a) (l_head l) cs (l_tail l) None" "frame ?h h' {b}"
    using dseg_set_prev [OF _ d(1) False] by metis
  have ha: "h' a = ?h a" using h'(1,4) fr by (auto simp: frame_def)
  have "listAddNodeHead zmalloc h l v = Some (h', l\<lparr>l_head := Some a, l_len := l_len l + 1\<rparr>, True)"
    using ne a h'(2) by (simp add: listAddNodeHead_def)
  moreover have "list_rep h' (l\<lparr>l_head := Some a, l_len := l_len l + 1\<rparr>) ((a, v) # cs)"
    using h'(3) ha fr d len by (auto simp: list_rep_def unat_inc)
  moreover have "frame h h' (insert a (fst ` set cs))" using h'(1,4) by (auto simp: frame_def)
  ultimately show ?thesis by blast
qed

lemma listAddNodeTail_ok:
  assumes rep: "list_rep h l cs" and a: "zmalloc h = Some a" "a \<notin> dom h" and len: "length cs + 1 < 2 ^ 64"
  shows "\<exists>h' l'. listAddNodeTail zmalloc h l v = Some (h', l', True) \<and> list_rep h' l' (cs @ [(a, v)]) \<and>
    frame h h' (insert a (fst ` set cs))"
proof (cases "cs = []")
  case True
  then have "l_len l = 0" using list_rep_len [OF rep] by simp
  with rep a True show ?thesis by (auto simp: listAddNodeTail_def list_rep_def unat_inc)
next
  case False
  have ne: "l_len l \<noteq> 0" using list_rep_len [OF rep] False by simp
  have seg: "dseg h None (l_head l) cs (l_tail l) None" and d: "distinct (map fst cs)" "unat (l_len l) = length cs"
    using rep by (auto simp: list_rep_def)
  have fr: "a \<notin> fst ` set cs" using seg a(2) by (rule fresh_cells)
  let ?h = "h(a \<mapsto> \<lparr>ln_prev = l_tail l, ln_next = None, ln_value = v\<rparr>)"
  have "dseg ?h None (l_head l) cs (l_tail l) None" using seg fr by simp
  then obtain b h' where h': "b \<in> fst ` set cs" "upd_node ?h (l_tail l) (\<lambda>n. n\<lparr>ln_next := Some a\<rparr>) = Some h'"
    "dseg h' None (l_head l) cs (l_tail l) (Some a)" "frame ?h h' {b}"
    using dseg_set_next [OF _ d(1) False] by metis
  have ha: "h' a = ?h a" using h'(1,4) fr by (auto simp: frame_def)
  have "listAddNodeTail zmalloc h l v = Some (h', l\<lparr>l_tail := Some a, l_len := l_len l + 1\<rparr>, True)"
    using ne a h'(2) by (simp add: listAddNodeTail_def)
  moreover have "list_rep h' (l\<lparr>l_tail := Some a, l_len := l_len l + 1\<rparr>) (cs @ [(a, v)])"
    using h'(3) ha fr d len by (auto simp: list_rep_def unat_inc dseg_snoc)
  moreover have "frame h h' (insert a (fst ` set cs))" using h'(1,4) by (auto simp: frame_def)
  ultimately show ?thesis by blast
qed

lemma dseg_first: "dseg h pv p cs q nx \<Longrightarrow> cs \<noteq> [] \<Longrightarrow> p = Some (fst (hd cs))"
  by (cases cs) auto

lemma dseg_last: "dseg h pv p cs q nx \<Longrightarrow> cs \<noteq> [] \<Longrightarrow> q = Some (fst (last cs))"
  by (cases cs rule: rev_cases) (auto simp: dseg_snoc)

text \<open>Setting the \<open>next\<close> pointer of the node before a gap and the \<open>prev\<close> pointer of the one after it.\<close>

lemma relink_next:
  assumes "dseg h None hd0 xs k m" "distinct (map fst xs)"
  obtains h' where "(if k \<noteq> None then upd_node h k (\<lambda>n. n\<lparr>ln_next := nx\<rparr>) else Some h) = Some h'"
    "dseg h' None (if xs = [] then nx else hd0) xs k nx" "frame h h' (fst ` set xs)"
proof (cases "xs = []")
  case True
  with assms that [of h] show ?thesis by auto
next
  case False
  obtain b h' where "k = Some b" "b \<in> fst ` set xs" "upd_node h k (\<lambda>n. n\<lparr>ln_next := nx\<rparr>) = Some h'"
    "dseg h' None hd0 xs k nx" "frame h h' {b}" using dseg_set_next [OF assms False] .
  with False show ?thesis by (intro that [of h']) (auto simp: frame_def)
qed

lemma relink_prev:
  assumes "dseg h k m ys tl0 None" "distinct (map fst ys)"
  obtains h' where "(if m \<noteq> None then upd_node h m (\<lambda>n. n\<lparr>ln_prev := pv\<rparr>) else Some h) = Some h'"
    "dseg h' pv m ys (if ys = [] then pv else tl0) None" "frame h h' (fst ` set ys)"
proof (cases "ys = []")
  case True
  with assms that [of h] show ?thesis by auto
next
  case False
  obtain b h' where "m = Some b" "b \<in> fst ` set ys" "upd_node h m (\<lambda>n. n\<lparr>ln_prev := pv\<rparr>) = Some h'"
    "dseg h' pv m ys tl0 None" "frame h h' {b}" using dseg_set_prev [OF assms False] .
  with False show ?thesis by (intro that [of h']) (auto simp: frame_def)
qed

lemma link_between:
  assumes x: "dseg h None hd0 xs k m" and y: "dseg h k m ys tl0 None"
    and d: "distinct (map fst (xs @ ys))" and a: "a \<notin> dom h"
  obtains h1 h2 where
    "(if k \<noteq> None then upd_node (h(a \<mapsto> \<lparr>ln_prev = k, ln_next = m, ln_value = v\<rparr>)) k (\<lambda>n. n\<lparr>ln_next := Some a\<rparr>)
      else Some (h(a \<mapsto> \<lparr>ln_prev = k, ln_next = m, ln_value = v\<rparr>))) = Some h1"
    "(if m \<noteq> None then upd_node h1 m (\<lambda>n. n\<lparr>ln_prev := Some a\<rparr>) else Some h1) = Some h2"
    "dseg h2 None (if xs = [] then Some a else hd0) (xs @ (a, v) # ys) (if ys = [] then Some a else tl0) None"
    "frame h h2 (insert a (fst ` set (xs @ ys)))"
proof -
  let ?h = "h(a \<mapsto> \<lparr>ln_prev = k, ln_next = m, ln_value = v\<rparr>)"
  have fr: "a \<notin> fst ` set xs" "a \<notin> fst ` set ys" using fresh_cells [OF x a] fresh_cells [OF y a] .
  have x0: "dseg ?h None hd0 xs k m" and dx: "distinct (map fst xs)" "distinct (map fst ys)"
    using x fr d by simp_all
  obtain h1 where h1: "(if k \<noteq> None then upd_node ?h k (\<lambda>n. n\<lparr>ln_next := Some a\<rparr>) else Some ?h) = Some h1"
    "dseg h1 None (if xs = [] then Some a else hd0) xs k (Some a)" "frame ?h h1 (fst ` set xs)"
    using relink_next [OF x0 dx(1)] .
  have disj: "fst ` set xs \<inter> fst ` set ys = {}" using d by auto
  have "dseg h1 k m ys tl0 None" using dseg_frame [OF h1(3) disj] y fr(2) by simp
  then obtain h2 where h2: "(if m \<noteq> None then upd_node h1 m (\<lambda>n. n\<lparr>ln_prev := Some a\<rparr>) else Some h1) = Some h2"
    "dseg h2 (Some a) m ys (if ys = [] then Some a else tl0) None" "frame h1 h2 (fst ` set ys)"
    using relink_prev [OF _ dx(2)] by blast
  have "dseg h2 None (if xs = [] then Some a else hd0) xs k (Some a)"
    using dseg_frame [OF h2(3), of xs] disj h1(2) by blast
  moreover have "h2 a = ?h a" using h1(3) h2(3) fr by (simp add: frame_def)
  ultimately have "dseg h2 None (if xs = [] then Some a else hd0) (xs @ (a, v) # ys) (if ys = [] then Some a else tl0) None"
    using h2(2) unfolding dseg_append by auto
  moreover have "frame h h2 (insert a (fst ` set (xs @ ys)))"
    using h1(3) h2(3) by (simp add: frame_def image_Un)
  ultimately show ?thesis using that h1(1) h2(1) by blast
qed

lemma listInsertNode_ok:
  assumes rep: "list_rep h l (xs @ (b, w) # ys)" and a: "zmalloc h = Some a" "a \<notin> dom h"
    and len: "length xs + length ys + 2 < 2 ^ 64"
  shows "\<exists>h' l'. listInsertNode zmalloc h l b v after = Some (h', l', True) \<and>
    list_rep h' l' (if after then xs @ (b, w) # (a, v) # ys else xs @ (a, v) # (b, w) # ys) \<and>
    frame h h' (insert a (fst ` set (xs @ (b, w) # ys)))"
proof -
  obtain k m where seg: "dseg h None (l_head l) xs k (Some b)" "h b = Some \<lparr>ln_prev = k, ln_next = m, ln_value = w\<rparr>"
    "dseg h (Some b) m ys (l_tail l) None"
    and d: "distinct (map fst (xs @ (b, w) # ys))" "unat (l_len l) = length xs + length ys + 1"
    using rep by (auto simp: list_rep_def dseg_append)
  have fr: "a \<notin> fst ` set (xs @ (b, w) # ys)"
    using rep fresh_cells [OF _ a(2)] unfolding list_rep_def by blast
  have inc: "unat (l_len l + 1) = length xs + length ys + 2" using d(2) len by (simp add: unat_inc)
  have tl: "l_tail l = Some b \<longleftrightarrow> ys = []" using seg(3) d(1) dseg_last [OF seg(3)] by (cases ys rule: rev_cases) auto
  have hd: "l_head l = Some b \<longleftrightarrow> xs = []" using seg(1) d(1) dseg_first [OF seg(1)] by (cases xs) auto
  show ?thesis
  proof (cases after)
    case True
    have x: "dseg h None (l_head l) (xs @ [(b, w)]) (Some b) m" using seg by (simp add: dseg_snoc)
    have d': "distinct (map fst ((xs @ [(b, w)]) @ ys))" using d(1) by simp
    obtain h1 h2 where h: "(if Some b \<noteq> None then upd_node (h(a \<mapsto> \<lparr>ln_prev = Some b, ln_next = m, ln_value = v\<rparr>)) (Some b)
          (\<lambda>n. n\<lparr>ln_next := Some a\<rparr>) else Some (h(a \<mapsto> \<lparr>ln_prev = Some b, ln_next = m, ln_value = v\<rparr>))) = Some h1"
      "(if m \<noteq> None then upd_node h1 m (\<lambda>n. n\<lparr>ln_prev := Some a\<rparr>) else Some h1) = Some h2"
      "dseg h2 None (if xs @ [(b, w)] = [] then Some a else l_head l) ((xs @ [(b, w)]) @ (a, v) # ys)
        (if ys = [] then Some a else l_tail l) None"
      "frame h h2 (insert a (fst ` set ((xs @ [(b, w)]) @ ys)))"
      using link_between [OF x seg(3) d' a(2)] .
    let ?l = "(if l_tail l = Some b then l\<lparr>l_tail := Some a\<rparr> else l)\<lparr>l_len := l_len l + 1\<rparr>"
    have "listInsertNode zmalloc h l b v after = Some (h2, ?l, True)"
      using a(1) seg(2) True h(1,2) by (auto simp: listInsertNode_def Let_def)
    moreover have "list_rep h2 ?l (xs @ (b, w) # (a, v) # ys)"
      using h(3) tl fr d(1) inc by (auto simp: list_rep_def)
    ultimately show ?thesis using True h(4) by auto
  next
    case False
    have y: "dseg h k (Some b) ((b, w) # ys) (l_tail l) None" using seg by simp
    obtain h1 h2 where h: "(if k \<noteq> None then upd_node (h(a \<mapsto> \<lparr>ln_prev = k, ln_next = Some b, ln_value = v\<rparr>)) k
          (\<lambda>n. n\<lparr>ln_next := Some a\<rparr>) else Some (h(a \<mapsto> \<lparr>ln_prev = k, ln_next = Some b, ln_value = v\<rparr>))) = Some h1"
      "(if Some b \<noteq> None then upd_node h1 (Some b) (\<lambda>n. n\<lparr>ln_prev := Some a\<rparr>) else Some h1) = Some h2"
      "dseg h2 None (if xs = [] then Some a else l_head l) (xs @ (a, v) # (b, w) # ys)
        (if (b, w) # ys = [] then Some a else l_tail l) None"
      "frame h h2 (insert a (fst ` set (xs @ (b, w) # ys)))"
      using link_between [OF seg(1) y d(1) a(2)] .
    let ?l = "(if l_head l = Some b then l\<lparr>l_head := Some a\<rparr> else l)\<lparr>l_len := l_len l + 1\<rparr>"
    have "listInsertNode zmalloc h l b v after = Some (h2, ?l, True)"
      using a(1) seg(2) False h(1,2) by (auto simp: listInsertNode_def Let_def)
    moreover have "list_rep h2 ?l (xs @ (a, v) # (b, w) # ys)"
      using h(3) hd fr d(1) inc by (auto simp: list_rep_def)
    ultimately show ?thesis using False h(4) by auto
  qed
qed

section \<open>Deletion, rotation, concatenation\<close>

lemma listDelNode_ok:
  assumes rep: "list_rep h l (xs @ (b, w) # ys)"
  shows "\<exists>h' l'. listDelNode h l b = Some (h', l') \<and> list_rep h' l' (xs @ ys) \<and> h' b = None \<and>
    frame h h' (fst ` set (xs @ (b, w) # ys))"
proof -
  obtain k m where seg: "dseg h None (l_head l) xs k (Some b)" "h b = Some \<lparr>ln_prev = k, ln_next = m, ln_value = w\<rparr>"
    "dseg h (Some b) m ys (l_tail l) None"
    and d: "distinct (map fst (xs @ (b, w) # ys))" "unat (l_len l) = length xs + length ys + 1"
    using rep by (auto simp: list_rep_def dseg_append)
  have dx: "distinct (map fst xs)" "distinct (map fst ys)" "fst ` set xs \<inter> fst ` set ys = {}"
    "b \<notin> fst ` set xs" "b \<notin> fst ` set ys" using d(1) by auto
  obtain h1 where h1: "(if k \<noteq> None then upd_node h k (\<lambda>n. n\<lparr>ln_next := m\<rparr>) else Some h) = Some h1"
    "dseg h1 None (if xs = [] then m else l_head l) xs k m" "frame h h1 (fst ` set xs)"
    using relink_next [OF seg(1) dx(1)] .
  have b1: "h1 b = Some \<lparr>ln_prev = k, ln_next = m, ln_value = w\<rparr>" using h1(3) dx(4) seg(2) by (simp add: frame_def)
  have "dseg h1 (Some b) m ys (l_tail l) None" using dseg_frame [OF h1(3) dx(3)] seg(3) by blast
  then obtain h2 where h2: "(if m \<noteq> None then upd_node h1 m (\<lambda>n. n\<lparr>ln_prev := k\<rparr>) else Some h1) = Some h2"
    "dseg h2 k m ys (if ys = [] then k else l_tail l) None" "frame h1 h2 (fst ` set ys)"
    using relink_prev [OF _ dx(2)] by blast
  have x2: "dseg h2 None (if xs = [] then m else l_head l) xs k m"
    using dseg_frame [OF h2(3), of xs] dx(3) h1(2) by blast
  have nk: "k = None \<longleftrightarrow> xs = []" using seg(1) dseg_last [OF seg(1)] by (cases xs) auto
  have nm: "m = None \<longleftrightarrow> ys = []" using seg(3) dseg_first [OF seg(3)] by (cases ys) auto
  let ?l1 = "if xs = [] then l\<lparr>l_head := m\<rparr> else l"
  let ?l2 = "if ys = [] then ?l1\<lparr>l_tail := k\<rparr> else ?l1"
  have "listDelNode h l b = Some (h2(b := None), ?l2\<lparr>l_len := l_len l - 1\<rparr>)"
    using seg(2) b1 h1(1) h2(1) nk nm by (cases "xs = []"; cases "ys = []") (auto simp: listDelNode_def)
  moreover have "list_rep (h2(b := None)) (?l2\<lparr>l_len := l_len l - 1\<rparr>) (xs @ ys)"
  proof -
    have "dseg h2 None (if xs = [] then m else l_head l) (xs @ ys) (if ys = [] then k else l_tail l) None"
      using x2 h2(2) unfolding dseg_append by blast
    moreover have "unat (l_len l - 1) = length xs + length ys"
      using d(2) by (metis add_diff_cancel_right' unat_0 unat_minus_one nat.simps(3) add_Suc_right One_nat_def)
    moreover have "l_head ?l2 = (if xs = [] then m else l_head l)" "l_tail ?l2 = (if ys = [] then k else l_tail l)" by simp_all
    moreover have "dseg (h2(b := None)) p q cs r t = dseg h2 p q cs r t" if "b \<notin> fst ` set cs" for p q cs r t
      using that by (intro dseg_cong) auto
    ultimately show ?thesis using d(1) dx by (simp add: list_rep_def image_Un)
  qed
  moreover have "frame h (h2(b := None)) (fst ` set (xs @ (b, w) # ys))"
    using h1(3) h2(3) by (simp add: frame_def image_Un)
  ultimately show ?thesis by fastforce
qed

lemma upd_node_at: "h a = Some n \<Longrightarrow> upd_node h (Some a) f = Some (h(a \<mapsto> f n))"
  by (simp add: upd_node_def)

lemma listRotate_ok:
  assumes rep: "list_rep h l cs"
  shows "\<exists>h' l'. listRotate h l = Some (h', l') \<and>
    list_rep h' l' (if cs = [] then [] else last cs # butlast cs) \<and> frame h h' (fst ` set cs)"
proof (cases "length cs \<le> 1")
  case True
  then have "l_len l \<le> 1" using rep by (simp add: list_rep_def word_le_nat_alt)
  moreover have "(if cs = [] then [] else last cs # butlast cs) = cs" using True by (cases cs) auto
  ultimately show ?thesis using rep by (simp add: listRotate_def frame_def)
next
  case False
  then obtain xs t w where cs: "cs = xs @ [(t, w)]" "xs \<noteq> []" by (cases cs rule: rev_cases) auto
  obtain k where seg: "dseg h None (l_head l) xs k (Some t)" "h t = Some \<lparr>ln_prev = k, ln_next = None, ln_value = w\<rparr>"
    "l_tail l = Some t" and d: "distinct (map fst xs)" "t \<notin> fst ` set xs"
    using rep by (auto simp: list_rep_def cs(1) dseg_snoc)
  have big: "\<not> l_len l \<le> 1" using rep False by (simp add: list_rep_def word_le_nat_alt)
  obtain a where k: "k = Some a" using dseg_last [OF seg(1) cs(2)] by blast
  obtain b where hd: "l_head l = Some b" using dseg_first [OF seg(1) cs(2)] by blast
  obtain h1 where h1: "(if k \<noteq> None then upd_node h k (\<lambda>n. n\<lparr>ln_next := None\<rparr>) else Some h) = Some h1"
    "dseg h1 None (if xs = [] then None else l_head l) xs k None" "frame h h1 (fst ` set xs)"
    using relink_next [OF seg(1) d(1)] .
  have s1: "dseg h1 None (l_head l) xs k None" using h1(2) cs(2) by simp
  obtain h2 where h2: "(if l_head l \<noteq> None then upd_node h1 (l_head l) (\<lambda>n. n\<lparr>ln_prev := Some t\<rparr>) else Some h1) = Some h2"
    "dseg h2 (Some t) (l_head l) xs (if xs = [] then Some t else k) None" "frame h1 h2 (fst ` set xs)"
    using relink_prev [OF s1 d(1)] .
  have t2: "h2 t = Some \<lparr>ln_prev = k, ln_next = None, ln_value = w\<rparr>"
    using h1(3) h2(3) d(2) seg(2) by (simp add: frame_def)
  let ?h = "h2(t \<mapsto> \<lparr>ln_prev = None, ln_next = l_head l, ln_value = w\<rparr>)"
  have "listRotate h l = Some (?h, l\<lparr>l_tail := k, l_head := Some t\<rparr>)"
    using big seg(2,3) h1(1) h2(1) t2 k hd by (simp add: listRotate_def upd_node_at)
  moreover have "list_rep ?h (l\<lparr>l_tail := k, l_head := Some t\<rparr>) ((t, w) # xs)"
    using h2(2) d cs rep by (simp add: list_rep_def)
  moreover have "frame h ?h (fst ` set cs)" using h1(3) h2(3) by (simp add: frame_def cs(1) image_Un)
  ultimately show ?thesis by (simp add: cs(1))
qed

lemma listJoin_ok:
  assumes l: "list_rep h l xs" and ot: "list_rep h ot ys" and ne: "ys \<noteq> [] \<or> xs = []"
    and disj: "fst ` set xs \<inter> fst ` set ys = {}" and len: "length xs + length ys < 2 ^ 64"
  shows "\<exists>h' l' ot'. listJoin h l ot = Some (h', l', ot') \<and> list_rep h' l' (xs @ ys) \<and> list_rep h' ot' [] \<and>
    frame h h' (fst ` set (xs @ ys))"
proof -
  have sx: "dseg h None (l_head l) xs (l_tail l) None" "distinct (map fst xs)"
    and sy: "dseg h None (l_head ot) ys (l_tail ot) None" "distinct (map fst ys)"
    using l ot by (simp_all add: list_rep_def)
  obtain h1 where h1: "(if l_head ot \<noteq> None then upd_node h (l_head ot) (\<lambda>n. n\<lparr>ln_prev := l_tail l\<rparr>) else Some h) = Some h1"
    "dseg h1 (l_tail l) (l_head ot) ys (if ys = [] then l_tail l else l_tail ot) None" "frame h h1 (fst ` set ys)"
    using relink_prev [OF sy] .
  have "dseg h1 None (l_head l) xs (l_tail l) None" using dseg_frame [OF h1(3), of xs] disj sx(1) by blast
  then obtain h2 where h2: "(if l_tail l \<noteq> None then upd_node h1 (l_tail l) (\<lambda>n. n\<lparr>ln_next := l_head ot\<rparr>) else Some h1) = Some h2"
    "dseg h2 None (if xs = [] then l_head ot else l_head l) xs (l_tail l) (l_head ot)" "frame h1 h2 (fst ` set xs)"
    using relink_next [OF _ sx(2)] by blast
  have y2: "dseg h2 (l_tail l) (l_head ot) ys (if ys = [] then l_tail l else l_tail ot) None"
    using dseg_frame [OF h2(3), of ys] disj h1(2) by blast
  have nt: "l_tail l = None \<longleftrightarrow> xs = []" using sx(1) dseg_last [OF sx(1)] by (cases xs) auto
  have tl: "(if ys = [] then l_tail l else l_tail ot) = l_tail ot" using ne nt sy(1) by auto
  let ?l = "(if xs = [] then l\<lparr>l_head := l_head ot\<rparr> else l)\<lparr>l_tail := l_tail ot, l_len := l_len l + l_len ot\<rparr>"
  let ?o = "ot\<lparr>l_head := None, l_tail := None, l_len := 0\<rparr>"
  have "listJoin h l ot = Some (h2, ?l, ?o)"
    using h1(1) h2(1) nt by (auto simp: listJoin_def)
  moreover have "unat (l_len l + l_len ot) = length xs + length ys"
    using l ot len by (simp add: list_rep_def unat_word_ariths)
  then have "list_rep h2 ?l (xs @ ys)"
    using h2(2) y2 tl disj sx(2) sy(2) by (auto simp: list_rep_def dseg_append)
  moreover have "list_rep h2 ?o []" by (simp add: list_rep_def)
  moreover have "frame h h2 (fst ` set (xs @ ys))" using h1(3) h2(3) by (simp add: frame_def image_Un)
  ultimately show ?thesis by blast
qed

section \<open>Traversal\<close>

lemma listIndex_loop_next:
  "dseg h pv p cs q None \<Longrightarrow>
   listIndex_loop ln_next h i p = Some (if i < length cs then Some (fst (cs ! i)) else None)"
proof (induction i arbitrary: pv p cs)
  case 0
  then show ?case by (cases cs) auto
next
  case (Suc i)
  then show ?case by (cases cs) fastforce+
qed

lemma listIndex_loop_prev:
  "dseg h None p cs q nx \<Longrightarrow>
   listIndex_loop ln_prev h i q = Some (if i < length cs then Some (fst (rev cs ! i)) else None)"
proof (induction i arbitrary: q cs nx)
  case 0
  then show ?case by (cases cs rule: rev_cases) (auto simp: dseg_snoc)
next
  case (Suc i)
  then show ?case by (cases cs rule: rev_cases) (fastforce simp: dseg_snoc)+
qed

lemma listSearchKey_loop_ok:
  "dseg h pv p cs q None \<Longrightarrow>
   listSearchKey_loop matches h \<lparr>li_next = p, li_direction = AL_START_HEAD\<rparr> key =
     Some (map_option fst (find (\<lambda>(a, v). matches v key) cs))"
proof (induction cs arbitrary: pv p)
  case Nil
  then show ?case by (subst listSearchKey_loop.simps) (simp add: listNext_def)
next
  case (Cons c cs)
  then show ?case by (cases c, subst listSearchKey_loop.simps) (auto simp: listNext_def)
qed

lemma listEmpty_loop_ok:
  "dseg h pv p cs q None \<Longrightarrow> distinct (map fst cs) \<Longrightarrow>
   listEmpty_loop (length cs) h p freed = Some (h |` (- (fst ` set cs)), freed @ map snd cs)"
proof (induction cs arbitrary: h pv p freed)
  case Nil
  then show ?case by simp
next
  case (Cons c cs)
  obtain a v where c: "c = (a, v)" by fastforce
  obtain m where m: "p = Some a" "h a = Some \<lparr>ln_prev = pv, ln_next = m, ln_value = v\<rparr>" "dseg h (Some a) m cs q None"
    using Cons.prems(1) by (auto simp: c)
  have "dseg (h(a := None)) (Some a) m cs q None" using m(3) Cons.prems(2) c by simp
  moreover have "distinct (map fst cs)" using Cons.prems(2) by simp
  ultimately have "listEmpty_loop (length cs) (h(a := None)) m (freed @ [v]) =
    Some ((h(a := None)) |` (- (fst ` set cs)), (freed @ [v]) @ map snd cs)" by (rule Cons.IH)
  moreover have "(h(a := None)) |` (- (fst ` set cs)) = h |` (- (fst ` set (c # cs)))"
    by (auto simp: c restrict_map_def fun_eq_iff)
  ultimately show ?case by (simp add: m(1,2) c)
qed

lemma listEmpty_ok:
  assumes "list_rep h l cs"
  shows "listEmpty h l = Some (h |` (- (fst ` set cs)), listCreate, map snd cs)"
  using listEmpty_loop_ok [of h None "l_head l" cs "l_tail l" "[]"] assms
  by (auto simp: listEmpty_def list_rep_def listCreate_def)

lemma listDup_loop_ok:
  fixes h :: "'v heap"
  assumes fresh: "\<And>(h :: 'v heap) a. zmalloc h = Some a \<Longrightarrow> a \<notin> dom h"
  shows "dseg h pv p cs q None \<Longrightarrow> list_rep h1 copy ds \<Longrightarrow> frame h h1 (fst ` set ds) \<Longrightarrow>
    fst ` set ds \<inter> dom h = {} \<Longrightarrow> length ds + length cs < 2 ^ 64 \<Longrightarrow>
    \<exists>h' r. listDup_loop zmalloc dup h1 copy \<lparr>li_next = p, li_direction = AL_START_HEAD\<rparr> = Some (h', r) \<and>
     (case r of None \<Rightarrow> h' = h
      | Some c \<Rightarrow> \<exists>ds'. list_rep h' c (ds @ ds') \<and> frame h h' (fst ` set (ds @ ds')) \<and> fst ` set ds' \<inter> dom h = {} \<and>
          map (dup_value dup) (map snd cs) = map Some (map snd ds'))"
proof (induction cs arbitrary: pv p h1 copy ds)
  case Nil
  then show ?case
    by (subst listDup_loop.simps) (auto simp: listNext_def intro!: exI [of _ "[]"])
next
  case (Cons c cs)
  obtain a v where c: "c = (a, v)" by fastforce
  obtain m where m: "p = Some a" "h a = Some \<lparr>ln_prev = pv, ln_next = m, ln_value = v\<rparr>" "dseg h (Some a) m cs q None"
    using Cons.prems(1) by (auto simp: c)
  have "a \<notin> fst ` set ds" using m(2) Cons.prems(4) by auto
  then have a1: "h1 a = Some \<lparr>ln_prev = pv, ln_next = m, ln_value = v\<rparr>" using Cons.prems(3) m(2) by (simp add: frame_def)
  have undone: "h1 |` (- (fst ` set ds)) = h"
  proof
    fix x
    have "x \<in> fst ` set ds \<Longrightarrow> h x = None" using Cons.prems(4) by blast
    then show "(h1 |` (- (fst ` set ds))) x = h x" using Cons.prems(3) by (simp add: restrict_map_def frame_def)
  qed
  have rel: "listRelease h1 copy = Some (h, map snd ds)"
    using listEmpty_ok [OF Cons.prems(2)] by (simp add: listRelease_def undone)
  note step = listDup_loop.simps [of zmalloc dup h1 copy "\<lparr>li_next = Some a, li_direction = AL_START_HEAD\<rparr>"]
  show ?case
  proof (cases "dup_value dup v")
    case None
    then show ?thesis using rel by (simp add: step listNext_def m(1) a1)
  next
    case (Some w)
    show ?thesis
    proof (cases "zmalloc h1")
      case None
      then show ?thesis using Some rel by (simp add: step listNext_def m(1) a1 listAddNodeTail_def)
    next
      case (Some b)
      note b = Some fresh [OF Some]
      have "length ds + 1 < 2 ^ 64" using Cons.prems(5) by simp
      from listAddNodeTail_ok [where zmalloc = zmalloc, OF Cons.prems(2) b this, of w] obtain h2 copy' where
        add: "listAddNodeTail zmalloc h1 copy w = Some (h2, copy', True)" "list_rep h2 copy' (ds @ [(b, w)])"
        "frame h1 h2 (insert b (fst ` set ds))" by blast
      have "b \<in> fst ` set ds \<Longrightarrow> b \<notin> dom h" using Cons.prems(4) by blast
      then have nb: "b \<notin> dom h" using b(2) Cons.prems(3) by (cases "b \<in> fst ` set ds") (auto simp: frame_def domIff)
      have f2: "frame h h2 (fst ` set (ds @ [(b, w)]))" using add(3) Cons.prems(3) by (simp add: frame_def)
      have d2: "fst ` set (ds @ [(b, w)]) \<inter> dom h = {}" using nb Cons.prems(4) by auto
      have l2: "length (ds @ [(b, w)]) + length cs < 2 ^ 64" using Cons.prems(5) by simp
      from Cons.IH [OF m(3) add(2) f2 d2 l2] obtain h3 r where
        r: "listDup_loop zmalloc dup h2 copy' \<lparr>li_next = m, li_direction = AL_START_HEAD\<rparr> = Some (h3, r)"
        "case r of None \<Rightarrow> h3 = h
         | Some c \<Rightarrow> \<exists>ds'. list_rep h3 c ((ds @ [(b, w)]) @ ds') \<and> frame h h3 (fst ` set ((ds @ [(b, w)]) @ ds')) \<and>
             fst ` set ds' \<inter> dom h = {} \<and> map (dup_value dup) (map snd cs) = map Some (map snd ds')" by blast
      have "listDup_loop zmalloc dup h1 copy \<lparr>li_next = p, li_direction = AL_START_HEAD\<rparr> = Some (h3, r)"
        using r(1) add(1) \<open>dup_value dup v = Some w\<close> by (simp add: step listNext_def m(1) a1)
      moreover have "case r of None \<Rightarrow> h3 = h
         | Some c' \<Rightarrow> \<exists>ds'. list_rep h3 c' (ds @ ds') \<and> frame h h3 (fst ` set (ds @ ds')) \<and>
             fst ` set ds' \<inter> dom h = {} \<and> map (dup_value dup) (map snd (c # cs)) = map Some (map snd ds')"
      proof (cases r)
        case None
        with r(2) show ?thesis by simp
      next
        case (Some c')
        then obtain ds' where "list_rep h3 c' (ds @ (b, w) # ds')" "frame h h3 (fst ` set (ds @ (b, w) # ds'))"
          "fst ` set ds' \<inter> dom h = {}" "map (dup_value dup) (map snd cs) = map Some (map snd ds')" using r(2) by auto
        moreover have "fst ` set ((b, w) # ds') \<inter> dom h = {}" using calculation(3) nb by simp
        ultimately show ?thesis using Some \<open>dup_value dup v = Some w\<close> by (simp add: c) (rule exI [of _ "(b, w) # ds'"], simp)
      qed
      ultimately show ?thesis by blast
    qed
  qed
qed

section \<open>Histories\<close>

text \<open>A list with its heap as a container of a sequence; nodes are found with \<open>listIndex\<close>.\<close>

type_synonym 'v lstate = "'v heap \<times> adlist"

definition lholds :: "'v lstate \<Rightarrow> 'v list \<Rightarrow> bool" where
  "lholds s xs \<longleftrightarrow> (\<exists>cs. list_rep (fst s) (snd s) cs \<and> map snd cs = xs)"

definition lresult :: "('v heap \<times> adlist \<times> bool) option \<Rightarrow> ('v lstate \<times> bool) option" where
  "lresult r = map_option (\<lambda>(h, l, b). ((h, l), b)) r"

definition ladd_head :: "('v heap \<Rightarrow> addr option) \<Rightarrow> 'v lstate \<Rightarrow> 'v \<Rightarrow> ('v lstate \<times> bool) option" where
  "ladd_head zmalloc s v = lresult (listAddNodeHead zmalloc (fst s) (snd s) v)"

definition ladd_tail :: "('v heap \<Rightarrow> addr option) \<Rightarrow> 'v lstate \<Rightarrow> 'v \<Rightarrow> ('v lstate \<times> bool) option" where
  "ladd_tail zmalloc s v = lresult (listAddNodeTail zmalloc (fst s) (snd s) v)"

definition linsert_at ::
    "('v heap \<Rightarrow> addr option) \<Rightarrow> 'v lstate \<Rightarrow> int \<Rightarrow> bool \<Rightarrow> 'v \<Rightarrow> ('v lstate \<times> bool) option" where
  "linsert_at zmalloc s i after v = do {
     n \<leftarrow> listIndex (fst s) (snd s) i;
     case n of None \<Rightarrow> Some (s, False) | Some a \<Rightarrow> lresult (listInsertNode zmalloc (fst s) (snd s) a v after)
   }"

definition ldelete_at :: "'v lstate \<Rightarrow> int \<Rightarrow> ('v lstate \<times> bool) option" where
  "ldelete_at s i = do {
     n \<leftarrow> listIndex (fst s) (snd s) i;
     case n of None \<Rightarrow> Some (s, False) | Some a \<Rightarrow> map_option (\<lambda>s. (s, True)) (listDelNode (fst s) (snd s) a)
   }"

definition lindex_at :: "'v lstate \<Rightarrow> int \<Rightarrow> 'v option option" where
  "lindex_at s i = do {
     n \<leftarrow> listIndex (fst s) (snd s) i;
     case n of None \<Rightarrow> Some None | Some a \<Rightarrow> map_option (\<lambda>n. Some (ln_value n)) (fst s a)
   }"

definition lrotate :: "'v lstate \<Rightarrow> 'v lstate option" where
  "lrotate s = listRotate (fst s) (snd s)"

definition run_adlist ::
    "('v heap \<Rightarrow> addr option) \<Rightarrow> 'v lstate \<Rightarrow> 'v seq_op list \<Rightarrow> ('v lstate \<times> 'v seq_obs list) option" where
  "run_adlist zmalloc = run_seq (ladd_head zmalloc) (ladd_tail zmalloc) (linsert_at zmalloc) ldelete_at lindex_at lrotate"

lemmas ldefs = lholds_def lresult_def ladd_head_def ladd_tail_def linsert_at_def ldelete_at_def lindex_at_def lrotate_def

lemma listIndex_ok:
  assumes "list_rep h l cs" "i \<noteq> - (2 ^ 63)"
  shows "listIndex h l i = Some (map_option (\<lambda>j. fst (cs ! j)) (seq_pos i cs))"
proof (cases "i < 0")
  case True
  have "listIndex_loop ln_prev h (nat (- i - 1)) (l_tail l) =
      Some (if nat (- i - 1) < length cs then Some (fst (rev cs ! nat (- i - 1))) else None)"
    using assms(1) by (intro listIndex_loop_prev) (auto simp: list_rep_def)
  moreover have "nat (- i - 1) < length cs \<longleftrightarrow> nat (- i) \<le> length cs" using True by linarith
  moreover have "length cs - Suc (nat (- i - 1)) = length cs - nat (- i)" using True by linarith
  ultimately show ?thesis using True assms(2) by (simp add: listIndex_def seq_pos_def rev_nth)
next
  case False
  have "listIndex_loop ln_next h (nat i) (l_head l) = Some (if nat i < length cs then Some (fst (cs ! nat i)) else None)"
    using assms(1) by (intro listIndex_loop_next) (auto simp: list_rep_def)
  with False assms(2) show ?thesis by (simp add: listIndex_def seq_pos_def)
qed

lemma seq_pos_map [simp]: "seq_pos i (map f cs) = seq_pos i cs"
  by (simp add: seq_pos_def)

lemma rotate_back_map [simp]: "rotate_back (map f cs) = map f (rotate_back cs)"
  by (simp add: rotate_back_def last_map map_butlast)

lemma list_rep_value: "list_rep h l cs \<Longrightarrow> j < length cs \<Longrightarrow> \<exists>n. h (fst (cs ! j)) = Some n \<and> ln_value n = snd (cs ! j)"
proof -
  assume "list_rep h l cs" "j < length cs"
  then have "dseg h None (l_head l) (take j cs @ (cs ! j) # drop (Suc j) cs) (l_tail l) None"
    by (simp add: list_rep_def id_take_nth_drop [symmetric])
  then show ?thesis by (cases "cs ! j") (auto simp: dseg_append)
qed

locale node_allocator =
  fixes zmalloc :: "'v heap \<Rightarrow> addr option"
  assumes zmalloc_fresh: "zmalloc h = Some a \<Longrightarrow> a \<notin> dom h"
begin

lemma linsert_law:
  assumes "lholds s xs" "length xs < 2 ^ 64 - 1" "i \<noteq> - (2 ^ 63)"
  shows "\<exists>s' b. linsert_at zmalloc s i after v = Some (s', b) \<and>
    (case seq_pos i xs of None \<Rightarrow> \<not> b \<and> lholds s' xs
     | Some j \<Rightarrow> let k = (if after then Suc j else j) in lholds s' (if b then take k xs @ v # drop k xs else xs))"
proof -
  obtain cs where cs: "list_rep (fst s) (snd s) cs" "xs = map snd cs" using assms(1) by (auto simp: lholds_def)
  note ix = listIndex_ok [OF cs(1) assms(3)]
  show ?thesis
  proof (cases "seq_pos i cs")
    case None
    then show ?thesis using ix assms(1) by (auto simp: linsert_at_def cs(2))
  next
    case (Some j)
    note j = seq_pos_less [OF Some]
    obtain b w where bw: "cs ! j = (b, w)" by fastforce
    have cut: "cs = take j cs @ (b, w) # drop (Suc j) cs" using id_take_nth_drop [OF j] bw by simp
    have rep: "list_rep (fst s) (snd s) (take j cs @ (b, w) # drop (Suc j) cs)" using cs(1) cut by simp
    show ?thesis
    proof (cases "zmalloc (fst s)")
      case None
      then show ?thesis using ix Some assms(1)
        by (auto simp: linsert_at_def cs(2) listInsertNode_def lresult_def Let_def)
    next
      case (Some a)
      have len: "length (take j cs) + length (drop (Suc j) cs) + 2 < 2 ^ 64" using assms(2) j by (simp add: cs(2))
      obtain h' l' where r: "listInsertNode zmalloc (fst s) (snd s) b v after = Some (h', l', True)"
        "list_rep h' l' (if after then take j cs @ (b, w) # (a, v) # drop (Suc j) cs
           else take j cs @ (a, v) # (b, w) # drop (Suc j) cs)"
        using listInsertNode_ok [where zmalloc = zmalloc, OF rep Some zmalloc_fresh [OF Some] len] by blast
      have tk: "take (Suc j) xs = take j xs @ [w]" "drop j xs = w # drop (Suc j) xs"
        using j bw by (simp_all add: cs(2) take_Suc_conv_app_nth Cons_nth_drop_Suc [symmetric] drop_map)
      have "lholds (h', l') (let k = if after then Suc j else j in take k xs @ v # drop k xs)"
        using r(2) tk by (auto simp: lholds_def cs(2) take_map drop_map Let_def split: if_splits intro!: exI)
      then show ?thesis using ix \<open>seq_pos i cs = Some j\<close> r(1) bw
        by (intro exI [of _ "(h', l')"] exI [of _ True]) (simp add: linsert_at_def cs(2) lresult_def Let_def)
    qed
  qed
qed

end

lemma ldelete_law:
  assumes "lholds s xs" "i \<noteq> - (2 ^ 63)"
  shows "\<exists>s'. ldelete_at s i = Some (s', seq_pos i xs \<noteq> None) \<and>
    lholds s' (case seq_pos i xs of None \<Rightarrow> xs | Some j \<Rightarrow> take j xs @ drop (Suc j) xs)"
proof -
  obtain cs where cs: "list_rep (fst s) (snd s) cs" "xs = map snd cs" using assms(1) by (auto simp: lholds_def)
  note ix = listIndex_ok [OF cs(1) assms(2)]
  show ?thesis
  proof (cases "seq_pos i cs")
    case None
    then show ?thesis using ix assms(1) by (simp add: ldelete_at_def cs(2))
  next
    case (Some j)
    obtain b w where bw: "cs ! j = (b, w)" by fastforce
    have "list_rep (fst s) (snd s) (take j cs @ (b, w) # drop (Suc j) cs)"
      using cs(1) id_take_nth_drop [OF seq_pos_less [OF Some]] bw by simp
    from listDelNode_ok [OF this] obtain h' l' where
      "listDelNode (fst s) (snd s) b = Some (h', l')" "list_rep h' l' (take j cs @ drop (Suc j) cs)" by blast
    with ix Some bw show ?thesis
      by (auto simp: ldelete_at_def cs(2) lholds_def take_map drop_map intro!: exI)
  qed
qed

sublocale node_allocator \<subseteq> as_seq: checked_seq "ladd_head zmalloc" "ladd_tail zmalloc" "linsert_at zmalloc" ldelete_at
  lindex_at lrotate lholds "2 ^ 64 - 1" "\<lambda>i. i \<noteq> - (2 ^ 63)"
proof unfold_locales
  fix s :: "'v lstate" and xs v
  assume h: "lholds s xs" "length xs < 2 ^ 64 - 1"
  then obtain cs where cs: "list_rep (fst s) (snd s) cs" "xs = map snd cs" by (auto simp: lholds_def)
  have len: "length cs + 1 < 2 ^ 64" using h(2) cs(2) by simp
  show "\<exists>s' b. ladd_head zmalloc s v = Some (s', b) \<and> lholds s' (if b then v # xs else xs)"
  proof (cases "zmalloc (fst s)")
    case None
    with h(1) show ?thesis by (auto simp: ladd_head_def listAddNodeHead_def lresult_def)
  next
    case (Some a)
    from listAddNodeHead_ok [where zmalloc = zmalloc, OF cs(1) Some zmalloc_fresh [OF Some] len]
    show ?thesis by (fastforce simp: ladd_head_def lresult_def lholds_def cs(2) intro: exI [of _ "(a, v) # cs"])
  qed
  show "\<exists>s' b. ladd_tail zmalloc s v = Some (s', b) \<and> lholds s' (if b then xs @ [v] else xs)"
  proof (cases "zmalloc (fst s)")
    case None
    with h(1) show ?thesis by (auto simp: ladd_tail_def listAddNodeTail_def lresult_def)
  next
    case (Some a)
    from listAddNodeTail_ok [where zmalloc = zmalloc, OF cs(1) Some zmalloc_fresh [OF Some] len]
    show ?thesis by (fastforce simp: ladd_tail_def lresult_def lholds_def cs(2) intro: exI [of _ "cs @ [(a, v)]"])
  qed
next
  fix s :: "'v lstate" and xs and i :: int
  assume h: "lholds s xs" "i \<noteq> - (2 ^ 63)"
  then obtain cs where cs: "list_rep (fst s) (snd s) cs" "xs = map snd cs" by (auto simp: lholds_def)
  show "lindex_at s i = Some (map_option ((!) xs) (seq_pos i xs))"
    using listIndex_ok [OF cs(1) h(2)] list_rep_value [OF cs(1)] seq_pos_less [of i cs]
    by (cases "seq_pos i cs") (fastforce simp: lindex_at_def cs(2))+
next
  fix s :: "'v lstate" and xs
  assume "lholds s xs"
  then show "\<exists>s'. lrotate s = Some s' \<and> lholds s' (rotate_back xs)"
    using listRotate_ok [of "fst s" "snd s"] by (fastforce simp: lholds_def lrotate_def rotate_back_def [symmetric])
qed (fact linsert_law ldelete_law)+

context node_allocator
begin

lemma adlist_history:
  assumes "list_rep h l cs" "length cs + length ops < 2 ^ 64" "\<And>op. op \<in> set ops \<Longrightarrow> okop (\<lambda>i. i \<noteq> - (2 ^ 63)) op"
  shows "\<exists>h' l' obs cs'. run_adlist zmalloc (h, l) ops = Some ((h', l'), obs) \<and>
    seq_steps (map snd cs) ops obs = Some (map snd cs') \<and> list_rep h' l' cs'"
proof -
  have 1: "lholds (h, l) (map snd cs)" using assms(1) by (auto simp: lholds_def)
  have 2: "length (map snd cs) + length ops \<le> 2 ^ 64 - 1" using assms(2) by simp
  obtain h' l' obs xs' where r: "run_adlist zmalloc (h, l) ops = Some ((h', l'), obs)"
    "seq_steps (map snd cs) ops obs = Some xs'" "lholds (h', l') xs'"
    using as_seq.seq_history [OF 1 2 assms(3)] by (auto simp: run_adlist_def)
  from r(3) obtain cs' where "list_rep h' l' cs'" "xs' = map snd cs'" by (auto simp: lholds_def)
  with r(1,2) show ?thesis by blast
qed

end

text \<open>An allocator that hands out the lowest address that is free.\<close>

definition first_fit :: "nat \<Rightarrow> 'v heap \<Rightarrow> addr option" where
  "first_fit n h = find (\<lambda>a. h a = None) [0..<n]"

interpretation first_fit: node_allocator "first_fit n"
  by unfold_locales (auto simp: first_fit_def find_Some_iff domIff)

lemma unat_lt: "unat (w :: u64) < 2 ^ 64"
  using unsigned_less [of w] by simp

section \<open>Properties\<close>


definition example_ops :: "nat seq_op list" where
  "example_ops = [Add_tail 5, Add_head 3, Insert_at (- 1) False 4, Rotate_seq, Delete_at 1, Index_at 0]"




text \<open>
  (C33) Joining an empty list to one that is not empty leaves a list with elements and no tail, and the next
  \<open>listAddNodeTail\<close> writes through that null pointer.
\<close>

theorem listJoin_empty_breaks:
  assumes "list_rep h l cs" "cs \<noteq> []" "list_rep h ot []" "zmalloc h = Some a"
  shows "\<exists>l' ot'. listJoin h l ot = Some (h, l', ot') \<and> l_head l' \<noteq> None \<and> l_tail l' = None \<and> l_len l' \<noteq> 0 \<and>
    listAddNodeTail zmalloc h l' v = None"
proof -
  have ot: "l_head ot = None" "l_tail ot = None" "l_len ot = 0" using assms(3) by (auto simp: list_rep_def unat_eq_0)
  have seg: "dseg h None (l_head l) cs (l_tail l) None" and len: "l_len l \<noteq> 0"
    using assms(1,2) by (auto simp: list_rep_def)
  obtain xs b w where cs: "cs = xs @ [(b, w)]" using assms(2) by (cases cs rule: rev_cases) auto
  then obtain k where b: "h b = Some \<lparr>ln_prev = k, ln_next = None, ln_value = w\<rparr>" "l_tail l = Some b"
    using seg by (auto simp: dseg_snoc)
  have "h(b \<mapsto> \<lparr>ln_prev = k, ln_next = None, ln_value = w\<rparr>) = h" using b(1) by (auto simp: fun_eq_iff)
  then have j: "listJoin h l ot = Some (h, l\<lparr>l_tail := None, l_len := l_len l\<rparr>,
      ot\<lparr>l_head := None, l_tail := None, l_len := 0\<rparr>)"
    using b ot by (simp add: listJoin_def upd_node_at)
  have "l_head l \<noteq> None" using dseg_first [OF seg assms(2)] by simp
  with j len assms(4) show ?thesis by (simp add: listAddNodeTail_def upd_node_def)
qed

theorem listJoin_empty_breaks_witness:
  "\<exists>l' ot'. listJoin [3 \<mapsto> \<lparr>ln_prev = None, ln_next = None, ln_value = 7 :: nat\<rparr>] \<lparr>l_head = Some 3, l_tail = Some 3, l_len = 1\<rparr>
      listCreate = Some ([3 \<mapsto> \<lparr>ln_prev = None, ln_next = None, ln_value = 7 :: nat\<rparr>], l', ot') \<and>
    l_head l' \<noteq> None \<and> l_tail l' = None \<and> l_len l' \<noteq> 0 \<and>
    listAddNodeTail (first_fit 10) [3 \<mapsto> \<lparr>ln_prev = None, ln_next = None, ln_value = 7 :: nat\<rparr>] l' 8 = None"
  by (rule listJoin_empty_breaks [where cs = "[(3, 7)]" and a = 0])
    (auto simp: first_fit_def list_rep_def listCreate_def upt_rec)

end
