(* ===== verification/Cluster_State.thy ===== *)
theory Cluster_State
  imports Crc Util
begin

text \<open>
  The state that a node keeps about the cluster (\<open>cluster.h\<close>, \<open>cluster.c\<close>) and the operations on it: the table of
  known nodes, failure reports, masters and slaves, and the assignment of hash slots, which is stored
  twice, as an owner for each slot and as a bitmap in each node.

  A \<open>clusterNode\<close> lives in a heap; a pointer to one is an address and a null pointer is \<open>None\<close>. Following
  a pointer to a node that was freed, an index outside of an array and a failed assertion are all failures
  (\<open>None\<close>). The array of slaves and its length are one list; the list of failure reports is the sequence
  that its linked list holds; the hash table of nodes is an association list with one entry for each name, in
  the order in which an iterator visits it. Each call of \<open>mstime\<close> reads the next value of a clock.
  Messages to other nodes, requests to other parts of the server and writes of the configuration file
  are appended to a list of outputs.
\<close>

unbundle bit_operations_syntax

section \<open>Loops that may fail\<close>

primrec foldM :: "('a \<Rightarrow> 's \<Rightarrow> 's option) \<Rightarrow> 'a list \<Rightarrow> 's \<Rightarrow> 's option" where
  "foldM f [] s = Some s"
| "foldM f (x # xs) s = Option.bind (f x s) (foldM f xs)"

lemma foldM_total:
  assumes "\<And>x s. x \<in> set xs \<Longrightarrow> P s \<Longrightarrow> \<exists>s'. f x s = Some s' \<and> P s'" "P s"
  shows "\<exists>s'. foldM f xs s = Some s' \<and> P s'"
  using assms
proof (induction xs arbitrary: s)
  case (Cons x xs)
  then obtain s1 where "f x s = Some s1" "P s1" by (meson list.set_intros(1))
  with Cons show ?case by simp
qed simp

lemma foldM_inv:
  assumes "foldM f xs s = Some s'" "P s" "\<And>x s s'. x \<in> set xs \<Longrightarrow> f x s = Some s' \<Longrightarrow> P s \<Longrightarrow> P s'"
  shows "P s'"
  using assms
proof (induction xs arbitrary: s)
  case (Cons x xs)
  then obtain s1 where "f x s = Some s1" "foldM f xs s1 = Some s'" by (auto simp: bind_eq_Some_conv)
  with Cons show ?case by (meson list.set_intros)
qed simp

section \<open>State\<close>

definition CLUSTER_SLOTS :: nat where "CLUSTER_SLOTS = 16384"

definition CLUSTER_NODE_MASTER :: u32 where "CLUSTER_NODE_MASTER = 1"
definition CLUSTER_NODE_SLAVE :: u32 where "CLUSTER_NODE_SLAVE = 2"
definition CLUSTER_NODE_PFAIL :: u32 where "CLUSTER_NODE_PFAIL = 4"
definition CLUSTER_NODE_FAIL :: u32 where "CLUSTER_NODE_FAIL = 8"
definition CLUSTER_NODE_MYSELF :: u32 where "CLUSTER_NODE_MYSELF = 16"
definition CLUSTER_NODE_HANDSHAKE :: u32 where "CLUSTER_NODE_HANDSHAKE = 32"
definition CLUSTER_NODE_NOADDR :: u32 where "CLUSTER_NODE_NOADDR = 64"
definition CLUSTER_NODE_MEET :: u32 where "CLUSTER_NODE_MEET = 128"
definition CLUSTER_NODE_MIGRATE_TO :: u32 where "CLUSTER_NODE_MIGRATE_TO = 256"

definition CLUSTER_TODO_HANDLE_FAILOVER :: u32 where "CLUSTER_TODO_HANDLE_FAILOVER = 1"
definition CLUSTER_TODO_UPDATE_STATE :: u32 where "CLUSTER_TODO_UPDATE_STATE = 2"
definition CLUSTER_TODO_SAVE_CONFIG :: u32 where "CLUSTER_TODO_SAVE_CONFIG = 4"
definition CLUSTER_TODO_FSYNC_CONFIG :: u32 where "CLUSTER_TODO_FSYNC_CONFIG = 8"

type_synonym nid = nat

record clusterNode =
  cn_name :: "byte list"
  cn_ctime :: int
  cn_flags :: u32
  cn_configEpoch :: u64
  cn_slots :: "byte list"
  cn_numslots :: int
  cn_slaves :: "nid list"
  cn_slaveof :: "nid option"
  cn_ping_sent :: int
  cn_pong_received :: int
  cn_fail_time :: int
  cn_voted_time :: int
  cn_repl_offset_time :: int
  cn_orphaned_time :: int
  cn_repl_offset :: int
  cn_ip :: "byte list"
  cn_port :: int
  cn_cport :: int
  cn_link :: "nat option"
  cn_fail_reports :: "(nid \<times> int) list"

datatype cluster_status = CLUSTER_OK | CLUSTER_FAIL

text \<open>
  A message of the cluster bus, as it is after the conversion from network byte order. A C string in an array is given up to its
  null byte. The fields from \<open>m_gossip\<close> on are the alternatives of the union, as far as the message extends; only those that belong to the type
  of the message are read.
\<close>

record clusterMsgDataGossip =
  g_nodename :: "byte list"
  g_ping_sent :: u32
  g_pong_received :: u32
  g_ip :: "byte list"
  g_port :: u16
  g_cport :: u16
  g_flags :: u16

record clusterMsg =
  m_totlen :: u32
  m_ver :: u16
  m_port :: u16
  m_type :: u16
  m_count :: u16
  m_currentEpoch :: u64
  m_configEpoch :: u64
  m_offset :: u64
  m_sender :: "byte list"
  m_myslots :: "byte list"
  m_slaveof :: "byte list"
  m_myip :: "byte list"
  m_cport :: u16
  m_flags :: u16
  m_state :: cluster_status
  m_mflags :: byte
  m_gossip :: "clusterMsgDataGossip list"
  m_fail_nodename :: "byte list"
  m_channel_len :: u32
  m_message_len :: u32
  m_bulk_data :: "byte list"
  m_update_configEpoch :: u64
  m_update_nodename :: "byte list"
  m_update_slots :: "byte list"

datatype cluster_out =
  Send_message nat clusterMsg
| Pubsub_publish "byte list" "byte list"
| Send_fail "byte list"
| Send_failover_auth nid u64
| Request_failover_auth u64 bool
| Broadcast_pong bool
| Send_update nat nid
| Send_mfstart nid
| Save_config
| Replication_set_master "byte list" int
| Replication_unset_master
| Del_keys_in_slot nat
| Empty_db
| Free_link nat
| Pause_clients int
| Unpause_clients

record clusterState =
  c_heap :: "nid \<Rightarrow> clusterNode option"
  c_myself :: nid
  c_currentEpoch :: u64
  c_state :: cluster_status
  c_size :: int
  c_nodes :: "(byte list \<times> nid) list"
  c_nodes_black_list :: "(byte list \<times> int) list"
  c_migrating_slots_to :: "nat \<Rightarrow> nid option"
  c_importing_slots_from :: "nat \<Rightarrow> nid option"
  c_slots :: "nat \<Rightarrow> nid option"
  c_failover_auth_time :: int
  c_failover_auth_count :: int
  c_failover_auth_sent :: bool
  c_failover_auth_rank :: int
  c_failover_auth_epoch :: u64
  c_cant_failover_reason :: nat
  c_lastlog_time :: int
  c_mf_end :: int
  c_mf_slave :: "nid option"
  c_mf_master_offset :: int
  c_mf_can_start :: bool
  c_lastVoteEpoch :: u64
  c_todo_before_sleep :: u32
  c_among_minority_time :: int
  c_first_call_time :: int
  c_node_timeout :: int
  c_stats_pfail_nodes :: nat
  c_iteration :: nat
  c_prev_ip :: "byte list option"
  c_link_ctime :: "nat \<Rightarrow> int"
  c_clock :: "nat \<Rightarrow> int"
  c_tick :: nat
  c_out :: "cluster_out list"

definition nodeIsMaster :: "clusterNode \<Rightarrow> bool" where
  "nodeIsMaster n \<longleftrightarrow> cn_flags n AND CLUSTER_NODE_MASTER \<noteq> 0"

definition nodeIsSlave :: "clusterNode \<Rightarrow> bool" where
  "nodeIsSlave n \<longleftrightarrow> cn_flags n AND CLUSTER_NODE_SLAVE \<noteq> 0"

definition nodeInHandshake :: "clusterNode \<Rightarrow> bool" where
  "nodeInHandshake n \<longleftrightarrow> cn_flags n AND CLUSTER_NODE_HANDSHAKE \<noteq> 0"

definition nodeTimedOut :: "clusterNode \<Rightarrow> bool" where
  "nodeTimedOut n \<longleftrightarrow> cn_flags n AND CLUSTER_NODE_PFAIL \<noteq> 0"

definition nodeFailed :: "clusterNode \<Rightarrow> bool" where
  "nodeFailed n \<longleftrightarrow> cn_flags n AND CLUSTER_NODE_FAIL \<noteq> 0"

definition mstime :: "clusterState \<Rightarrow> int \<times> clusterState" where
  "mstime s = (c_clock s (c_tick s), s\<lparr>c_tick := Suc (c_tick s)\<rparr>)"

definition emit :: "cluster_out \<Rightarrow> clusterState \<Rightarrow> clusterState" where
  "emit e s = s\<lparr>c_out := c_out s @ [e]\<rparr>"

definition set_node :: "nid \<Rightarrow> (clusterNode \<Rightarrow> clusterNode) \<Rightarrow> clusterState \<Rightarrow> clusterState option" where
  "set_node n f s = do { x \<leftarrow> c_heap s n; Some (s\<lparr>c_heap := (c_heap s)(n \<mapsto> f x)\<rparr>) }"

definition clusterDoBeforeSleep :: "u32 \<Rightarrow> clusterState \<Rightarrow> clusterState" where
  "clusterDoBeforeSleep flags s = s\<lparr>c_todo_before_sleep := c_todo_before_sleep s OR flags\<rparr>"

text \<open>
  What the functions ask of the rest of the server: the state of replication and of the clients, the number of
  keys, the configuration, the clock in seconds, random numbers, and the address and the name of
  the next node to be created.
\<close>

record cluster_env =
  e_unixtime :: int
  e_time :: int
  e_repl_connected :: bool
  e_master_lastinteraction :: int
  e_repl_down_since :: int
  e_slave_offset :: int
  e_random :: nat
  e_keys_in_slot :: "nat \<Rightarrow> nat"
  e_db_size :: nat
  e_paused :: bool
  e_require_full_coverage :: bool
  e_migration_barrier :: int
  e_slave_validity_factor :: int
  e_repl_ping_slave_period :: int
  e_new_node :: nid
  e_new_name :: "byte list"

section \<open>Nodes\<close>

text \<open>
  \<open>createClusterNode\<close> gets the address from the allocator; \<open>nodename\<close> is the given name, or the random one if
  none is given.
\<close>

definition createClusterNode :: "nid \<Rightarrow> byte list \<Rightarrow> u32 \<Rightarrow> clusterState \<Rightarrow> clusterState" where
  "createClusterNode node nodename flags s =
     (let (now, s) = mstime s in
      s\<lparr>c_heap := (c_heap s)(node \<mapsto>
        \<lparr>cn_name = nodename, cn_ctime = now, cn_flags = flags, cn_configEpoch = 0,
         cn_slots = replicate (CLUSTER_SLOTS div 8) 0, cn_numslots = 0, cn_slaves = [], cn_slaveof = None,
         cn_ping_sent = 0, cn_pong_received = 0, cn_fail_time = 0, cn_voted_time = 0, cn_repl_offset_time = 0,
         cn_orphaned_time = 0, cn_repl_offset = 0, cn_ip = [], cn_port = 0, cn_cport = 0, cn_link = None,
         cn_fail_reports = []\<rparr>)\<rparr>)"

primrec fail_report_touch :: "nid \<Rightarrow> int \<Rightarrow> (nid \<times> int) list \<Rightarrow> (nid \<times> int) list option" where
  "fail_report_touch sender now [] = None"
| "fail_report_touch sender now (fr # frs) =
     (if fst fr = sender then Some ((sender, now) # frs) else map_option ((#) fr) (fail_report_touch sender now frs))"

definition clusterNodeAddFailureReport :: "nid \<Rightarrow> nid \<Rightarrow> clusterState \<Rightarrow> (clusterState \<times> bool) option" where
  "clusterNodeAddFailureReport failing sender s = do {
     f \<leftarrow> c_heap s failing;
     let (now, s) = mstime s;
     case fail_report_touch sender now (cn_fail_reports f) of
       Some frs \<Rightarrow> map_option (\<lambda>s. (s, False)) (set_node failing (\<lambda>x. x\<lparr>cn_fail_reports := frs\<rparr>) s)
     | None \<Rightarrow> map_option (\<lambda>s. (s, True))
         (set_node failing (\<lambda>x. x\<lparr>cn_fail_reports := cn_fail_reports x @ [(sender, now)]\<rparr>) s)
   }"

definition clusterNodeCleanupFailureReports :: "nid \<Rightarrow> clusterState \<Rightarrow> clusterState option" where
  "clusterNodeCleanupFailureReports node s =
     (let maxtime = c_node_timeout s * 2; (now, s) = mstime s in
      set_node node (\<lambda>x. x\<lparr>cn_fail_reports := filter (\<lambda>fr. \<not> now - snd fr > maxtime) (cn_fail_reports x)\<rparr>) s)"

primrec fail_report_remove :: "nid \<Rightarrow> (nid \<times> int) list \<Rightarrow> (nid \<times> int) list option" where
  "fail_report_remove sender [] = None"
| "fail_report_remove sender (fr # frs) =
     (if fst fr = sender then Some frs else map_option ((#) fr) (fail_report_remove sender frs))"

definition clusterNodeDelFailureReport :: "nid \<Rightarrow> nid \<Rightarrow> clusterState \<Rightarrow> (clusterState \<times> bool) option" where
  "clusterNodeDelFailureReport node sender s = do {
     x \<leftarrow> c_heap s node;
     case fail_report_remove sender (cn_fail_reports x) of
       None \<Rightarrow> Some (s, False)
     | Some frs \<Rightarrow> do {
         s \<leftarrow> set_node node (\<lambda>x. x\<lparr>cn_fail_reports := frs\<rparr>) s;
         s \<leftarrow> clusterNodeCleanupFailureReports node s;
         Some (s, True)
       }
   }"

definition clusterNodeFailureReportsCount :: "nid \<Rightarrow> clusterState \<Rightarrow> (clusterState \<times> int) option" where
  "clusterNodeFailureReportsCount node s = do {
     s \<leftarrow> clusterNodeCleanupFailureReports node s;
     x \<leftarrow> c_heap s node;
     Some (s, int (length (cn_fail_reports x)))
   }"

definition clusterNodeRemoveSlave :: "nid \<Rightarrow> nid \<Rightarrow> clusterState \<Rightarrow> (clusterState \<times> bool) option" where
  "clusterNodeRemoveSlave master slave s = do {
     m \<leftarrow> c_heap s master;
     if slave \<in> set (cn_slaves m) then do {
       s \<leftarrow> set_node master (\<lambda>m. m\<lparr>cn_slaves := remove1 slave (cn_slaves m)\<rparr>) s;
       s \<leftarrow> (if length (cn_slaves m) - 1 = 0
         then set_node master (\<lambda>m. m\<lparr>cn_flags := cn_flags m AND NOT CLUSTER_NODE_MIGRATE_TO\<rparr>) s else Some s);
       Some (s, True)
     } else Some (s, False)
   }"

definition clusterNodeAddSlave :: "nid \<Rightarrow> nid \<Rightarrow> clusterState \<Rightarrow> (clusterState \<times> bool) option" where
  "clusterNodeAddSlave master slave s = do {
     m \<leftarrow> c_heap s master;
     if slave \<in> set (cn_slaves m) then Some (s, False)
     else do {
       s \<leftarrow> set_node master (\<lambda>m. m\<lparr>cn_slaves := cn_slaves m @ [slave],
         cn_flags := cn_flags m OR CLUSTER_NODE_MIGRATE_TO\<rparr>) s;
       Some (s, True)
     }
   }"

definition clusterCountNonFailingSlaves :: "nid \<Rightarrow> clusterState \<Rightarrow> int option" where
  "clusterCountNonFailingSlaves n s = do {
     x \<leftarrow> c_heap s n;
     slaves \<leftarrow> those (map (c_heap s) (cn_slaves x));
     Some (int (length (filter (\<lambda>sl. \<not> nodeFailed sl) slaves)))
   }"

definition dictDelete_node :: "byte list \<Rightarrow> clusterState \<Rightarrow> clusterState option" where
  "dictDelete_node name s =
     (if map_of (c_nodes s) name = None then None
      else Some (s\<lparr>c_nodes := filter (\<lambda>e. fst e \<noteq> name) (c_nodes s)\<rparr>))"

definition freeClusterNode :: "nid \<Rightarrow> clusterState \<Rightarrow> clusterState option" where
  "freeClusterNode n s = do {
     x \<leftarrow> c_heap s n;
     s \<leftarrow> foldM (\<lambda>sl. set_node sl (\<lambda>y. y\<lparr>cn_slaveof := None\<rparr>)) (cn_slaves x) s;
     x \<leftarrow> c_heap s n;
     s \<leftarrow> (case cn_slaveof x of
        Some m \<Rightarrow> if nodeIsSlave x then map_option fst (clusterNodeRemoveSlave m n s) else Some s
      | None \<Rightarrow> Some s);
     s \<leftarrow> dictDelete_node (cn_name x) s;
     s \<leftarrow> Some (case cn_link x of Some k \<Rightarrow> emit (Free_link k) s | None \<Rightarrow> s);
     Some (s\<lparr>c_heap := (c_heap s)(n := None)\<rparr>)
   }"

definition clusterAddNode :: "nid \<Rightarrow> clusterState \<Rightarrow> (clusterState \<times> bool) option" where
  "clusterAddNode node s = do {
     x \<leftarrow> c_heap s node;
     if map_of (c_nodes s) (cn_name x) \<noteq> None then Some (s, False)
     else Some (s\<lparr>c_nodes := c_nodes s @ [(cn_name x, node)]\<rparr>, True)
   }"

definition clusterLookupNode :: "byte list \<Rightarrow> clusterState \<Rightarrow> nid option" where
  "clusterLookupNode name s = map_of (c_nodes s) name"

definition clusterRenameNode :: "nid \<Rightarrow> byte list \<Rightarrow> clusterState \<Rightarrow> clusterState option" where
  "clusterRenameNode node newname s = do {
     x \<leftarrow> c_heap s node;
     s \<leftarrow> dictDelete_node (cn_name x) s;
     s \<leftarrow> set_node node (\<lambda>x. x\<lparr>cn_name := newname\<rparr>) s;
     map_option fst (clusterAddNode node s)
   }"

section \<open>Slots\<close>

definition bitmapTestBit :: "byte list \<Rightarrow> nat \<Rightarrow> bool option" where
  "bitmapTestBit bitmap pos =
     (if pos div 8 < length bitmap then Some (bitmap ! (pos div 8) AND push_bit (pos mod 8) 1 \<noteq> 0) else None)"

definition bitmapSetBit :: "byte list \<Rightarrow> nat \<Rightarrow> byte list option" where
  "bitmapSetBit bitmap pos =
     (if pos div 8 < length bitmap
      then Some (bitmap[pos div 8 := bitmap ! (pos div 8) OR push_bit (pos mod 8) 1]) else None)"

definition bitmapClearBit :: "byte list \<Rightarrow> nat \<Rightarrow> byte list option" where
  "bitmapClearBit bitmap pos =
     (if pos div 8 < length bitmap
      then Some (bitmap[pos div 8 := bitmap ! (pos div 8) AND NOT (push_bit (pos mod 8) 1)]) else None)"

definition clusterMastersHaveSlaves :: "clusterState \<Rightarrow> bool option" where
  "clusterMastersHaveSlaves s = do {
     nodes \<leftarrow> those (map (\<lambda>e. c_heap s (snd e)) (c_nodes s));
     Some (sum_list (map (\<lambda>x. length (cn_slaves x)) (filter (\<lambda>x. \<not> nodeIsSlave x) nodes)) \<noteq> 0)
   }"

definition clusterNodeSetSlotBit :: "nid \<Rightarrow> nat \<Rightarrow> clusterState \<Rightarrow> (clusterState \<times> bool) option" where
  "clusterNodeSetSlotBit n slot s = do {
     x \<leftarrow> c_heap s n;
     old \<leftarrow> bitmapTestBit (cn_slots x) slot;
     bm \<leftarrow> bitmapSetBit (cn_slots x) slot;
     s \<leftarrow> set_node n (\<lambda>x. x\<lparr>cn_slots := bm\<rparr>) s;
     if old then Some (s, old)
     else do {
       s \<leftarrow> set_node n (\<lambda>x. x\<lparr>cn_numslots := cn_numslots x + 1\<rparr>) s;
       have_slaves \<leftarrow> (if cn_numslots x + 1 = 1 then clusterMastersHaveSlaves s else Some False);
       s \<leftarrow> (if have_slaves then set_node n (\<lambda>x. x\<lparr>cn_flags := cn_flags x OR CLUSTER_NODE_MIGRATE_TO\<rparr>) s
             else Some s);
       Some (s, old)
     }
   }"

definition clusterNodeClearSlotBit :: "nid \<Rightarrow> nat \<Rightarrow> clusterState \<Rightarrow> (clusterState \<times> bool) option" where
  "clusterNodeClearSlotBit n slot s = do {
     x \<leftarrow> c_heap s n;
     old \<leftarrow> bitmapTestBit (cn_slots x) slot;
     bm \<leftarrow> bitmapClearBit (cn_slots x) slot;
     s \<leftarrow> set_node n (\<lambda>x. x\<lparr>cn_slots := bm\<rparr>) s;
     s \<leftarrow> (if old then set_node n (\<lambda>x. x\<lparr>cn_numslots := cn_numslots x - 1\<rparr>) s else Some s);
     Some (s, old)
   }"

definition clusterNodeGetSlotBit :: "nid \<Rightarrow> nat \<Rightarrow> clusterState \<Rightarrow> bool option" where
  "clusterNodeGetSlotBit n slot s = do { x \<leftarrow> c_heap s n; bitmapTestBit (cn_slots x) slot }"

definition clusterAddSlot :: "nid \<Rightarrow> nat \<Rightarrow> clusterState \<Rightarrow> (clusterState \<times> bool) option" where
  "clusterAddSlot n slot s =
     (if \<not> slot < CLUSTER_SLOTS then None
      else if c_slots s slot \<noteq> None then Some (s, False)
      else do {
        (s, old) \<leftarrow> clusterNodeSetSlotBit n slot s;
        Some (s\<lparr>c_slots := (c_slots s)(slot \<mapsto> n)\<rparr>, True)
      })"

definition clusterDelSlot :: "nat \<Rightarrow> clusterState \<Rightarrow> (clusterState \<times> bool) option" where
  "clusterDelSlot slot s =
     (if \<not> slot < CLUSTER_SLOTS then None
      else case c_slots s slot of
        None \<Rightarrow> Some (s, False)
      | Some n \<Rightarrow> do {
          (s, old) \<leftarrow> clusterNodeClearSlotBit n slot s;
          if old then Some (s\<lparr>c_slots := (c_slots s)(slot := None)\<rparr>, True) else None
        })"

definition clusterDelNodeSlots :: "nid \<Rightarrow> clusterState \<Rightarrow> (clusterState \<times> int) option" where
  "clusterDelNodeSlots node s = foldM (\<lambda>j (s, deleted). do {
     b \<leftarrow> clusterNodeGetSlotBit node j s;
     s \<leftarrow> (if b then map_option fst (clusterDelSlot j s) else Some s);
     Some (s, deleted + 1)
   }) [0..<CLUSTER_SLOTS] (s, 0)"

definition clusterCloseAllSlots :: "clusterState \<Rightarrow> clusterState" where
  "clusterCloseAllSlots s = s\<lparr>c_migrating_slots_to := \<lambda>_. None, c_importing_slots_from := \<lambda>_. None\<rparr>"

definition clusterDelNode :: "nid \<Rightarrow> clusterState \<Rightarrow> clusterState option" where
  "clusterDelNode delnode s = do {
     s \<leftarrow> foldM (\<lambda>j s. do {
       let s = (if c_importing_slots_from s j = Some delnode
                then s\<lparr>c_importing_slots_from := (c_importing_slots_from s)(j := None)\<rparr> else s);
       let s = (if c_migrating_slots_to s j = Some delnode
                then s\<lparr>c_migrating_slots_to := (c_migrating_slots_to s)(j := None)\<rparr> else s);
       if c_slots s j = Some delnode then map_option fst (clusterDelSlot j s) else Some s
     }) [0..<CLUSTER_SLOTS] s;
     s \<leftarrow> foldM (\<lambda>e s. if snd e = delnode then Some s
       else map_option fst (clusterNodeDelFailureReport (snd e) delnode s)) (c_nodes s) s;
     freeClusterNode delnode s
   }"

section \<open>Roles\<close>

definition clusterSetNodeAsMaster :: "nid \<Rightarrow> clusterState \<Rightarrow> clusterState option" where
  "clusterSetNodeAsMaster n s = do {
     x \<leftarrow> c_heap s n;
     if nodeIsMaster x then Some s
     else do {
       s \<leftarrow> (case cn_slaveof x of
          None \<Rightarrow> Some s
        | Some m \<Rightarrow> do {
            (s, _) \<leftarrow> clusterNodeRemoveSlave m n s;
            if n \<noteq> c_myself s
            then set_node n (\<lambda>x. x\<lparr>cn_flags := cn_flags x OR CLUSTER_NODE_MIGRATE_TO\<rparr>) s else Some s
          });
       s \<leftarrow> set_node n (\<lambda>x. x\<lparr>cn_flags := cn_flags x AND NOT CLUSTER_NODE_SLAVE\<rparr>) s;
       s \<leftarrow> set_node n (\<lambda>x. x\<lparr>cn_flags := cn_flags x OR CLUSTER_NODE_MASTER\<rparr>) s;
       s \<leftarrow> set_node n (\<lambda>x. x\<lparr>cn_slaveof := None\<rparr>) s;
       Some (clusterDoBeforeSleep (CLUSTER_TODO_SAVE_CONFIG OR CLUSTER_TODO_UPDATE_STATE) s)
     }
   }"

definition resetManualFailover :: "bool \<Rightarrow> clusterState \<Rightarrow> clusterState" where
  "resetManualFailover clientsArePaused s =
     (let s = (if c_mf_end s \<noteq> 0 \<and> clientsArePaused then emit Unpause_clients s else s) in
      s\<lparr>c_mf_end := 0, c_mf_can_start := False, c_mf_slave := None, c_mf_master_offset := 0\<rparr>)"

definition clusterSetMaster :: "bool \<Rightarrow> nid \<Rightarrow> clusterState \<Rightarrow> clusterState option" where
  "clusterSetMaster clientsArePaused n s = do {
     me \<leftarrow> c_heap s (c_myself s);
     if n = c_myself s \<or> cn_numslots me \<noteq> 0 then None
     else do {
       s \<leftarrow> (if nodeIsMaster me
         then map_option clusterCloseAllSlots (set_node (c_myself s) (\<lambda>x. x\<lparr>cn_flags :=
           (cn_flags x AND NOT (CLUSTER_NODE_MASTER OR CLUSTER_NODE_MIGRATE_TO)) OR CLUSTER_NODE_SLAVE\<rparr>) s)
         else case cn_slaveof me of
           None \<Rightarrow> Some s
         | Some m \<Rightarrow> map_option fst (clusterNodeRemoveSlave m (c_myself s) s));
       s \<leftarrow> set_node (c_myself s) (\<lambda>x. x\<lparr>cn_slaveof := Some n\<rparr>) s;
       (s, _) \<leftarrow> clusterNodeAddSlave n (c_myself s) s;
       x \<leftarrow> c_heap s n;
       Some (resetManualFailover clientsArePaused (emit (Replication_set_master (cn_ip x) (cn_port x)) s))
     }
   }"

end
