(* ===== verification/Cluster_Inv.thy ===== *)
theory Cluster_Inv
  imports Cluster_State
begin

text \<open>
  The invariant of the cluster state. \<open>slots_ok\<close>: the two records of who serves a slot agree, and a
  node counts its slots correctly. \<open>links_ok\<close>: the table of nodes holds the allocated nodes under their names;
  slaves and masters refer to each other; and no pointer refers to a node that was freed.
  The operations of \<open>Cluster_State\<close> do not fail in such a state and keep it.
\<close>

unbundle bit_operations_syntax

section \<open>Invariant\<close>

definition slots_ok :: "clusterState \<Rightarrow> bool" where
  "slots_ok s \<longleftrightarrow>
     (\<forall>n x. c_heap s n = Some x \<longrightarrow>
        length (cn_slots x) = CLUSTER_SLOTS div 8 \<and>
        cn_numslots x = int (card {j. j < CLUSTER_SLOTS \<and> c_slots s j = Some n}) \<and>
        (\<forall>j < CLUSTER_SLOTS. bitmapTestBit (cn_slots x) j = Some (c_slots s j = Some n))) \<and>
     (\<forall>j < CLUSTER_SLOTS. \<forall>n. c_slots s j = Some n \<longrightarrow> n \<in> dom (c_heap s))"

definition links_ok :: "clusterState \<Rightarrow> bool" where
  "links_ok s \<longleftrightarrow>
     distinct (map fst (c_nodes s)) \<and>
     set (c_nodes s) = {(cn_name x, n) | n x. c_heap s n = Some x} \<and>
     c_myself s \<in> dom (c_heap s) \<and>
     (\<forall>m x. c_heap s m = Some x \<longrightarrow> distinct (cn_slaves x) \<and>
        set (cn_slaves x) = {n. \<exists>y. c_heap s n = Some y \<and> cn_slaveof y = Some m} \<and>
        distinct (map fst (cn_fail_reports x)) \<and> fst ` set (cn_fail_reports x) \<subseteq> dom (c_heap s) \<and>
        (\<forall>p. cn_slaveof x = Some p \<longrightarrow> p \<in> dom (c_heap s) \<and> nodeIsSlave x)) \<and>
     (\<forall>j < CLUSTER_SLOTS. \<forall>n. c_importing_slots_from s j = Some n \<or> c_migrating_slots_to s j = Some n \<longrightarrow> n \<in> dom (c_heap s))"

definition cluster_ok :: "clusterState \<Rightarrow> bool" where
  "cluster_ok s \<longleftrightarrow> slots_ok s \<and> links_ok s"

text \<open>The role of this node: is it flagged as a master, is it flagged as a slave?\<close>

definition me_role :: "clusterState \<Rightarrow> (bool \<times> bool) option" where
  "me_role s = map_option (\<lambda>x. (nodeIsMaster x, nodeIsSlave x)) (c_heap s (c_myself s))"

text \<open>The roles of all nodes: master, slave, in handshake.\<close>

definition node_role :: "clusterNode \<Rightarrow> bool \<times> bool \<times> bool" where
  "node_role x = (nodeIsMaster x, nodeIsSlave x, nodeInHandshake x)"

definition roles :: "clusterState \<Rightarrow> nid \<Rightarrow> (bool \<times> bool \<times> bool) option" where
  "roles s = map_option node_role \<circ> c_heap s"

lemma roles_eq: "roles s' = roles s \<longleftrightarrow> (\<forall>n. map_option node_role (c_heap s' n) = map_option node_role (c_heap s n))"
  by (auto simp: roles_def fun_eq_iff)

lemma roles_dom: "roles s' = roles s \<Longrightarrow> dom (c_heap s') = dom (c_heap s)"
  unfolding roles_eq by (rule set_eqI) (metis domIff option.map_disc_iff)

lemma me_role_eq: "me_role s = map_option (\<lambda>r. (fst r, fst (snd r))) (roles s (c_myself s))"
  by (simp add: me_role_def roles_def node_role_def option.map_comp comp_def)

lemma roles_upd: "c_heap s n = Some x \<Longrightarrow> c_heap s' = (c_heap s)(n \<mapsto> x') \<Longrightarrow> node_role x' = node_role x \<Longrightarrow> roles s' = roles s"
  by (auto simp: roles_def fun_eq_iff)

text \<open>The parts of a node that \<open>links_ok\<close> depends on, and those that \<open>slots_ok\<close> depends on.\<close>

definition links_of :: "clusterNode \<Rightarrow> byte list \<times> nid list \<times> nid option \<times> bool \<times> (nid \<times> int) list" where
  "links_of x = (cn_name x, cn_slaves x, cn_slaveof x, nodeIsSlave x, cn_fail_reports x)"

definition slots_of :: "clusterNode \<Rightarrow> byte list \<times> int" where
  "slots_of x = (cn_slots x, cn_numslots x)"

definition same_links :: "clusterState \<Rightarrow> clusterState \<Rightarrow> bool" where
  "same_links s s' \<longleftrightarrow> map_option links_of \<circ> c_heap s' = map_option links_of \<circ> c_heap s \<and> c_nodes s' = c_nodes s \<and>
     c_myself s' = c_myself s \<and> c_importing_slots_from s' = c_importing_slots_from s \<and>
     c_migrating_slots_to s' = c_migrating_slots_to s"

definition same_slots :: "clusterState \<Rightarrow> clusterState \<Rightarrow> bool" where
  "same_slots s s' \<longleftrightarrow> map_option slots_of \<circ> c_heap s' = map_option slots_of \<circ> c_heap s \<and> c_slots s' = c_slots s"

lemma same_links_refl [simp]: "same_links s s"
  and same_slots_refl [simp]: "same_slots s s"
  by (simp_all add: same_links_def same_slots_def)

lemma same_links_trans: "same_links s t \<Longrightarrow> same_links t u \<Longrightarrow> same_links s u"
  by (simp add: same_links_def)

lemma same_slots_trans: "same_slots s t \<Longrightarrow> same_slots t u \<Longrightarrow> same_slots s u"
  by (simp add: same_slots_def)

lemma map_heap_at:
  "map_option f \<circ> h' = map_option f \<circ> h \<Longrightarrow> h' n = Some x' \<Longrightarrow> \<exists>x. h n = Some x \<and> f x = f x'"
  by (metis comp_apply map_option_eq_Some option.map(2))

lemma map_heap_dom: "map_option f \<circ> h' = map_option f \<circ> h \<Longrightarrow> dom h' = dom h"
  by (metis dom_map_option_comp)

lemma same_slots_ok:
  assumes "slots_ok s" "same_slots s s'"
  shows "slots_ok s'"
proof -
  have h: "map_option slots_of \<circ> c_heap s' = map_option slots_of \<circ> c_heap s" and c: "c_slots s' = c_slots s"
    using assms(2) by (auto simp: same_slots_def)
  show ?thesis unfolding slots_ok_def c map_heap_dom [OF h]
  proof (intro conjI allI impI)
    fix n x
    assume "c_heap s' n = Some x"
    then obtain y where y: "c_heap s n = Some y" "cn_slots y = cn_slots x" "cn_numslots y = cn_numslots x"
      using map_heap_at [OF h] by (auto simp: slots_of_def)
    then show "length (cn_slots x) = CLUSTER_SLOTS div 8"
      "cn_numslots x = int (card {j. j < CLUSTER_SLOTS \<and> c_slots s j = Some n})"
      "\<And>j. j < CLUSTER_SLOTS \<Longrightarrow> bitmapTestBit (cn_slots x) j = Some (c_slots s j = Some n)"
      using assms(1) unfolding slots_ok_def by metis+
  next
    fix j n
    assume "j < CLUSTER_SLOTS" "c_slots s j = Some n"
    then show "n \<in> dom (c_heap s)" using assms(1) unfolding slots_ok_def by blast
  qed
qed

lemma links_okD:
  assumes "links_ok s"
  shows "distinct (map fst (c_nodes s))" "set (c_nodes s) = {(cn_name x, n) | n x. c_heap s n = Some x}"
    "c_myself s \<in> dom (c_heap s)"
    "c_heap s m = Some x \<Longrightarrow> distinct (cn_slaves x)"
    "c_heap s m = Some x \<Longrightarrow> set (cn_slaves x) = {n. \<exists>y. c_heap s n = Some y \<and> cn_slaveof y = Some m}"
    "c_heap s m = Some x \<Longrightarrow> distinct (map fst (cn_fail_reports x))"
    "c_heap s m = Some x \<Longrightarrow> fst ` set (cn_fail_reports x) \<subseteq> dom (c_heap s)"
    "c_heap s m = Some x \<Longrightarrow> cn_slaveof x = Some p \<Longrightarrow> p \<in> dom (c_heap s) \<and> nodeIsSlave x"
    "j < CLUSTER_SLOTS \<Longrightarrow> c_importing_slots_from s j = Some n \<or> c_migrating_slots_to s j = Some n \<Longrightarrow> n \<in> dom (c_heap s)"
proof -
  note ok = assms [unfolded links_ok_def]
  show "distinct (map fst (c_nodes s))" by (rule ok [THEN conjunct1])
  show "set (c_nodes s) = {(cn_name x, n) | n x. c_heap s n = Some x}" by (rule ok [THEN conjunct2, THEN conjunct1])
  show "c_myself s \<in> dom (c_heap s)" by (rule ok [THEN conjunct2, THEN conjunct2, THEN conjunct1])
  note n = ok [THEN conjunct2, THEN conjunct2, THEN conjunct2, THEN conjunct1]
  note i = ok [THEN conjunct2, THEN conjunct2, THEN conjunct2, THEN conjunct2]
  show "n \<in> dom (c_heap s)" if "j < CLUSTER_SLOTS" "c_importing_slots_from s j = Some n \<or> c_migrating_slots_to s j = Some n"
    using i that by blast
  show "distinct (cn_slaves x)" "set (cn_slaves x) = {n. \<exists>y. c_heap s n = Some y \<and> cn_slaveof y = Some m}"
    "distinct (map fst (cn_fail_reports x))" "fst ` set (cn_fail_reports x) \<subseteq> dom (c_heap s)"
    if "c_heap s m = Some x" using n that by simp_all
  show "p \<in> dom (c_heap s) \<and> nodeIsSlave x" if "c_heap s m = Some x" "cn_slaveof x = Some p" using n that by simp
qed

lemma named_nodes_iff:
  "e \<in> {(cn_name x, n) | n x. h n = Some x} \<longleftrightarrow> (\<exists>y. h (snd e) = Some y \<and> cn_name y = fst e)"
  by (cases e) (simp, metis)

lemma named_nodes_cong:
  assumes "\<And>k nm. (\<exists>y. h' k = Some y \<and> cn_name y = nm) \<longleftrightarrow> (\<exists>y. h k = Some y \<and> cn_name y = nm)"
  shows "{(cn_name x, n) | n x. h' n = Some x} = {(cn_name x, n) | n x. h n = Some x}"
  by (rule set_eqI) (use assms in \<open>simp only: named_nodes_iff\<close>)

lemma same_links_ok:
  assumes "links_ok s" "same_links s s'"
  shows "links_ok s'"
proof -
  have h: "map_option links_of \<circ> c_heap s' = map_option links_of \<circ> c_heap s"
    and c: "c_nodes s' = c_nodes s" "c_myself s' = c_myself s"
      "c_importing_slots_from s' = c_importing_slots_from s" "c_migrating_slots_to s' = c_migrating_slots_to s"
    using assms(2) by (auto simp: same_links_def)
  have P: "(\<exists>x. c_heap s' n = Some x \<and> P (links_of x)) \<longleftrightarrow> (\<exists>x. c_heap s n = Some x \<and> P (links_of x))" for P n
    using map_heap_at [OF h, of n] map_heap_at [OF h [symmetric], of n] by metis
  have 1: "{(cn_name x, n) | n x. c_heap s' n = Some x} = {(cn_name x, n) | n x. c_heap s n = Some x}"
    by (rule named_nodes_cong) (use P [of _ "\<lambda>l. fst l = _"] in \<open>simp add: links_of_def\<close>)
  have 2: "{n. \<exists>y. c_heap s' n = Some y \<and> cn_slaveof y = Some m} = {n. \<exists>y. c_heap s n = Some y \<and> cn_slaveof y = Some m}" for m
    using P [of _ "\<lambda>l. fst (snd (snd l)) = Some m"] by (auto simp: links_of_def)
  show ?thesis unfolding links_ok_def c 1 2 map_heap_dom [OF h]
  proof (intro conjI)
    show "\<forall>m x. c_heap s' m = Some x \<longrightarrow> distinct (cn_slaves x) \<and>
        set (cn_slaves x) = {n. \<exists>y. c_heap s n = Some y \<and> cn_slaveof y = Some m} \<and>
        distinct (map fst (cn_fail_reports x)) \<and> fst ` set (cn_fail_reports x) \<subseteq> dom (c_heap s) \<and>
        (\<forall>p. cn_slaveof x = Some p \<longrightarrow> p \<in> dom (c_heap s) \<and> nodeIsSlave x)"
    proof (intro allI impI)
      fix m x
      assume "c_heap s' m = Some x"
      then obtain y where y: "c_heap s m = Some y" "cn_slaves y = cn_slaves x" "cn_fail_reports y = cn_fail_reports x"
        "cn_slaveof y = cn_slaveof x" "nodeIsSlave y = nodeIsSlave x"
        using map_heap_at [OF h] by (auto simp: links_of_def)
      show "distinct (cn_slaves x) \<and>
        set (cn_slaves x) = {n. \<exists>y. c_heap s n = Some y \<and> cn_slaveof y = Some m} \<and>
        distinct (map fst (cn_fail_reports x)) \<and> fst ` set (cn_fail_reports x) \<subseteq> dom (c_heap s) \<and>
        (\<forall>p. cn_slaveof x = Some p \<longrightarrow> p \<in> dom (c_heap s) \<and> nodeIsSlave x)"
        using links_okD(4-8) [OF assms(1) y(1)] unfolding y(2-) by blast
    qed
  qed (use assms(1) in \<open>simp_all add: links_ok_def\<close>)
qed

section \<open>Bitmaps\<close>

lemma test_bit_byte: "b AND 2 ^ k = 0 \<longleftrightarrow> \<not> bit (b :: byte) k"
  by (rule and_exp_eq_0_iff_not_bit)

lemma bitmapTestBit_iff: "j div 8 < length bm \<Longrightarrow> bitmapTestBit bm j = Some (bit (bm ! (j div 8)) (j mod 8))"
  by (simp add: bitmapTestBit_def test_bit_byte)

lemma div_mod_8_eq: "j div 8 = i div 8 \<Longrightarrow> j mod 8 = i mod 8 \<Longrightarrow> j = (i :: nat)"
  by (metis div_mult_mod_eq)

lemma bitmapSetBit_test:
  assumes "i div 8 < length bm" "j div 8 < length bm"
  shows "\<exists>bm'. bitmapSetBit bm i = Some bm' \<and> length bm' = length bm \<and>
    bitmapTestBit bm' j = Some (j = i \<or> bitmapTestBit bm j = Some True)"
  using assms div_mod_8_eq [of j i]
  by (auto simp: bitmapSetBit_def bitmapTestBit_iff nth_list_update bit_simps)

lemma bitmapClearBit_test:
  assumes "i div 8 < length bm" "j div 8 < length bm"
  shows "\<exists>bm'. bitmapClearBit bm i = Some bm' \<and> length bm' = length bm \<and>
    bitmapTestBit bm' j = Some (j \<noteq> i \<and> bitmapTestBit bm j = Some True)"
  using assms div_mod_8_eq [of j i]
  by (auto simp: bitmapClearBit_def bitmapTestBit_iff nth_list_update bit_simps)

section \<open>Slots\<close>

lemma slot_in_bitmap: "length bm = CLUSTER_SLOTS div 8 \<Longrightarrow> j < CLUSTER_SLOTS \<Longrightarrow> j div 8 < length bm"
  by (simp add: CLUSTER_SLOTS_def)

lemma set_node_Some: "c_heap s n = Some x \<Longrightarrow> set_node n f s = Some (s\<lparr>c_heap := (c_heap s)(n \<mapsto> f x)\<rparr>)"
  by (simp add: set_node_def)

lemma card_slots_add:
  assumes "c_slots s j = None" "j < CLUSTER_SLOTS"
  shows "card {i. i < CLUSTER_SLOTS \<and> ((c_slots s)(j \<mapsto> n)) i = Some n} = Suc (card {i. i < CLUSTER_SLOTS \<and> c_slots s i = Some n})"
proof -
  have "{i. i < CLUSTER_SLOTS \<and> ((c_slots s)(j \<mapsto> n)) i = Some n} = insert j {i. i < CLUSTER_SLOTS \<and> c_slots s i = Some n}"
    using assms by auto
  with assms show ?thesis by simp
qed

lemma card_slots_del:
  assumes "c_slots s j = Some n" "j < CLUSTER_SLOTS"
  shows "Suc (card {i. i < CLUSTER_SLOTS \<and> ((c_slots s)(j := None)) i = Some n}) = card {i. i < CLUSTER_SLOTS \<and> c_slots s i = Some n}"
proof -
  have "{i. i < CLUSTER_SLOTS \<and> c_slots s i = Some n} = insert j {i. i < CLUSTER_SLOTS \<and> ((c_slots s)(j := None)) i = Some n}"
    using assms by auto
  moreover have "j \<notin> {i. i < CLUSTER_SLOTS \<and> ((c_slots s)(j := None)) i = Some n}" by simp
  ultimately show ?thesis by simp
qed

text \<open>Giving slot \<open>j\<close> to \<open>n\<close>, or taking it away, in both records.\<close>

lemma slots_ok_add:
  assumes ok: "slots_ok s" and n: "c_heap s n = Some x" and j: "j < CLUSTER_SLOTS" "c_slots s j = None"
    and h: "c_heap s' = (c_heap s)(n \<mapsto> x')" and c: "c_slots s' = (c_slots s)(j \<mapsto> n)"
    and bm: "bitmapSetBit (cn_slots x) j = Some (cn_slots x')" and num: "cn_numslots x' = cn_numslots x + 1"
  shows "slots_ok s'"
  unfolding slots_ok_def
proof (intro conjI allI impI)
  have len: "length (cn_slots x) = CLUSTER_SLOTS div 8" and bits: "\<And>i. i < CLUSTER_SLOTS \<Longrightarrow> bitmapTestBit (cn_slots x) i = Some (c_slots s i = Some n)"
    and cnt: "cn_numslots x = int (card {i. i < CLUSTER_SLOTS \<and> c_slots s i = Some n})"
    using ok n unfolding slots_ok_def by blast+
  fix m y
  assume y: "c_heap s' m = Some y"
  have other: "c_heap s m = Some y" "\<And>i. c_slots s' i = Some m \<longleftrightarrow> c_slots s i = Some m" if "m \<noteq> n"
    using that y h c j(2) by auto
  show "length (cn_slots y) = CLUSTER_SLOTS div 8"
    using y h bm len other(1) ok bitmapSetBit_test [OF slot_in_bitmap [OF len j(1)] slot_in_bitmap [OF len j(1)]]
    by (cases "m = n") (auto simp: slots_ok_def)
  show "cn_numslots y = int (card {i. i < CLUSTER_SLOTS \<and> c_slots s' i = Some m})"
  proof (cases "m = n")
    case True
    then show ?thesis using y h num cnt card_slots_add [OF j(2,1)] c by simp
  next
    case False
    with ok other show ?thesis by (simp add: slots_ok_def)
  qed
  show "bitmapTestBit (cn_slots y) i = Some (c_slots s' i = Some m)" if i: "i < CLUSTER_SLOTS" for i
  proof (cases "m = n")
    case True
    then show ?thesis
      using y h bm bits [OF i] c bitmapSetBit_test [OF slot_in_bitmap [OF len j(1)] slot_in_bitmap [OF len i]] by auto
  next
    case False
    with ok other i show ?thesis by (simp add: slots_ok_def)
  qed
next
  fix i m
  assume "i < CLUSTER_SLOTS" "c_slots s' i = Some m"
  then show "m \<in> dom (c_heap s')" using ok h c n by (auto simp: slots_ok_def split: if_splits)
qed

lemma slots_ok_del:
  assumes ok: "slots_ok s" and n: "c_heap s n = Some x" and j: "j < CLUSTER_SLOTS" "c_slots s j = Some n"
    and h: "c_heap s' = (c_heap s)(n \<mapsto> x')" and c: "c_slots s' = (c_slots s)(j := None)"
    and bm: "bitmapClearBit (cn_slots x) j = Some (cn_slots x')" and num: "cn_numslots x' = cn_numslots x - 1"
  shows "slots_ok s'"
  unfolding slots_ok_def
proof (intro conjI allI impI)
  have len: "length (cn_slots x) = CLUSTER_SLOTS div 8" and bits: "\<And>i. i < CLUSTER_SLOTS \<Longrightarrow> bitmapTestBit (cn_slots x) i = Some (c_slots s i = Some n)"
    and cnt: "cn_numslots x = int (card {i. i < CLUSTER_SLOTS \<and> c_slots s i = Some n})"
    using ok n unfolding slots_ok_def by blast+
  fix m y
  assume y: "c_heap s' m = Some y"
  have other: "c_heap s m = Some y" "\<And>i. c_slots s' i = Some m \<longleftrightarrow> c_slots s i = Some m" if "m \<noteq> n"
    using that y h c j(2) by auto
  show "length (cn_slots y) = CLUSTER_SLOTS div 8"
    using y h bm len other(1) ok bitmapClearBit_test [OF slot_in_bitmap [OF len j(1)] slot_in_bitmap [OF len j(1)]]
    by (cases "m = n") (auto simp: slots_ok_def)
  show "cn_numslots y = int (card {i. i < CLUSTER_SLOTS \<and> c_slots s' i = Some m})"
  proof (cases "m = n")
    case True
    then show ?thesis using y h num cnt card_slots_del [OF j(2,1)] c by simp
  next
    case False
    with ok other show ?thesis by (simp add: slots_ok_def)
  qed
  show "bitmapTestBit (cn_slots y) i = Some (c_slots s' i = Some m)" if i: "i < CLUSTER_SLOTS" for i
  proof (cases "m = n")
    case True
    then show ?thesis
      using y h bm bits [OF i] c bitmapClearBit_test [OF slot_in_bitmap [OF len j(1)] slot_in_bitmap [OF len i]] by auto
  next
    case False
    with ok other i show ?thesis by (simp add: slots_ok_def)
  qed
next
  fix i m
  assume "i < CLUSTER_SLOTS" "c_slots s' i = Some m"
  then show "m \<in> dom (c_heap s')" using ok h c n by (auto simp: slots_ok_def split: if_splits)
qed

text \<open>Flags as bits.\<close>

lemma flag_iff:
  "nodeIsMaster x \<longleftrightarrow> bit (cn_flags x) 0" "nodeIsSlave x \<longleftrightarrow> bit (cn_flags x) 1" "nodeTimedOut x \<longleftrightarrow> bit (cn_flags x) 2"
  "nodeFailed x \<longleftrightarrow> bit (cn_flags x) 3" "nodeInHandshake x \<longleftrightarrow> bit (cn_flags x) 5"
  using and_exp_eq_0_iff_not_bit [of "cn_flags x" 0] and_exp_eq_0_iff_not_bit [of "cn_flags x" 1]
    and_exp_eq_0_iff_not_bit [of "cn_flags x" 2] and_exp_eq_0_iff_not_bit [of "cn_flags x" 3]
    and_exp_eq_0_iff_not_bit [of "cn_flags x" 5]
  by (simp_all add: nodeIsMaster_def nodeIsSlave_def nodeTimedOut_def nodeFailed_def nodeInHandshake_def
    CLUSTER_NODE_MASTER_def CLUSTER_NODE_SLAVE_def CLUSTER_NODE_PFAIL_def CLUSTER_NODE_FAIL_def CLUSTER_NODE_HANDSHAKE_def)

lemmas flag_defs = CLUSTER_NODE_MASTER_def CLUSTER_NODE_SLAVE_def CLUSTER_NODE_PFAIL_def CLUSTER_NODE_FAIL_def
  CLUSTER_NODE_MYSELF_def CLUSTER_NODE_HANDSHAKE_def CLUSTER_NODE_NOADDR_def CLUSTER_NODE_MEET_def CLUSTER_NODE_MIGRATE_TO_def

text \<open>What the operations on slots may change: the slots themselves and the flag that invites slaves to migrate.\<close>

definition node_core :: "clusterNode \<Rightarrow> clusterNode" where
  "node_core x = x\<lparr>cn_slots := [], cn_numslots := 0, cn_flags := cn_flags x AND NOT CLUSTER_NODE_MIGRATE_TO\<rparr>"

definition slot_frame :: "clusterState \<Rightarrow> clusterState \<Rightarrow> bool" where
  "slot_frame s s' \<longleftrightarrow> map_option node_core \<circ> c_heap s' = map_option node_core \<circ> c_heap s \<and>
     (\<exists>h c. s' = s\<lparr>c_heap := h, c_slots := c\<rparr>)"

lemma slot_frame_refl [simp]: "slot_frame s s"
  by (auto simp: slot_frame_def intro!: exI [of _ "c_heap s"] exI [of _ "c_slots s"])

lemma slot_frame_trans: "slot_frame s t \<Longrightarrow> slot_frame t u \<Longrightarrow> slot_frame s u"
  unfolding slot_frame_def by (elim conjE exE) (simp, blast)

lemma node_core_eqD:
  assumes "node_core x = node_core y"
  shows "links_of x = links_of y" "cn_configEpoch x = cn_configEpoch y" "nodeIsMaster x = nodeIsMaster y"
    "nodeFailed x = nodeFailed y" "nodeTimedOut x = nodeTimedOut y" "cn_ip x = cn_ip y" "cn_port x = cn_port y"
    "node_role x = node_role y"
proof -
  have f: "cn_flags x AND NOT CLUSTER_NODE_MIGRATE_TO = cn_flags y AND NOT CLUSTER_NODE_MIGRATE_TO"
    and r: "cn_name x = cn_name y" "cn_slaves x = cn_slaves y" "cn_slaveof x = cn_slaveof y"
      "cn_fail_reports x = cn_fail_reports y" "cn_configEpoch x = cn_configEpoch y" "cn_ip x = cn_ip y" "cn_port x = cn_port y"
    using assms by (cases x; cases y; simp add: node_core_def)+
  have b: "bit (cn_flags x) k = bit (cn_flags y) k" if "k \<in> {0, 1, 2, 3, 5}" for k
    using arg_cong [OF f, of "\<lambda>w. bit w k"] that by (auto simp: bit_simps flag_defs)
  show "links_of x = links_of y" "cn_configEpoch x = cn_configEpoch y" "nodeIsMaster x = nodeIsMaster y"
    "nodeFailed x = nodeFailed y" "nodeTimedOut x = nodeTimedOut y" "cn_ip x = cn_ip y" "cn_port x = cn_port y"
    "node_role x = node_role y"
    using r b by (simp_all add: links_of_def flag_iff node_role_def)
qed

lemma node_core_slave: "node_core x = node_core y \<Longrightarrow> nodeIsSlave x = nodeIsSlave y"
  by (drule node_core_eqD(1)) (simp add: links_of_def)

lemma slot_frame_links: "slot_frame s s' \<Longrightarrow> same_links s s'"
proof -
  assume f: "slot_frame s s'"
  then have c: "c_nodes s' = c_nodes s" "c_myself s' = c_myself s" "c_importing_slots_from s' = c_importing_slots_from s"
    "c_migrating_slots_to s' = c_migrating_slots_to s" by (auto simp: slot_frame_def)
  have h: "map_option node_core \<circ> c_heap s' = map_option node_core \<circ> c_heap s" using f by (simp add: slot_frame_def)
  have "map_option links_of (c_heap s' n) = map_option links_of (c_heap s n)" for n
    using fun_cong [OF h, of n] by (cases "c_heap s' n"; cases "c_heap s n") (auto dest: node_core_eqD)
  with c show ?thesis by (auto simp: same_links_def fun_eq_iff)
qed

lemma slot_frame_roles: "slot_frame s s' \<Longrightarrow> roles s' = roles s"
proof -
  assume "slot_frame s s'"
  then have h: "map_option node_core (c_heap s' n) = map_option node_core (c_heap s n)" for n
    by (auto simp: slot_frame_def fun_eq_iff)
  have "map_option node_role (c_heap s' n) = map_option node_role (c_heap s n)" for n
    using h [of n] by (cases "c_heap s' n"; cases "c_heap s n") (auto dest: node_core_eqD(8))
  then show ?thesis by (simp add: roles_eq)
qed

lemma slot_frame_role: "slot_frame s s' \<Longrightarrow> me_role s' = me_role s"
  using slot_frame_roles [of s s'] by (auto simp: me_role_eq slot_frame_def)

lemma those_some: "(\<And>x. x \<in> set xs \<Longrightarrow> f x \<noteq> None) \<Longrightarrow> \<exists>ys. those (map f xs) = Some ys"
  by (induction xs) (auto simp: split: option.splits)

lemma clusterMastersHaveSlaves_some: "links_ok s \<Longrightarrow> \<exists>b. clusterMastersHaveSlaves s = Some b"
proof -
  assume ok: "links_ok s"
  have "\<exists>ys. those (map (\<lambda>e. c_heap s (snd e)) (c_nodes s)) = Some ys"
    using links_okD(2) [OF ok] by (intro those_some) auto
  then show ?thesis by (auto simp: clusterMastersHaveSlaves_def)
qed

lemma flags_or_migrate [simp]: "(w OR CLUSTER_NODE_MIGRATE_TO) AND NOT CLUSTER_NODE_MIGRATE_TO = w AND NOT CLUSTER_NODE_MIGRATE_TO"
  by (intro bit_word_eqI) (auto simp: bit_simps)

lemma slot_frame_node:
  assumes "c_heap s n = Some x" "node_core x' = node_core x"
  shows "slot_frame s (s\<lparr>c_heap := (c_heap s)(n \<mapsto> x'), c_slots := c\<rparr>)"
proof -
  have "map_option node_core \<circ> (c_heap s)(n \<mapsto> x') = map_option node_core \<circ> c_heap s"
    using assms by (auto simp: fun_eq_iff)
  then show ?thesis unfolding slot_frame_def by auto
qed

lemma clusterNodeSetSlotBit_ok:
  assumes ok: "cluster_ok s" and n: "c_heap s n = Some x" and j: "j < CLUSTER_SLOTS"
  obtains x' where
    "clusterNodeSetSlotBit n j s = Some (s\<lparr>c_heap := (c_heap s)(n \<mapsto> x')\<rparr>, c_slots s j = Some n)"
    "bitmapSetBit (cn_slots x) j = Some (cn_slots x')" "node_core x' = node_core x"
    "c_slots s j \<noteq> Some n \<longrightarrow> cn_numslots x' = cn_numslots x + 1"
proof -
  have len: "length (cn_slots x) = CLUSTER_SLOTS div 8"
    and old: "bitmapTestBit (cn_slots x) j = Some (c_slots s j = Some n)"
    using ok n j unfolding cluster_ok_def slots_ok_def by blast+
  obtain bm where bm: "bitmapSetBit (cn_slots x) j = Some bm"
    using bitmapSetBit_test [OF slot_in_bitmap [OF len j] slot_in_bitmap [OF len j]] by blast
  show ?thesis
  proof (cases "c_slots s j = Some n")
    case True
    show ?thesis
      by (rule that [of "x\<lparr>cn_slots := bm\<rparr>"])
        (use True n old bm in \<open>simp_all add: clusterNodeSetSlotBit_def set_node_def node_core_def\<close>)
  next
    case False
    define s1 where "s1 = s\<lparr>c_heap := (c_heap s)(n \<mapsto> x\<lparr>cn_slots := bm, cn_numslots := cn_numslots x + 1\<rparr>)\<rparr>"
    have "slot_frame s (s\<lparr>c_heap := (c_heap s)(n \<mapsto> x\<lparr>cn_slots := bm, cn_numslots := cn_numslots x + 1\<rparr>), c_slots := c_slots s\<rparr>)"
      by (rule slot_frame_node [OF n]) (simp add: node_core_def)
    then have "slot_frame s s1" by (simp add: s1_def)
    then have "links_ok s1" using ok slot_frame_links same_links_ok unfolding cluster_ok_def by blast
    then obtain hs where hs: "clusterMastersHaveSlaves s1 = Some hs" using clusterMastersHaveSlaves_some by blast
    define x' where "x' = x\<lparr>cn_slots := bm, cn_numslots := cn_numslots x + 1,
      cn_flags := if cn_numslots x + 1 = 1 \<and> hs then cn_flags x OR CLUSTER_NODE_MIGRATE_TO else cn_flags x\<rparr>"
    have "clusterNodeSetSlotBit n j s = Some (s\<lparr>c_heap := (c_heap s)(n \<mapsto> x')\<rparr>, c_slots s j = Some n)"
      using False n old bm hs
      by (cases hs; cases "cn_numslots x = 0") (simp_all add: clusterNodeSetSlotBit_def set_node_def s1_def x'_def)
    moreover have "node_core x' = node_core x" by (simp add: x'_def node_core_def)
    ultimately show ?thesis using that [of x'] bm by (simp add: x'_def)
  qed
qed

lemma clusterAddSlot_ok:
  assumes ok: "cluster_ok s" and n: "n \<in> dom (c_heap s)" and j: "j < CLUSTER_SLOTS"
  shows "\<exists>s'. clusterAddSlot n j s = Some (s', c_slots s j = None) \<and> cluster_ok s' \<and> slot_frame s s' \<and>
    c_slots s' = (if c_slots s j = None then (c_slots s)(j \<mapsto> n) else c_slots s)"
proof (cases "c_slots s j = None")
  case True
  obtain x where x: "c_heap s n = Some x" using n by blast
  obtain x' where x': "clusterNodeSetSlotBit n j s = Some (s\<lparr>c_heap := (c_heap s)(n \<mapsto> x')\<rparr>, c_slots s j = Some n)"
    "bitmapSetBit (cn_slots x) j = Some (cn_slots x')" "node_core x' = node_core x"
    "c_slots s j \<noteq> Some n \<longrightarrow> cn_numslots x' = cn_numslots x + 1"
    using clusterNodeSetSlotBit_ok [OF ok x j] .
  let ?s = "s\<lparr>c_heap := (c_heap s)(n \<mapsto> x'), c_slots := (c_slots s)(j \<mapsto> n)\<rparr>"
  have "clusterAddSlot n j s = Some (?s, True)" using True j x'(1) by (simp add: clusterAddSlot_def)
  moreover have "slots_ok ?s"
    by (rule slots_ok_add [where x' = x', OF _ x j True _ _ x'(2)]) (use ok True x'(4) in \<open>simp_all add: cluster_ok_def\<close>)
  moreover have f: "slot_frame s ?s" by (rule slot_frame_node [OF x x'(3)])
  moreover have "links_ok ?s" using same_links_ok [OF _ slot_frame_links [OF f]] ok by (simp add: cluster_ok_def)
  ultimately show ?thesis using True by (auto simp: cluster_ok_def)
next
  case False
  with ok j show ?thesis by (auto simp: clusterAddSlot_def)
qed

lemma clusterDelSlot_ok:
  assumes ok: "cluster_ok s" and j: "j < CLUSTER_SLOTS"
  shows "\<exists>s'. clusterDelSlot j s = Some (s', c_slots s j \<noteq> None) \<and> cluster_ok s' \<and> slot_frame s s' \<and>
    c_slots s' = (c_slots s)(j := None)"
proof (cases "c_slots s j")
  case None
  then have "(c_slots s)(j := None) = c_slots s" by (auto simp: fun_eq_iff)
  with None ok j show ?thesis by (simp add: clusterDelSlot_def)
next
  case (Some n)
  obtain x where x: "c_heap s n = Some x" using ok j Some unfolding cluster_ok_def slots_ok_def by blast
  have len: "length (cn_slots x) = CLUSTER_SLOTS div 8" and old: "bitmapTestBit (cn_slots x) j = Some (c_slots s j = Some n)"
    using ok x j unfolding cluster_ok_def slots_ok_def by blast+
  obtain bm where bm: "bitmapClearBit (cn_slots x) j = Some bm"
    using bitmapClearBit_test [OF slot_in_bitmap [OF len j] slot_in_bitmap [OF len j]] by blast
  define x' where "x' = x\<lparr>cn_slots := bm, cn_numslots := cn_numslots x - 1\<rparr>"
  let ?s = "s\<lparr>c_heap := (c_heap s)(n \<mapsto> x'), c_slots := (c_slots s)(j := None)\<rparr>"
  have "clusterDelSlot j s = Some (?s, True)"
    using Some j x old bm by (simp add: clusterDelSlot_def clusterNodeClearSlotBit_def set_node_def x'_def)
  moreover have "slots_ok ?s"
    by (rule slots_ok_del [where x' = x', OF _ x j Some]) (use ok bm in \<open>simp_all add: cluster_ok_def x'_def\<close>)
  moreover have f: "slot_frame s ?s" by (rule slot_frame_node [OF x]) (simp add: x'_def node_core_def)
  moreover have "links_ok ?s" using same_links_ok [OF _ slot_frame_links [OF f]] ok by (simp add: cluster_ok_def)
  ultimately show ?thesis using Some by (auto simp: cluster_ok_def)
qed

lemma slot_frame_dom: "slot_frame s s' \<Longrightarrow> dom (c_heap s') = dom (c_heap s)"
  unfolding slot_frame_def by (elim conjE) (rule map_heap_dom)

lemma foldM_upt_total:
  assumes "\<And>j s. a \<le> j \<Longrightarrow> j < n \<Longrightarrow> P j s \<Longrightarrow> \<exists>s'. f j s = Some s' \<and> P (Suc j) s'" "P a s" "a \<le> n"
  shows "\<exists>s'. foldM f [a..<n] s = Some s' \<and> P n s'"
  using assms
proof (induction "n - a" arbitrary: a s)
  case (Suc d)
  then have "a < n" by simp
  with Suc.prems obtain s1 where s1: "f a s = Some s1" "P (Suc a) s1" by blast
  have "\<exists>s'. foldM f [Suc a..<n] s1 = Some s' \<and> P n s'"
    by (rule Suc.hyps(1)) (use Suc.hyps(2) Suc.prems s1(2) \<open>a < n\<close> in auto)
  with s1(1) \<open>a < n\<close> show ?case by (simp add: upt_conv_Cons)
qed simp

lemma clusterDelNodeSlots_ok:
  assumes ok: "cluster_ok s" and n: "n \<in> dom (c_heap s)"
  shows "\<exists>s'. clusterDelNodeSlots n s = Some (s', int CLUSTER_SLOTS) \<and> cluster_ok s' \<and> slot_frame s s' \<and>
    (\<forall>j < CLUSTER_SLOTS. c_slots s' j = (if c_slots s j = Some n then None else c_slots s j))"
proof -
  let ?P = "\<lambda>k (t, d). cluster_ok t \<and> slot_frame s t \<and> d = int k \<and>
    (\<forall>j. c_slots t j = (if j < k \<and> c_slots s j = Some n then None else c_slots s j))"
  have "\<exists>r. clusterDelNodeSlots n s = Some r \<and> ?P CLUSTER_SLOTS r"
    unfolding clusterDelNodeSlots_def
  proof (rule foldM_upt_total)
    fix j r
    assume j: "j < CLUSTER_SLOTS" and P: "?P j r"
    obtain t d where r: "r = (t, d)" by fastforce
    have t: "cluster_ok t" "slot_frame s t" "d = int j" "\<And>i. c_slots t i = (if i < j \<and> c_slots s i = Some n then None else c_slots s i)"
      using P by (auto simp: r)
    obtain x where x: "c_heap t n = Some x" using n slot_frame_dom [OF t(2)] by blast
    have bit: "clusterNodeGetSlotBit n j t = Some (c_slots s j = Some n)"
      using t(1,4) x j by (auto simp: clusterNodeGetSlotBit_def cluster_ok_def slots_ok_def)
    obtain t' b where d: "clusterDelSlot j t = Some (t', b)" "cluster_ok t'" "slot_frame t t'" "c_slots t' = (c_slots t)(j := None)"
      using clusterDelSlot_ok [OF t(1) j] by blast
    show "\<exists>r'. (case r of (s, deleted) \<Rightarrow> do {
         b \<leftarrow> clusterNodeGetSlotBit n j s;
         s \<leftarrow> if b then map_option fst (clusterDelSlot j s) else Some s;
         Some (s, deleted + 1) }) = Some r' \<and> ?P (Suc j) r'"
    proof (cases "c_slots s j = Some n")
      case True
      then show ?thesis using bit d t slot_frame_trans [OF t(2) d(3)] by (auto simp: r less_Suc_eq)
    next
      case False
      then show ?thesis using bit t by (auto simp: r less_Suc_eq)
    qed
  qed (use ok in auto)
  then show ?thesis by auto
qed

section \<open>Masters and slaves\<close>

text \<open>
  \<open>reparent n p y0 y\<close>: what may become of a node \<open>k\<close> when node \<open>n\<close> is made a slave of \<open>p\<close>, or of none.
\<close>

definition reparent :: "nid \<Rightarrow> nid option \<Rightarrow> nid \<Rightarrow> clusterNode \<Rightarrow> clusterNode \<Rightarrow> bool" where
  "reparent n p k y0 y \<longleftrightarrow> cn_name y = cn_name y0 \<and> cn_fail_reports y = cn_fail_reports y0 \<and>
     cn_configEpoch y = cn_configEpoch y0 \<and> slots_of y = slots_of y0 \<and>
     cn_slaveof y = (if k = n then p else cn_slaveof y0) \<and> (cn_slaveof y \<noteq> None \<longrightarrow> nodeIsSlave y) \<and>
     distinct (cn_slaves y) \<and> set (cn_slaves y) = set (cn_slaves y0) - {n} \<union> (if p = Some k then {n} else {})"

lemma cluster_ok_reparent:
  assumes ok: "cluster_ok s" and n: "n \<in> dom (c_heap s)" and p: "\<And>q. p = Some q \<Longrightarrow> q \<in> dom (c_heap s)"
    and d: "dom (c_heap s') = dom (c_heap s)"
    and h: "\<And>k y0 y. c_heap s k = Some y0 \<Longrightarrow> c_heap s' k = Some y \<Longrightarrow> reparent n p k y0 y"
    and c: "c_nodes s' = c_nodes s" "c_myself s' = c_myself s" "c_slots s' = c_slots s"
    and i: "\<And>j k. c_importing_slots_from s' j = Some k \<or> c_migrating_slots_to s' j = Some k \<Longrightarrow>
      c_importing_slots_from s j = Some k \<or> c_migrating_slots_to s j = Some k"
  shows "cluster_ok s'"
proof -
  have sl: "slots_ok s" and lk: "links_ok s" using ok by (simp_all add: cluster_ok_def)
  have both: "\<exists>y0. c_heap s k = Some y0 \<and> reparent n p k y0 y" if "c_heap s' k = Some y" for k y
    using d h that by blast
  have both': "\<exists>y. c_heap s' k = Some y \<and> reparent n p k y0 y" if "c_heap s k = Some y0" for k y0
    using d h that by blast
  have "map_option slots_of (c_heap s' k) = map_option slots_of (c_heap s k)" for k
    using both [of k] both' [of k] by (cases "c_heap s' k"; cases "c_heap s k") (auto simp: reparent_def)
  then have "slots_ok s'" using same_slots_ok [OF sl, of s'] c(3) by (simp add: same_slots_def fun_eq_iff)
  moreover have "links_ok s'"
    unfolding links_ok_def
  proof (intro conjI)
    show "distinct (map fst (c_nodes s'))" using links_okD(1) [OF lk] c by simp
    have "{(cn_name x, k) | k x. c_heap s' k = Some x} = {(cn_name x, k) | k x. c_heap s k = Some x}"
      using both both' unfolding reparent_def by fastforce
    then show "set (c_nodes s') = {(cn_name x, k) | k x. c_heap s' k = Some x}" using links_okD(2) [OF lk] c by simp
    show "c_myself s' \<in> dom (c_heap s')" using links_okD(3) [OF lk] c d by simp
    show "\<forall>m x. c_heap s' m = Some x \<longrightarrow> distinct (cn_slaves x) \<and>
        set (cn_slaves x) = {k. \<exists>y. c_heap s' k = Some y \<and> cn_slaveof y = Some m} \<and>
        distinct (map fst (cn_fail_reports x)) \<and> fst ` set (cn_fail_reports x) \<subseteq> dom (c_heap s') \<and>
        (\<forall>q. cn_slaveof x = Some q \<longrightarrow> q \<in> dom (c_heap s') \<and> nodeIsSlave x)"
    proof (intro allI impI conjI)
      fix m x
      assume x: "c_heap s' m = Some x"
      then obtain x0 where x0: "c_heap s m = Some x0" "reparent n p m x0 x" using both by blast
      note r = x0(2) [unfolded reparent_def]
      show "distinct (cn_slaves x)" "distinct (map fst (cn_fail_reports x))" "fst ` set (cn_fail_reports x) \<subseteq> dom (c_heap s')"
        using r links_okD(6,7) [OF lk x0(1)] d by simp_all
      have "(\<exists>y. c_heap s' k = Some y \<and> cn_slaveof y = Some m) \<longleftrightarrow>
          (if k = n then p = Some m else \<exists>y. c_heap s k = Some y \<and> cn_slaveof y = Some m)" for k
        using both [of k] both' [of k] n unfolding reparent_def by (cases "k = n") auto
      then show "set (cn_slaves x) = {k. \<exists>y. c_heap s' k = Some y \<and> cn_slaveof y = Some m}"
        using r links_okD(5) [OF lk x0(1)] by auto
      fix q
      assume q: "cn_slaveof x = Some q"
      then show "nodeIsSlave x" using r by simp
      show "q \<in> dom (c_heap s')" using q r links_okD(8) [OF lk x0(1), of q] p d by (auto split: if_splits)
    qed
    show "\<forall>j<CLUSTER_SLOTS. \<forall>k. c_importing_slots_from s' j = Some k \<or> c_migrating_slots_to s' j = Some k \<longrightarrow> k \<in> dom (c_heap s')"
      using links_okD(9) [OF lk] i d by blast
  qed
  ultimately show ?thesis by (simp add: cluster_ok_def)
qed

lemma clusterNodeRemoveSlave_eq:
  assumes "c_heap s m = Some y" "n \<in> set (cn_slaves y)"
  shows "\<exists>f. clusterNodeRemoveSlave m n s =
      Some (s\<lparr>c_heap := (c_heap s)(m \<mapsto> y\<lparr>cn_slaves := remove1 n (cn_slaves y), cn_flags := f\<rparr>)\<rparr>, True) \<and>
    (f = cn_flags y \<or> f = cn_flags y AND NOT CLUSTER_NODE_MIGRATE_TO)"
  using assms
  by (intro exI [of _ "if length (cn_slaves y) - 1 = 0 then cn_flags y AND NOT CLUSTER_NODE_MIGRATE_TO else cn_flags y"])
    (simp add: clusterNodeRemoveSlave_def set_node_def)

lemma slave_in_slaves:
  assumes "links_ok s" "c_heap s n = Some x" "cn_slaveof x = Some m"
  obtains y where "c_heap s m = Some y" "n \<in> set (cn_slaves y)"
proof -
  obtain y where y: "c_heap s m = Some y" using links_okD(8) [OF assms(1,2,3)] by blast
  moreover have "n \<in> set (cn_slaves y)" using links_okD(5) [OF assms(1) y] assms(2,3) by blast
  ultimately show ?thesis using that by blast
qed

lemma slave_flag_migrate [simp]:
  "bit (w AND NOT CLUSTER_NODE_MIGRATE_TO) (Suc 0) = bit w (Suc 0)" "bit (w OR CLUSTER_NODE_MIGRATE_TO) (Suc 0) = bit w (Suc 0)"
  by (simp_all add: bit_simps CLUSTER_NODE_MIGRATE_TO_def)

text \<open>The heap after node \<open>n\<close> was removed from the slaves of its master, if it has one.\<close>

definition unslaved :: "nid \<Rightarrow> (nid \<Rightarrow> clusterNode option) \<Rightarrow> (nid \<Rightarrow> clusterNode option) \<Rightarrow> bool" where
  "unslaved n h h' \<longleftrightarrow> dom h' = dom h \<and> (\<forall>k y0 y. h k = Some y0 \<longrightarrow> h' k = Some y \<longrightarrow>
     cn_slaves y = remove1 n (cn_slaves y0) \<and> nodeIsSlave y = nodeIsSlave y0 \<and> nodeIsMaster y = nodeIsMaster y0 \<and>
     node_role y = node_role y0 \<and> cn_name y = cn_name y0 \<and> cn_fail_reports y = cn_fail_reports y0 \<and> cn_slaveof y = cn_slaveof y0 \<and>
     cn_configEpoch y = cn_configEpoch y0 \<and> slots_of y = slots_of y0)"

lemmas unslaved_dom = unslaved_def [THEN iffD1, THEN conjunct1]
lemmas unslavedD = unslaved_def [THEN iffD1, THEN conjunct2, rule_format]

lemma unslaved_remove:
  assumes lk: "links_ok s" and x: "c_heap s n = Some x" "cn_slaveof x = Some m"
  shows "\<exists>h. clusterNodeRemoveSlave m n s = Some (s\<lparr>c_heap := h\<rparr>, True) \<and> unslaved n (c_heap s) h"
proof -
  obtain y where y: "c_heap s m = Some y" "n \<in> set (cn_slaves y)" using slave_in_slaves [OF lk x] .
  obtain f where f: "clusterNodeRemoveSlave m n s =
      Some (s\<lparr>c_heap := (c_heap s)(m \<mapsto> y\<lparr>cn_slaves := remove1 n (cn_slaves y), cn_flags := f\<rparr>)\<rparr>, True)"
    "f = cn_flags y \<or> f = cn_flags y AND NOT CLUSTER_NODE_MIGRATE_TO" using clusterNodeRemoveSlave_eq [OF y] by blast
  have "remove1 n (cn_slaves z) = cn_slaves z" if "c_heap s k = Some z" "k \<noteq> m" for k z
    using links_okD(5) [OF lk that(1)] x that(2) by (intro remove1_idem) auto
  then have "unslaved n (c_heap s) ((c_heap s)(m \<mapsto> y\<lparr>cn_slaves := remove1 n (cn_slaves y), cn_flags := f\<rparr>))"
    using y(1) f(2) by (auto simp: unslaved_def node_role_def flag_iff slots_of_def bit_simps CLUSTER_NODE_MIGRATE_TO_def split: if_splits)
  with f(1) show ?thesis by blast
qed

lemma unslaved_none:
  assumes lk: "links_ok s" and x: "c_heap s n = Some x" "cn_slaveof x = None"
  shows "unslaved n (c_heap s) (c_heap s)"
proof -
  have "remove1 n (cn_slaves z) = cn_slaves z" if "c_heap s k = Some z" for k z
    using links_okD(5) [OF lk that] x by (intro remove1_idem) auto
  then show ?thesis by (simp add: unslaved_def)
qed

lemma reparent_unslaved:
  assumes lk: "links_ok s" and u: "unslaved n (c_heap s) h"
    and k: "c_heap s k = Some y0" "h k = Some z" "k \<noteq> n" "p \<noteq> Some k"
  shows "reparent n p k y0 z"
proof -
  note u' = unslavedD [OF u k(1,2)]
  have "cn_slaveof y0 \<noteq> None \<longrightarrow> nodeIsSlave y0" using links_okD(8) [OF lk k(1)] by blast
  then show ?thesis unfolding reparent_def using u' k(3,4) links_okD(4) [OF lk k(1)] by simp
qed

lemma clusterSetNodeAsMaster_ok:
  assumes ok: "cluster_ok s" and n: "n \<in> dom (c_heap s)"
  shows "\<exists>s'. clusterSetNodeAsMaster n s = Some s' \<and> cluster_ok s' \<and> c_slots s' = c_slots s \<and>
    dom (c_heap s') = dom (c_heap s) \<and> c_myself s' = c_myself s \<and>
    me_role s' = (if n = c_myself s \<and> me_role s \<noteq> Some (True, True) then Some (True, False) else me_role s) \<and>
    roles s' = (roles s)(n := map_option (\<lambda>(m, sl, h). (True, m \<and> sl, h)) (roles s n)) \<and> c_nodes s' = c_nodes s"
proof -
  have lk: "links_ok s" using ok by (simp add: cluster_ok_def)
  obtain x where x: "c_heap s n = Some x" using n by blast
  show ?thesis
  proof (cases "nodeIsMaster x")
    case True
    with ok x show ?thesis by (auto simp: clusterSetNodeAsMaster_def me_role_def roles_def node_role_def)
  next
    case False
    obtain h where h: "unslaved n (c_heap s) h"
      "\<And>m. cn_slaveof x = Some m \<Longrightarrow> clusterNodeRemoveSlave m n s = Some (s\<lparr>c_heap := h\<rparr>, True)"
      "cn_slaveof x = None \<Longrightarrow> h = c_heap s"
      using unslaved_remove [OF lk x] unslaved_none [OF lk x] by (cases "cn_slaveof x") auto
    obtain z where z: "h n = Some z" using unslaved_dom [OF h(1)] x by blast
    obtain F T where r: "clusterSetNodeAsMaster n s =
        Some (s\<lparr>c_heap := h(n \<mapsto> z\<lparr>cn_flags := F, cn_slaveof := None\<rparr>), c_todo_before_sleep := T\<rparr>)"
      "bit F 0" "\<not> bit F 1" "bit F 5 = bit (cn_flags z) 5"
    proof -
      define F where "F = (((if n \<noteq> c_myself s \<and> cn_slaveof x \<noteq> None then cn_flags z OR CLUSTER_NODE_MIGRATE_TO else cn_flags z)
        AND NOT CLUSTER_NODE_SLAVE) OR CLUSTER_NODE_MASTER)"
      have "bit F 0" "\<not> bit F 1" "bit F 5 = bit (cn_flags z) 5" by (simp_all add: F_def bit_simps flag_defs)
      moreover have "clusterSetNodeAsMaster n s = Some (s\<lparr>c_heap := h(n \<mapsto> z\<lparr>cn_flags := F, cn_slaveof := None\<rparr>),
          c_todo_before_sleep := c_todo_before_sleep s OR (CLUSTER_TODO_SAVE_CONFIG OR CLUSTER_TODO_UPDATE_STATE)\<rparr>)"
        using False x h(2,3) z
        by (cases "cn_slaveof x"; cases "n = c_myself s")
          (auto simp: clusterSetNodeAsMaster_def set_node_def clusterDoBeforeSleep_def F_def)
      ultimately show ?thesis using that by blast
    qed
    let ?s = "s\<lparr>c_heap := h(n \<mapsto> z\<lparr>cn_flags := F, cn_slaveof := None\<rparr>), c_todo_before_sleep := T\<rparr>"
    have d: "dom (c_heap ?s) = dom (c_heap s)" using unslaved_dom [OF h(1)] n by auto
    have "cluster_ok ?s"
    proof (rule cluster_ok_reparent [OF ok n, of None])
      fix k y0 y
      assume k: "c_heap s k = Some y0" "c_heap ?s k = Some y"
      show "reparent n None k y0 y"
      proof (cases "k = n")
        case True
        then show ?thesis using k x unslavedD [OF h(1) x z] links_okD(4) [OF lk x]
          by (auto simp: reparent_def slots_of_def)
      next
        case False
        then show ?thesis using reparent_unslaved [OF lk h(1) k(1), of y] k(2) by simp
      qed
    qed (use d in auto)
    moreover have "me_role ?s = (if n = c_myself s \<and> me_role s \<noteq> Some (True, True) then Some (True, False) else me_role s)"
    proof (cases "n = c_myself s")
      case True
      then show ?thesis using x False r(2,3) by (simp add: me_role_def flag_iff)
    next
      case other: False
      obtain me where me: "c_heap s (c_myself s) = Some me" using links_okD(3) [OF lk] by blast
      obtain me' where me': "h (c_myself s) = Some me'" using unslaved_dom [OF h(1)] me by blast
      show ?thesis using other me me' unslavedD [OF h(1) me me'] by (simp add: me_role_def)
    qed
    moreover have "roles ?s = (roles s)(n := map_option (\<lambda>(m, sl, h). (True, m \<and> sl, h)) (roles s n))"
    proof (rule ext)
      fix k
      show "roles ?s k = ((roles s)(n := map_option (\<lambda>(m, sl, h). (True, m \<and> sl, h)) (roles s n))) k"
      proof (cases "k = n")
        case True
        have "nodeInHandshake z = nodeInHandshake x" using unslavedD [OF h(1) x z] by (simp add: node_role_def)
        then show ?thesis using True False x r(2-4) by (simp add: roles_def node_role_def flag_iff)
      next
        case k: False
        have "map_option node_role (h k) = map_option node_role (c_heap s k)"
        proof (cases "c_heap s k")
          case None
          then have "k \<notin> dom h" unfolding unslaved_dom [OF h(1)] by blast
          then show ?thesis using None by auto
        next
          case (Some y0)
          then obtain y where "h k = Some y" using unslaved_dom [OF h(1)] by blast
          then show ?thesis using Some unslavedD [OF h(1) Some] by simp
        qed
        then show ?thesis using k by (simp add: roles_def)
      qed
    qed
    ultimately show ?thesis using r(1) d by auto
  qed
qed

lemma clusterSetMaster_ok:
  assumes ok: "cluster_ok s" and n: "n \<in> dom (c_heap s)" "n \<noteq> c_myself s"
    and me: "c_heap s (c_myself s) = Some me" "nodeIsMaster me \<longleftrightarrow> \<not> nodeIsSlave me"
    and none: "\<And>j. j < CLUSTER_SLOTS \<Longrightarrow> c_slots s j \<noteq> Some (c_myself s)"
  shows "\<exists>s'. clusterSetMaster paused n s = Some s' \<and> cluster_ok s' \<and> c_slots s' = c_slots s \<and>
    dom (c_heap s') = dom (c_heap s) \<and> c_myself s' = c_myself s \<and> me_role s' = Some (False, True) \<and>
    roles s' = (roles s)(c_myself s \<mapsto> (False, True, nodeInHandshake me)) \<and> c_nodes s' = c_nodes s"
proof -
  let ?me = "c_myself s"
  have lk: "links_ok s" using ok by (simp add: cluster_ok_def)
  have "cn_numslots me = int (card {j. j < CLUSTER_SLOTS \<and> c_slots s j = Some ?me})"
    using ok me(1) unfolding cluster_ok_def slots_ok_def by blast
  also have "{j. j < CLUSTER_SLOTS \<and> c_slots s j = Some ?me} = {}" using none by blast
  finally have num: "cn_numslots me = 0" by simp
  have mm: "cn_slaveof me = None" if "nodeIsMaster me"
    using that me links_okD(8) [OF lk me(1)] by (cases "cn_slaveof me") auto
  obtain h where h: "unslaved ?me (c_heap s) h"
    "\<And>m. cn_slaveof me = Some m \<Longrightarrow> clusterNodeRemoveSlave m ?me s = Some (s\<lparr>c_heap := h\<rparr>, True)"
    "cn_slaveof me = None \<Longrightarrow> h = c_heap s"
    using unslaved_remove [OF lk me(1)] unslaved_none [OF lk me(1)] by (cases "cn_slaveof me") auto
  obtain z where z: "h ?me = Some z" using unslaved_dom [OF h(1)] me(1) by blast
  obtain y where y: "h n = Some y" using unslaved_dom [OF h(1)] n(1) by blast
  obtain y0 where y0: "c_heap s n = Some y0" using n(1) by blast
  have fresh: "?me \<notin> set (cn_slaves y)"
    using unslavedD [OF h(1) y0 y] links_okD(4) [OF lk y0] by simp
  define F where "F = (if nodeIsMaster me then (cn_flags z AND NOT (CLUSTER_NODE_MASTER OR CLUSTER_NODE_MIGRATE_TO)) OR CLUSTER_NODE_SLAVE else cn_flags z)"
  define h' where "h' = h(?me \<mapsto> z\<lparr>cn_flags := F, cn_slaveof := Some n\<rparr>,
     n \<mapsto> y\<lparr>cn_slaves := cn_slaves y @ [?me], cn_flags := cn_flags y OR CLUSTER_NODE_MIGRATE_TO\<rparr>)"
  have zz: "z = me" if "nodeIsMaster me" using h(3) [OF mm [OF that]] z me(1) by simp
  define s2 where "s2 = emit (Replication_set_master (cn_ip y) (cn_port y))
    ((if nodeIsMaster me then clusterCloseAllSlots s else s)\<lparr>c_heap := h'\<rparr>)"
  have r: "clusterSetMaster paused n s = Some (resetManualFailover paused s2)"
  proof (cases "nodeIsMaster me")
    case True
    then show ?thesis using n me(1) num y z fresh h(3) [OF mm [OF True]] zz [OF True]
      by (simp add: clusterSetMaster_def set_node_def clusterNodeAddSlave_def s2_def h'_def F_def clusterCloseAllSlots_def emit_def)
  next
    case False
    then show ?thesis using n me(1) num y z fresh h(2,3)
      by (cases "cn_slaveof me")
        (simp_all add: clusterSetMaster_def set_node_def clusterNodeAddSlave_def s2_def h'_def F_def emit_def)
  qed
  let ?s = "resetManualFailover paused s2"
  have f: "c_heap ?s = h'" "c_nodes ?s = c_nodes s" "c_myself ?s = c_myself s" "c_slots ?s = c_slots s"
    "c_importing_slots_from ?s = (if nodeIsMaster me then (\<lambda>_. None) else c_importing_slots_from s)"
    "c_migrating_slots_to ?s = (if nodeIsMaster me then (\<lambda>_. None) else c_migrating_slots_to s)"
    by (simp_all add: s2_def resetManualFailover_def emit_def clusterCloseAllSlots_def Let_def)
  have d: "dom (c_heap ?s) = dom (c_heap s)" using unslaved_dom [OF h(1)] n(1) me(1) unfolding f h'_def by auto
  have "cluster_ok ?s"
  proof (rule cluster_ok_reparent [OF ok, of ?me "Some n"])
    fix k w0 w
    assume k: "c_heap s k = Some w0" "c_heap ?s k = Some w"
    have slv: "nodeIsSlave (z\<lparr>cn_flags := F, cn_slaveof := Some n\<rparr>)"
      using me(2) unslavedD [OF h(1) me(1) z] by (auto simp: F_def flag_iff bit_simps flag_defs)
    consider "k = ?me" | "k = n" | "k \<noteq> ?me" "k \<noteq> n" by blast
    then show "reparent ?me (Some n) k w0 w"
    proof cases
      case 1
      then have "w0 = me" "w = z\<lparr>cn_flags := F, cn_slaveof := Some n\<rparr>" using k me(1) n(2) by (auto simp: f h'_def)
      with 1 slv unslavedD [OF h(1) me(1) z] links_okD(4) [OF lk me(1)] n(2) show ?thesis
        by (auto simp: reparent_def slots_of_def)
    next
      case 2
      then have w: "w0 = y0" "w = y\<lparr>cn_slaves := cn_slaves y @ [?me], cn_flags := cn_flags y OR CLUSTER_NODE_MIGRATE_TO\<rparr>"
        using k y0 n(2) by (auto simp: f h'_def)
      have "cn_slaveof y0 \<noteq> None \<longrightarrow> nodeIsSlave y0" using links_okD(8) [OF lk y0] by blast
      with 2 w unslavedD [OF h(1) y0 y] links_okD(4) [OF lk y0] n(2) fresh show ?thesis
        by (auto simp: reparent_def slots_of_def flag_iff)
    next
      case 3
      then show ?thesis using reparent_unslaved [OF lk h(1) k(1), of w "Some n"] k(2) by (simp add: f h'_def)
    qed
  qed (use me(1) n(1) d f in \<open>auto split: if_splits\<close>)
  moreover have "me_role ?s = Some (False, True)"
  proof -
    have "\<not> nodeIsMaster (z\<lparr>cn_flags := F, cn_slaveof := Some n\<rparr>) \<and> nodeIsSlave (z\<lparr>cn_flags := F, cn_slaveof := Some n\<rparr>)"
      using me(2) unslavedD [OF h(1) me(1) z] by (auto simp: F_def flag_iff bit_simps flag_defs)
    then show ?thesis using n(2) by (simp add: me_role_def f h'_def)
  qed
  moreover have "roles ?s = (roles s)(c_myself s \<mapsto> (False, True, nodeInHandshake me))"
  proof (rule ext)
    fix k
    consider "k = ?me" | "k = n" | "k \<noteq> ?me" "k \<noteq> n" by blast
    then show "roles ?s k = ((roles s)(c_myself s \<mapsto> (False, True, nodeInHandshake me))) k"
    proof cases
      case 1
      have "nodeInHandshake z = nodeInHandshake me" "nodeIsSlave z = nodeIsSlave me" "nodeIsMaster z = nodeIsMaster me"
        using unslavedD [OF h(1) me(1) z] by (simp_all add: node_role_def)
      then show ?thesis using 1 n(2) me(2) by (auto simp: roles_def f h'_def node_role_def F_def flag_iff bit_simps flag_defs)
    next
      case 2
      have "node_role y = node_role y0" using unslavedD [OF h(1) y0 y] by simp
      moreover have "node_role (y\<lparr>cn_slaves := cn_slaves y @ [?me], cn_flags := cn_flags y OR CLUSTER_NODE_MIGRATE_TO\<rparr>) = node_role y"
        by (simp add: node_role_def flag_iff bit_simps flag_defs)
      ultimately show ?thesis using 2 n(2) y0 by (simp add: roles_def f h'_def)
    next
      case 3
      have "map_option node_role (h k) = map_option node_role (c_heap s k)"
      proof (cases "c_heap s k")
        case None
        then have "k \<notin> dom h" unfolding unslaved_dom [OF h(1)] by blast
        then show ?thesis using None by auto
      next
        case (Some w0)
        then obtain w where "h k = Some w" using unslaved_dom [OF h(1)] by blast
        then show ?thesis using Some unslavedD [OF h(1) Some] by simp
      qed
      then show ?thesis using 3 by (simp add: roles_def f h'_def)
    qed
  qed
  ultimately show ?thesis using r d f by blast
qed

section \<open>Changes to a single node\<close>

text \<open>Everything but the heap and what \<open>cluster_ok\<close> does not mention.\<close>

definition same_tables :: "clusterState \<Rightarrow> clusterState \<Rightarrow> bool" where
  "same_tables s s' \<longleftrightarrow> c_nodes s' = c_nodes s \<and> c_myself s' = c_myself s \<and> c_slots s' = c_slots s \<and>
     c_importing_slots_from s' = c_importing_slots_from s \<and> c_migrating_slots_to s' = c_migrating_slots_to s"

lemma cluster_ok_upd:
  assumes ok: "cluster_ok s" and x: "c_heap s n = Some x" and h: "c_heap s' = (c_heap s)(n \<mapsto> x')" and t: "same_tables s s'"
    and r: "cn_name x' = cn_name x" "cn_slaves x' = cn_slaves x" "cn_slaveof x' = cn_slaveof x" "slots_of x' = slots_of x"
    and sl: "cn_slaveof x \<noteq> None \<Longrightarrow> nodeIsSlave x \<Longrightarrow> nodeIsSlave x'"
    and fr: "distinct (map fst (cn_fail_reports x'))" "fst ` set (cn_fail_reports x') \<subseteq> dom (c_heap s)"
  shows "cluster_ok s'"
proof -
  have so: "slots_ok s" and lk: "links_ok s" using ok by (simp_all add: cluster_ok_def)
  have c: "c_nodes s' = c_nodes s" "c_myself s' = c_myself s" "c_slots s' = c_slots s"
     "c_importing_slots_from s' = c_importing_slots_from s" "c_migrating_slots_to s' = c_migrating_slots_to s"
    using t by (simp_all add: same_tables_def)
  have "same_slots s s'" using x r(4) c h by (auto simp: same_slots_def fun_eq_iff)
  then have "slots_ok s'" using same_slots_ok [OF so] by blast
  moreover have d: "dom (c_heap s') = dom (c_heap s)" using x h by auto
  have 1: "{(cn_name y, k) | k y. c_heap s' k = Some y} = {(cn_name y, k) | k y. c_heap s k = Some y}"
    by (rule named_nodes_cong) (use x r(1) h in auto)
  have 2: "{k. \<exists>y. c_heap s' k = Some y \<and> cn_slaveof y = Some m} = {k. \<exists>y. c_heap s k = Some y \<and> cn_slaveof y = Some m}" for m
    using x r(3) h by (auto split: if_splits)
  have "links_ok s'" unfolding links_ok_def c 1 2 d
  proof (intro conjI allI impI)
    fix m y
    assume y: "c_heap s' m = Some y"
    define y0 where "y0 = (if m = n then x else y)"
    have y0: "c_heap s m = Some y0" using y x h by (auto simp: y0_def split: if_splits)
    have e: "cn_slaves y = cn_slaves y0" "cn_slaveof y = cn_slaveof y0" using y h r by (auto simp: y0_def split: if_splits)
    show "distinct (cn_slaves y)" "set (cn_slaves y) = {k. \<exists>y. c_heap s k = Some y \<and> cn_slaveof y = Some m}"
      using links_okD(4,5) [OF lk y0] by (simp_all add: e)
    show "distinct (map fst (cn_fail_reports y))" "fst ` set (cn_fail_reports y) \<subseteq> dom (c_heap s)"
      using links_okD(6,7) [OF lk y0] fr y h by (cases "m = n"; simp add: y0_def)+
    fix p
    assume p: "cn_slaveof y = Some p"
    then show "p \<in> dom (c_heap s)" using links_okD(8) [OF lk y0, of p] by (simp add: e)
    from p have "cn_slaveof y0 = Some p" by (simp add: e)
    with links_okD(8) [OF lk y0, of p] sl y h show "nodeIsSlave y" by (cases "m = n") (simp_all add: y0_def)
  qed (use links_okD [OF lk] in auto)
  ultimately show ?thesis by (simp add: cluster_ok_def)
qed

text \<open>Adding a failure report: reports of distinct, known nodes.\<close>

lemma fail_report_touch_None: "fail_report_touch n t frs = None \<longleftrightarrow> n \<notin> fst ` set frs"
  by (induction frs) auto

lemma fail_report_touch_Some: "fail_report_touch n t frs = Some frs' \<Longrightarrow> map fst frs' = map fst frs"
  by (induction frs arbitrary: frs') (auto split: if_splits)

lemma fail_report_remove_None: "fail_report_remove n frs = None \<longleftrightarrow> n \<notin> fst ` set frs"
  by (induction frs) auto

lemma fail_report_remove_Some: "fail_report_remove n frs = Some frs' \<Longrightarrow> map fst frs' = remove1 n (map fst frs)"
  by (induction frs arbitrary: frs') (auto split: if_splits)

lemma fail_report_remove_subset: "fail_report_remove n frs = Some frs' \<Longrightarrow> set frs' \<subseteq> set frs"
  by (induction frs arbitrary: frs') (auto split: if_splits)

lemma clusterNodeAddFailureReport_ok:
  assumes ok: "cluster_ok s" and n: "failing \<in> dom (c_heap s)" "sender \<in> dom (c_heap s)"
  shows "\<exists>s' b. clusterNodeAddFailureReport failing sender s = Some (s', b) \<and> cluster_ok s' \<and> same_tables s s' \<and> dom (c_heap s') = dom (c_heap s) \<and>
    me_role s' = me_role s \<and> roles s' = roles s"
proof -
  have lk: "links_ok s" using ok by (simp add: cluster_ok_def)
  obtain x where x: "c_heap s failing = Some x" using n(1) by blast
  let ?t = "c_clock s (c_tick s)"
  define frs where "frs = (case fail_report_touch sender ?t (cn_fail_reports x) of Some frs \<Rightarrow> frs
    | None \<Rightarrow> cn_fail_reports x @ [(sender, ?t)])"
  let ?s = "s\<lparr>c_tick := Suc (c_tick s), c_heap := (c_heap s)(failing \<mapsto> x\<lparr>cn_fail_reports := frs\<rparr>)\<rparr>"
  obtain b where r: "clusterNodeAddFailureReport failing sender s = Some (?s, b)"
    using x by (cases "fail_report_touch sender ?t (cn_fail_reports x)")
      (auto simp: clusterNodeAddFailureReport_def mstime_def set_node_def frs_def)
  have d: "distinct (map fst frs)" "fst ` set frs \<subseteq> dom (c_heap s)"
  proof -
    have "distinct (map fst frs) \<and> set (map fst frs) \<subseteq> dom (c_heap s)"
    proof (cases "fail_report_touch sender ?t (cn_fail_reports x)")
      case None
      then have "frs = cn_fail_reports x @ [(sender, ?t)]" by (simp add: frs_def)
      moreover have "sender \<notin> fst ` set (cn_fail_reports x)" using None fail_report_touch_None by blast
      ultimately show ?thesis using links_okD(6,7) [OF lk x] n(2) by simp
    next
      case (Some a)
      then have "map fst frs = map fst (cn_fail_reports x)" using fail_report_touch_Some by (simp add: frs_def)
      then show ?thesis using links_okD(6,7) [OF lk x] by (metis set_map)
    qed
    then show "distinct (map fst frs)" "fst ` set frs \<subseteq> dom (c_heap s)" by auto
  qed
  have "cluster_ok ?s"
    by (rule cluster_ok_upd [where x' = "x\<lparr>cn_fail_reports := frs\<rparr>", OF ok x]) (use d in \<open>simp_all add: same_tables_def slots_of_def nodeIsSlave_def\<close>)
  moreover have "same_tables s ?s" "dom (c_heap ?s) = dom (c_heap s)" "me_role ?s = me_role s"
    using x by (auto simp: same_tables_def me_role_def flag_iff)
  moreover have "roles ?s = roles s" by (rule roles_upd [OF x, where x' = "x\<lparr>cn_fail_reports := frs\<rparr>"]) (simp_all add: node_role_def flag_iff)
  ultimately show ?thesis using r by blast
qed

lemma clusterNodeCleanupFailureReports_ok:
  assumes ok: "cluster_ok s" and x: "c_heap s n = Some x"
  shows "\<exists>s' P. clusterNodeCleanupFailureReports n s = Some s' \<and> cluster_ok s' \<and> same_tables s s' \<and>
    c_heap s' = (c_heap s)(n \<mapsto> x\<lparr>cn_fail_reports := filter P (cn_fail_reports x)\<rparr>)"
proof -
  have lk: "links_ok s" using ok by (simp add: cluster_ok_def)
  define P where "P = (\<lambda>fr :: nid \<times> int. \<not> c_clock s (c_tick s) - snd fr > c_node_timeout s * 2)"
  let ?s = "s\<lparr>c_tick := Suc (c_tick s), c_heap := (c_heap s)(n \<mapsto> x\<lparr>cn_fail_reports := filter P (cn_fail_reports x)\<rparr>)\<rparr>"
  have "clusterNodeCleanupFailureReports n s = Some ?s"
    using x by (simp add: clusterNodeCleanupFailureReports_def mstime_def set_node_def P_def)
  moreover have "cluster_ok ?s"
    using links_okD(6,7) [OF lk x]
    by (intro cluster_ok_upd [where x' = "x\<lparr>cn_fail_reports := filter P (cn_fail_reports x)\<rparr>", OF ok x])
      (auto simp: same_tables_def slots_of_def nodeIsSlave_def distinct_map_filter)
  ultimately show ?thesis by (auto simp: same_tables_def)
qed

lemma clusterNodeDelFailureReport_ok:
  assumes ok: "cluster_ok s" and x: "c_heap s n = Some x"
  shows "\<exists>s' b frs. clusterNodeDelFailureReport n sender s = Some (s', b) \<and> cluster_ok s' \<and> same_tables s s' \<and>
    c_heap s' = (c_heap s)(n \<mapsto> x\<lparr>cn_fail_reports := frs\<rparr>) \<and> sender \<notin> fst ` set frs \<and> set frs \<subseteq> set (cn_fail_reports x)"
proof (cases "fail_report_remove sender (cn_fail_reports x)")
  case None
  have "(c_heap s)(n \<mapsto> x\<lparr>cn_fail_reports := cn_fail_reports x\<rparr>) = c_heap s" using x by (auto simp: fun_eq_iff)
  moreover have "sender \<notin> fst ` set (cn_fail_reports x)" using None fail_report_remove_None by blast
  moreover have "clusterNodeDelFailureReport n sender s = Some (s, False)" using None x by (simp add: clusterNodeDelFailureReport_def)
  ultimately show ?thesis using ok
    by (intro exI [of _ s] exI [of _ False] exI [of _ "cn_fail_reports x"]) (simp add: same_tables_def)
next
  case (Some frs)
  have lk: "links_ok s" using ok by (simp add: cluster_ok_def)
  have m: "map fst frs = remove1 sender (map fst (cn_fail_reports x))" using fail_report_remove_Some [OF Some] .
  have d: "distinct (map fst frs)" using links_okD(6) [OF lk x] by (simp add: m)
  have "set (map fst frs) = set (map fst (cn_fail_reports x)) - {sender}" using links_okD(6) [OF lk x] by (simp add: m)
  then have sub: "fst ` set frs \<subseteq> dom (c_heap s)" "sender \<notin> fst ` set frs" using links_okD(7) [OF lk x] by auto
  let ?s = "s\<lparr>c_heap := (c_heap s)(n \<mapsto> x\<lparr>cn_fail_reports := frs\<rparr>)\<rparr>"
  have ok1: "cluster_ok ?s"
    using d sub by (intro cluster_ok_upd [where x' = "x\<lparr>cn_fail_reports := frs\<rparr>", OF ok x]) (auto simp: same_tables_def slots_of_def nodeIsSlave_def)
  have x1: "c_heap ?s n = Some (x\<lparr>cn_fail_reports := frs\<rparr>)" by simp
  obtain s' P where s': "clusterNodeCleanupFailureReports n ?s = Some s'" "cluster_ok s'" "same_tables ?s s'"
    "c_heap s' = (c_heap ?s)(n \<mapsto> (x\<lparr>cn_fail_reports := frs\<rparr>)\<lparr>cn_fail_reports := filter P (cn_fail_reports (x\<lparr>cn_fail_reports := frs\<rparr>))\<rparr>)"
    using clusterNodeCleanupFailureReports_ok [OF ok1 x1] by blast
  have "c_heap s' = (c_heap s)(n \<mapsto> x\<lparr>cn_fail_reports := filter P frs\<rparr>)" using s'(4) by simp
  moreover have "clusterNodeDelFailureReport n sender s = Some (s', True)"
    using x Some s'(1) by (simp add: clusterNodeDelFailureReport_def set_node_def)
  moreover have "same_tables s s'" using s'(3) by (simp add: same_tables_def)
  ultimately show ?thesis using s'(2) sub(2) fail_report_remove_subset [OF Some] by (intro exI [of _ s'] exI [of _ True] exI [of _ "filter P frs"]) auto
qed

lemma clusterNodeFailureReportsCount_ok:
  assumes ok: "cluster_ok s" and n: "n \<in> dom (c_heap s)"
  shows "\<exists>s' c. clusterNodeFailureReportsCount n s = Some (s', c) \<and> cluster_ok s' \<and> same_tables s s' \<and> dom (c_heap s') = dom (c_heap s) \<and>
    me_role s' = me_role s \<and> roles s' = roles s"
proof -
  obtain x where x: "c_heap s n = Some x" using n by blast
  from clusterNodeCleanupFailureReports_ok [OF ok x] obtain s' P where
    "clusterNodeCleanupFailureReports n s = Some s'" "cluster_ok s'" "same_tables s s'"
    "c_heap s' = (c_heap s)(n \<mapsto> x\<lparr>cn_fail_reports := filter P (cn_fail_reports x)\<rparr>)" by blast
  moreover from this(4) have "roles s' = roles s" by (rule roles_upd [OF x]) (simp_all add: node_role_def flag_iff)
  ultimately show ?thesis using x by (auto simp: clusterNodeFailureReportsCount_def me_role_def same_tables_def flag_iff)
qed

section \<open>Removing a node\<close>

lemma cluster_ok_cong:
  assumes ok: "cluster_ok s" and h: "c_heap s' = c_heap s" "c_nodes s' = c_nodes s" "c_myself s' = c_myself s" "c_slots s' = c_slots s"
    and i: "\<And>j k. c_importing_slots_from s' j = Some k \<or> c_migrating_slots_to s' j = Some k \<Longrightarrow>
      c_importing_slots_from s j = Some k \<or> c_migrating_slots_to s j = Some k"
  shows "cluster_ok s'"
proof -
  have "same_slots s s'" using h by (simp add: same_slots_def)
  then have "slots_ok s'" using ok same_slots_ok by (auto simp: cluster_ok_def)
  moreover have lk: "links_ok s" using ok by (simp add: cluster_ok_def)
  note l = lk [unfolded links_ok_def, THEN conjunct2, THEN conjunct2, THEN conjunct2]
  have "links_ok s'" unfolding links_ok_def h
    by (intro conjI links_okD [OF lk] l [THEN conjunct1]) (use l [THEN conjunct2] i in blast)
  ultimately show ?thesis by (simp add: cluster_ok_def)
qed

lemma foldM_prefix_total:
  assumes "\<And>ys x zs s. xs = ys @ x # zs \<Longrightarrow> P ys s \<Longrightarrow> \<exists>s'. f x s = Some s' \<and> P (ys @ [x]) s'" "P [] s"
  shows "\<exists>s'. foldM f xs s = Some s' \<and> P xs s'"
proof -
  have "\<exists>s'. foldM f zs t = Some s' \<and> P xs s'" if "xs = ys @ zs" "P ys t" for ys zs t
    using that
  proof (induction zs arbitrary: ys t)
    case (Cons z zs)
    then obtain t1 where t1: "f z t = Some t1" "P (ys @ [z]) t1" using assms(1) by blast
    then have "\<exists>s'. foldM f zs t1 = Some s' \<and> P xs s'" using Cons.IH [of "ys @ [z]" t1] Cons.prems(1) by simp
    with t1(1) show ?case by simp
  qed simp
  from this [of "[]" xs s] assms(2) show ?thesis by simp
qed

lemma del_node_slots:
  assumes ok: "cluster_ok s"
  shows "\<exists>s'. foldM (\<lambda>j s. do {
       let s = (if c_importing_slots_from s j = Some d
                then s\<lparr>c_importing_slots_from := (c_importing_slots_from s)(j := None)\<rparr> else s);
       let s = (if c_migrating_slots_to s j = Some d
                then s\<lparr>c_migrating_slots_to := (c_migrating_slots_to s)(j := None)\<rparr> else s);
       if c_slots s j = Some d then map_option fst (clusterDelSlot j s) else Some s
     }) [0..<CLUSTER_SLOTS] s = Some s' \<and> cluster_ok s' \<and>
     dom (c_heap s') = dom (c_heap s) \<and> c_nodes s' = c_nodes s \<and> c_myself s' = c_myself s \<and> roles s' = roles s \<and>
     (\<forall>j < CLUSTER_SLOTS. c_slots s' j = (if c_slots s j = Some d then None else c_slots s j) \<and>
        c_importing_slots_from s' j \<noteq> Some d \<and> c_migrating_slots_to s' j \<noteq> Some d)"
proof -
  let ?P = "\<lambda>k t. cluster_ok t \<and> dom (c_heap t) = dom (c_heap s) \<and> c_nodes t = c_nodes s \<and> c_myself t = c_myself s \<and> roles t = roles s \<and>
    (\<forall>j. c_slots t j = (if j < k \<and> c_slots s j = Some d then None else c_slots s j)) \<and>
    (\<forall>j < k. c_importing_slots_from t j \<noteq> Some d \<and> c_migrating_slots_to t j \<noteq> Some d)"
  let ?f = "\<lambda>j s. do {
       let s = (if c_importing_slots_from s j = Some d
                then s\<lparr>c_importing_slots_from := (c_importing_slots_from s)(j := None)\<rparr> else s);
       let s = (if c_migrating_slots_to s j = Some d
                then s\<lparr>c_migrating_slots_to := (c_migrating_slots_to s)(j := None)\<rparr> else s);
       if c_slots s j = Some d then map_option fst (clusterDelSlot j s) else Some s
     }"
  have "\<exists>s'. foldM ?f [0..<CLUSTER_SLOTS] s = Some s' \<and> ?P CLUSTER_SLOTS s'"
  proof (rule foldM_upt_total)
    fix j t
    assume j: "j < CLUSTER_SLOTS" and P: "?P j t"
    define t1 where "t1 = (if c_importing_slots_from t j = Some d
                then t\<lparr>c_importing_slots_from := (c_importing_slots_from t)(j := None)\<rparr> else t)"
    define t2 where "t2 = (if c_migrating_slots_to t1 j = Some d
                then t1\<lparr>c_migrating_slots_to := (c_migrating_slots_to t1)(j := None)\<rparr> else t1)"
    have f: "?f j t = (if c_slots t2 j = Some d then map_option fst (clusterDelSlot j t2) else Some t2)"
      by (simp only: t1_def [symmetric] t2_def [symmetric] Let_def)
    have e: "c_heap t2 = c_heap t" "c_nodes t2 = c_nodes t" "c_myself t2 = c_myself t" "c_slots t2 = c_slots t"
      "\<And>i. c_importing_slots_from t2 i = (if i = j \<and> c_importing_slots_from t j = Some d then None else c_importing_slots_from t i)"
      "\<And>i. c_migrating_slots_to t2 i = (if i = j \<and> c_migrating_slots_to t j = Some d then None else c_migrating_slots_to t i)"
      by (auto simp: t1_def t2_def)
    have role: "roles t2 = roles t" using e by (simp add: roles_def)
    have ok2: "cluster_ok t2" by (rule cluster_ok_cong [of t]) (use P e in \<open>auto split: if_splits\<close>)
    show "\<exists>t'. ?f j t = Some t' \<and> ?P (Suc j) t'"
    proof (cases "c_slots t2 j = Some d")
      case True
      obtain t3 b where t3: "clusterDelSlot j t2 = Some (t3, b)" "cluster_ok t3" "slot_frame t2 t3" "c_slots t3 = (c_slots t2)(j := None)"
        using clusterDelSlot_ok [OF ok2 j] by blast
      have "c_nodes t3 = c_nodes t2" "c_myself t3 = c_myself t2" "c_importing_slots_from t3 = c_importing_slots_from t2"
        "c_migrating_slots_to t3 = c_migrating_slots_to t2" using slot_frame_links [OF t3(3)] by (simp_all add: same_links_def)
      then show ?thesis unfolding f using t3 True P e role slot_frame_dom [OF t3(3)] slot_frame_roles [OF t3(3)] by (auto simp: less_Suc_eq)
    next
      case False
      then show ?thesis unfolding f using P e role ok2 by (auto simp: less_Suc_eq)
    qed
  qed (use ok in auto)
  then show ?thesis by auto
qed

lemma foldM_set_node:
  assumes "\<And>k. k \<in> set xs \<Longrightarrow> k \<in> dom (c_heap s)" "\<And>y. f (f y) = f y"
  shows "foldM (\<lambda>k. set_node k f) xs s = Some (s\<lparr>c_heap := \<lambda>k. if k \<in> set xs then map_option f (c_heap s k) else c_heap s k\<rparr>)"
  using assms(1)
proof (induction xs arbitrary: s)
  case (Cons x xs)
  then obtain y where y: "c_heap s x = Some y" by fastforce
  let ?s = "s\<lparr>c_heap := (c_heap s)(x \<mapsto> f y)\<rparr>"
  have "foldM (\<lambda>k. set_node k f) xs ?s =
      Some (?s\<lparr>c_heap := \<lambda>k. if k \<in> set xs then map_option f (c_heap ?s k) else c_heap ?s k\<rparr>)"
  proof (rule Cons.IH)
    fix k
    assume "k \<in> set xs"
    then have "k \<in> dom (c_heap s)" using Cons.prems [of k] by simp
    then show "k \<in> dom (c_heap ?s)" by simp
  qed
  moreover have "(\<lambda>k. if k \<in> set xs then map_option f (c_heap ?s k) else c_heap ?s k) =
      (\<lambda>k. if k \<in> set (x # xs) then map_option f (c_heap s k) else c_heap s k)"
    using y assms(2) by (auto simp: fun_eq_iff)
  ultimately show ?case using set_node_Some [OF y, of f] by simp
qed simp

text \<open>What the removal of \<open>d\<close> makes of another node.\<close>

lemma del_node_reports:
  assumes ok: "cluster_ok s"
  shows "\<exists>s'. foldM (\<lambda>e s. if snd e = d then Some s else map_option fst (clusterNodeDelFailureReport (snd e) d s)) (c_nodes s) s = Some s' \<and>
    cluster_ok s' \<and> same_tables s s' \<and> dom (c_heap s') = dom (c_heap s) \<and> roles s' = roles s \<and>
    (\<forall>n y. n \<noteq> d \<longrightarrow> c_heap s' n = Some y \<longrightarrow> d \<notin> fst ` set (cn_fail_reports y))"
proof -
  let ?P = "\<lambda>es t. cluster_ok t \<and> same_tables s t \<and> dom (c_heap t) = dom (c_heap s) \<and> roles t = roles s \<and>
    (\<forall>e \<in> set es. \<forall>y. snd e \<noteq> d \<longrightarrow> c_heap t (snd e) = Some y \<longrightarrow> d \<notin> fst ` set (cn_fail_reports y))"
  have nodes: "set (c_nodes s) = {(cn_name x, n) | n x. c_heap s n = Some x}" using ok links_okD(2) by (simp add: cluster_ok_def)
  have "\<exists>s'. foldM (\<lambda>e s. if snd e = d then Some s else map_option fst (clusterNodeDelFailureReport (snd e) d s)) (c_nodes s) s = Some s' \<and>
    ?P (c_nodes s) s'"
  proof (rule foldM_prefix_total)
    fix ys e zs t
    assume e: "c_nodes s = ys @ e # zs" and P: "?P ys t"
    show "\<exists>s'. (if snd e = d then Some t else map_option fst (clusterNodeDelFailureReport (snd e) d t)) = Some s' \<and> ?P (ys @ [e]) s'"
    proof (cases "snd e = d")
      case True
      with P show ?thesis by simp
    next
      case False
      have okt: "cluster_ok t" "same_tables s t" "dom (c_heap t) = dom (c_heap s)" "roles t = roles s"
        and old: "\<And>e y. e \<in> set ys \<Longrightarrow> snd e \<noteq> d \<Longrightarrow> c_heap t (snd e) = Some y \<Longrightarrow> d \<notin> fst ` set (cn_fail_reports y)"
        using P by simp_all
      have "e \<in> set (c_nodes s)" by (simp add: e)
      then have "snd e \<in> dom (c_heap t)" unfolding nodes okt(3) by auto
      then obtain x where x: "c_heap t (snd e) = Some x" by blast
      obtain t' b frs where t': "clusterNodeDelFailureReport (snd e) d t = Some (t', b)" "cluster_ok t'" "same_tables t t'"
        "c_heap t' = (c_heap t)(snd e \<mapsto> x\<lparr>cn_fail_reports := frs\<rparr>)" "d \<notin> fst ` set frs" "set frs \<subseteq> set (cn_fail_reports x)"
        using clusterNodeDelFailureReport_ok [OF okt(1) x, of d] by blast
      have "same_tables s t'" using okt(2) t'(3) by (simp add: same_tables_def)
      moreover have "dom (c_heap t') = dom (c_heap s)" using okt(3) t'(4) x by auto
      moreover have "d \<notin> fst ` set (cn_fail_reports y)"
        if "e' \<in> set (ys @ [e])" "snd e' \<noteq> d" "c_heap t' (snd e') = Some y" for e' y
        using that old [of e' y] t'(4,5) by (cases "snd e' = snd e") auto
      moreover have "roles t' = roles s" unfolding okt(4) [symmetric] by (rule roles_upd [OF x t'(4)]) (simp add: node_role_def flag_iff)
      ultimately have "?P (ys @ [e]) t'" using t'(2) by blast
      moreover have "(if snd e = d then Some t else map_option fst (clusterNodeDelFailureReport (snd e) d t)) = Some t'"
        using False t'(1) by simp
      ultimately show ?thesis by blast
    qed
  qed (use ok in \<open>simp add: same_tables_def\<close>)
  then obtain s' where s': "foldM (\<lambda>e s. if snd e = d then Some s else map_option fst (clusterNodeDelFailureReport (snd e) d s)) (c_nodes s) s = Some s'"
    "?P (c_nodes s) s'" by blast
  have d: "dom (c_heap s') = dom (c_heap s)"
    and old: "\<And>e y. e \<in> set (c_nodes s) \<Longrightarrow> snd e \<noteq> d \<Longrightarrow> c_heap s' (snd e) = Some y \<Longrightarrow> d \<notin> fst ` set (cn_fail_reports y)"
    using s'(2) by simp_all
  have "d \<notin> fst ` set (cn_fail_reports y)" if n: "n \<noteq> d" "c_heap s' n = Some y" for n y
  proof -
    have "n \<in> dom (c_heap s)" unfolding d [symmetric] using n(2) by blast
    then obtain nm where "(nm, n) \<in> set (c_nodes s)" unfolding nodes by blast
    then show ?thesis using old [of "(nm, n)" y] n by simp
  qed
  with s'(1) d show ?thesis using s'(2) by (intro exI [of _ s']) simp
qed

text \<open>What remains of a node when node \<open>d\<close> is removed.\<close>

definition forget :: "nid \<Rightarrow> clusterNode \<Rightarrow> clusterNode \<Rightarrow> bool" where
  "forget d y0 y \<longleftrightarrow> cn_name y = cn_name y0 \<and> cn_fail_reports y = cn_fail_reports y0 \<and> slots_of y = slots_of y0 \<and>
     nodeIsSlave y = nodeIsSlave y0 \<and> node_role y = node_role y0 \<and> cn_slaves y = remove1 d (cn_slaves y0) \<and>
     cn_slaveof y = (if cn_slaveof y0 = Some d then None else cn_slaveof y0)"

lemma cluster_ok_forget:
  assumes ok: "cluster_ok s" and x: "c_heap s d = Some x" and me: "d \<noteq> c_myself s"
    and free: "\<And>j. j < CLUSTER_SLOTS \<Longrightarrow> c_slots s j \<noteq> Some d \<and> c_importing_slots_from s j \<noteq> Some d \<and> c_migrating_slots_to s j \<noteq> Some d"
    and fr: "\<And>n y. n \<noteq> d \<Longrightarrow> c_heap s n = Some y \<Longrightarrow> d \<notin> fst ` set (cn_fail_reports y)"
    and h: "dom (c_heap s') = dom (c_heap s) - {d}" "\<And>k y0 y. c_heap s k = Some y0 \<Longrightarrow> c_heap s' k = Some y \<Longrightarrow> forget d y0 y"
    and c: "c_nodes s' = filter (\<lambda>e. fst e \<noteq> cn_name x) (c_nodes s)" "c_myself s' = c_myself s" "c_slots s' = c_slots s"
      "c_importing_slots_from s' = c_importing_slots_from s" "c_migrating_slots_to s' = c_migrating_slots_to s"
  shows "cluster_ok s'"
proof -
  have so: "slots_ok s" and lk: "links_ok s" using ok by (simp_all add: cluster_ok_def)
  have old: "\<exists>y0. c_heap s k = Some y0 \<and> k \<noteq> d \<and> forget d y0 y" if "c_heap s' k = Some y" for k y
  proof -
    have "k \<in> dom (c_heap s) - {d}" using that h(1) by blast
    with h(2) that show ?thesis by blast
  qed
  have new: "\<exists>y. c_heap s' k = Some y \<and> forget d y0 y" if "c_heap s k = Some y0" "k \<noteq> d" for k y0
  proof -
    have "k \<in> dom (c_heap s')" using that h(1) by blast
    with h(2) that(1) show ?thesis by blast
  qed
  have "slots_ok s'" unfolding slots_ok_def c
  proof (intro conjI allI impI)
    fix n y
    assume "c_heap s' n = Some y"
    then obtain y0 where y0: "c_heap s n = Some y0" "cn_slots y = cn_slots y0" "cn_numslots y = cn_numslots y0"
      using old by (fastforce simp: forget_def slots_of_def)
    show "length (cn_slots y) = CLUSTER_SLOTS div 8" "cn_numslots y = int (card {j. j < CLUSTER_SLOTS \<and> c_slots s j = Some n})"
      "\<And>j. j < CLUSTER_SLOTS \<Longrightarrow> bitmapTestBit (cn_slots y) j = Some (c_slots s j = Some n)"
      using so y0 by (simp_all add: slots_ok_def)
  next
    fix j n
    assume "j < CLUSTER_SLOTS" "c_slots s j = Some n"
    then show "n \<in> dom (c_heap s')" using so free [of j] unfolding h(1) slots_ok_def by auto
  qed
  moreover have "links_ok s'" unfolding links_ok_def
  proof (intro conjI)
    show "distinct (map fst (c_nodes s'))" using links_okD(1) [OF lk] c(1) by (simp add: distinct_map_filter)
    show "c_myself s' \<in> dom (c_heap s')" using links_okD(3) [OF lk] me c(2) h(1) by auto
    have uniq: "n = d" if "c_heap s n = Some y" "cn_name y = cn_name x" for n y
    proof -
      have "(cn_name y, n) \<in> set (c_nodes s)" "(cn_name x, d) \<in> set (c_nodes s)"
        unfolding links_okD(2) [OF lk] using that x by blast+
      then show ?thesis using links_okD(1) [OF lk] that(2) by (metis eq_key_imp_eq_value)
    qed
    have "e \<in> set (c_nodes s') \<longleftrightarrow> e \<in> {(cn_name y, n) | n y. c_heap s' n = Some y}" for e
    proof -
      have a: "e \<in> set (c_nodes s') \<longleftrightarrow> (\<exists>y. c_heap s (snd e) = Some y \<and> cn_name y = fst e) \<and> fst e \<noteq> cn_name x"
        using named_nodes_iff [of e "c_heap s"] unfolding c(1) links_okD(2) [OF lk, symmetric] by simp
      have b: "(\<exists>y. c_heap s (snd e) = Some y \<and> cn_name y = fst e) \<longleftrightarrow> (\<exists>y. c_heap s' (snd e) = Some y \<and> cn_name y = fst e)"
        if "snd e \<noteq> d"
      proof
        assume "\<exists>y. c_heap s (snd e) = Some y \<and> cn_name y = fst e"
        then obtain y where "c_heap s (snd e) = Some y" "cn_name y = fst e" by blast
        with new [OF this(1) that] show "\<exists>y. c_heap s' (snd e) = Some y \<and> cn_name y = fst e" by (auto simp: forget_def)
      next
        assume "\<exists>y. c_heap s' (snd e) = Some y \<and> cn_name y = fst e"
        then obtain y where "c_heap s' (snd e) = Some y" "cn_name y = fst e" by blast
        with old [OF this(1)] show "\<exists>y. c_heap s (snd e) = Some y \<and> cn_name y = fst e" by (auto simp: forget_def)
      qed
      have none: "c_heap s' d = None" using h(1) by blast
      show ?thesis
      proof (cases "snd e = d")
        case True
        then show ?thesis using a x none unfolding named_nodes_iff by auto
      next
        case False
        then have "fst e \<noteq> cn_name x" if "c_heap s (snd e) = Some y" "cn_name y = fst e" for y using uniq that by metis
        then show ?thesis using a b [OF False] unfolding named_nodes_iff by blast
      qed
    qed
    then show "set (c_nodes s') = {(cn_name y, n) | n y. c_heap s' n = Some y}" by blast
    show "\<forall>m y. c_heap s' m = Some y \<longrightarrow> distinct (cn_slaves y) \<and>
        set (cn_slaves y) = {k. \<exists>z. c_heap s' k = Some z \<and> cn_slaveof z = Some m} \<and>
        distinct (map fst (cn_fail_reports y)) \<and> fst ` set (cn_fail_reports y) \<subseteq> dom (c_heap s') \<and>
        (\<forall>q. cn_slaveof y = Some q \<longrightarrow> q \<in> dom (c_heap s') \<and> nodeIsSlave y)"
    proof (intro allI impI conjI)
      fix m y
      assume y: "c_heap s' m = Some y"
      obtain y0 where y0: "c_heap s m = Some y0" "m \<noteq> d" "forget d y0 y" using old [OF y] by blast
      note f = y0(3) [unfolded forget_def]
      show "distinct (cn_slaves y)" "distinct (map fst (cn_fail_reports y))" using f links_okD(4,6) [OF lk y0(1)] by simp_all
      show "fst ` set (cn_fail_reports y) \<subseteq> dom (c_heap s')" using f links_okD(7) [OF lk y0(1)] fr [OF y0(2,1)] h(1) by auto
      have "(\<exists>z. c_heap s' k = Some z \<and> cn_slaveof z = Some m) \<longleftrightarrow> k \<noteq> d \<and> (\<exists>z. c_heap s k = Some z \<and> cn_slaveof z = Some m)" for k
      proof
        assume "\<exists>z. c_heap s' k = Some z \<and> cn_slaveof z = Some m"
        then obtain z where z: "c_heap s' k = Some z" "cn_slaveof z = Some m" by blast
        obtain z0 where z0: "c_heap s k = Some z0" "k \<noteq> d" "forget d z0 z" using old [OF z(1)] by blast
        then have "cn_slaveof z0 = Some m" using z(2) by (simp add: forget_def split: if_splits)
        with z0 show "k \<noteq> d \<and> (\<exists>z. c_heap s k = Some z \<and> cn_slaveof z = Some m)" by blast
      next
        assume k: "k \<noteq> d \<and> (\<exists>z. c_heap s k = Some z \<and> cn_slaveof z = Some m)"
        then obtain z0 where z0: "c_heap s k = Some z0" "cn_slaveof z0 = Some m" by blast
        obtain z where z: "c_heap s' k = Some z" "forget d z0 z" using new [OF z0(1)] k by blast
        then show "\<exists>z. c_heap s' k = Some z \<and> cn_slaveof z = Some m" using z0(2) y0(2) by (simp add: forget_def)
      qed
      then show "set (cn_slaves y) = {k. \<exists>z. c_heap s' k = Some z \<and> cn_slaveof z = Some m}"
        using f links_okD(4,5) [OF lk y0(1)] by auto
      fix q
      assume q: "cn_slaveof y = Some q"
      then have "cn_slaveof y0 = Some q" "q \<noteq> d" using f by (auto split: if_splits)
      then show "q \<in> dom (c_heap s')" "nodeIsSlave y" using links_okD(8) [OF lk y0(1)] f h(1) by auto
    qed
    show "\<forall>j<CLUSTER_SLOTS. \<forall>n. c_importing_slots_from s' j = Some n \<or> c_migrating_slots_to s' j = Some n \<longrightarrow> n \<in> dom (c_heap s')"
      using links_okD(9) [OF lk] free unfolding c h(1) by blast
  qed
  ultimately show ?thesis by (simp add: cluster_ok_def)
qed

end
