(* ===== verification/Cluster_Nodes.thy ===== *)
theory Cluster_Nodes
  imports Cluster_Inv
begin

text \<open>
  Creation, renaming and removal of nodes keep the invariant of the cluster state, and so does every
  sequence of the operations on nodes, roles and slots.
\<close>

unbundle bit_operations_syntax

section \<open>Who is a slave of whom\<close>

definition masters :: "clusterState \<Rightarrow> nid \<Rightarrow> nid option option" where
  "masters s = map_option cn_slaveof \<circ> c_heap s"

lemma masters_set_node:
  assumes "set_node n f t = Some t'" "\<And>x. cn_slaveof (f x) = cn_slaveof x"
  shows "masters t' = masters t \<and> c_slots t' = c_slots t"
proof -
  obtain x where x: "c_heap t n = Some x" "t' = t\<lparr>c_heap := (c_heap t)(n \<mapsto> f x)\<rparr>" using assms(1) by (auto simp: set_node_def bind_eq_Some_conv)
  show ?thesis using x(1) assms(2) unfolding x(2) by (auto simp: masters_def fun_eq_iff)
qed

lemma reports_masters:
  "clusterNodeCleanupFailureReports n t = Some t' \<Longrightarrow> masters t' = masters t \<and> c_slots t' = c_slots t"
  "clusterNodeFailureReportsCount n t = Some (t', c) \<Longrightarrow> masters t' = masters t \<and> c_slots t' = c_slots t"
  "clusterNodeAddFailureReport n m t = Some (t', b) \<Longrightarrow> masters t' = masters t \<and> c_slots t' = c_slots t"
  "clusterNodeDelFailureReport n m t = Some (t', b) \<Longrightarrow> masters t' = masters t \<and> c_slots t' = c_slots t"
proof -
  have tick: "masters (t\<lparr>c_tick := i\<rparr>) = masters t" for t i by (simp add: masters_def)
  have c: "masters t' = masters t \<and> c_slots t' = c_slots t" if h: "clusterNodeCleanupFailureReports n t = Some t'" for t t'
  proof -
    have "masters t' = masters (t\<lparr>c_tick := Suc (c_tick t)\<rparr>) \<and> c_slots t' = c_slots (t\<lparr>c_tick := Suc (c_tick t)\<rparr>)"
      by (rule masters_set_node [OF h [unfolded clusterNodeCleanupFailureReports_def mstime_def Let_def prod.case]]) simp
    then show ?thesis by (simp add: tick)
  qed
  show "clusterNodeCleanupFailureReports n t = Some t' \<Longrightarrow> masters t' = masters t \<and> c_slots t' = c_slots t" by (rule c)
  show "masters t' = masters t \<and> c_slots t' = c_slots t" if h: "clusterNodeFailureReportsCount n t = Some (t', c)"
  proof -
    obtain u where "clusterNodeCleanupFailureReports n t = Some u" "t' = u" using h by (auto simp: clusterNodeFailureReportsCount_def bind_eq_Some_conv)
    then show ?thesis using c by blast
  qed
  show "masters t' = masters t \<and> c_slots t' = c_slots t" if h: "clusterNodeAddFailureReport n m t = Some (t', b)"
  proof -
    obtain i f where f: "set_node n f (t\<lparr>c_tick := i\<rparr>) = Some t'" "\<And>x. cn_slaveof (f x) = cn_slaveof x"
      using h by (auto simp: clusterNodeAddFailureReport_def mstime_def Let_def bind_eq_Some_conv  split: option.splits)
    from masters_set_node [OF this] show ?thesis by (simp add: tick)
  qed
  show "masters t' = masters t \<and> c_slots t' = c_slots t" if h: "clusterNodeDelFailureReport n m t = Some (t', b)"
  proof -
    obtain x where x: "c_heap t n = Some x" using h by (auto simp: clusterNodeDelFailureReport_def bind_eq_Some_conv)
    show ?thesis
    proof (cases "fail_report_remove m (cn_fail_reports x)")
      case None
      then show ?thesis using h x by (simp add: clusterNodeDelFailureReport_def)
    next
      case (Some frs)
      obtain u where u: "set_node n (\<lambda>x. x\<lparr>cn_fail_reports := frs\<rparr>) t = Some u" "clusterNodeCleanupFailureReports n u = Some t'"
        using h x Some by (auto simp: clusterNodeDelFailureReport_def bind_eq_Some_conv)
      show ?thesis using masters_set_node [OF u(1)] c [OF u(2)] by simp
    qed
  qed
qed

lemma masters_delSlot:
  assumes "clusterDelSlot j t = Some (t', b)"
  shows "masters t' = masters t"
proof -
  have c: "masters (u\<lparr>c_slots := c\<rparr>) = masters u" for u c by (simp add: masters_def)
  show ?thesis using assms
    by (auto simp: clusterDelSlot_def clusterNodeClearSlotBit_def bind_eq_Some_conv c split: if_splits option.splits dest!: masters_set_node)
qed

lemma masters_heap: "c_heap t = c_heap s \<Longrightarrow> masters t = masters s"
  by (simp add: masters_def)

section \<open>Removal\<close>

lemma dictDelete_node_ok:
  assumes "links_ok s" "c_heap s n = Some x" "c_nodes s' = c_nodes s"
  shows "dictDelete_node (cn_name x) s' = Some (s'\<lparr>c_nodes := filter (\<lambda>e. fst e \<noteq> cn_name x) (c_nodes s)\<rparr>)"
proof -
  have "(cn_name x, n) \<in> set (c_nodes s)" unfolding links_okD(2) [OF assms(1)] using assms(2) by blast
  then have "map_of (c_nodes s) (cn_name x) \<noteq> None" using weak_map_of_SomeI by fastforce
  then show ?thesis by (simp add: dictDelete_node_def assms(3))
qed

lemma freeClusterNode_ok:
  assumes ok: "cluster_ok s" and d: "d \<in> dom (c_heap s)" and me: "d \<noteq> c_myself s"
    and free: "\<And>j. j < CLUSTER_SLOTS \<Longrightarrow> c_slots s j \<noteq> Some d \<and> c_importing_slots_from s j \<noteq> Some d \<and> c_migrating_slots_to s j \<noteq> Some d"
    and fr: "\<And>n y. n \<noteq> d \<Longrightarrow> c_heap s n = Some y \<Longrightarrow> d \<notin> fst ` set (cn_fail_reports y)"
  shows "\<exists>s'. freeClusterNode d s = Some s' \<and> cluster_ok s' \<and> dom (c_heap s') = dom (c_heap s) - {d} \<and>
    c_slots s' = c_slots s \<and> c_myself s' = c_myself s \<and> roles s' = (roles s)(d := None) \<and>
    (\<exists>x. c_heap s d = Some x \<and> c_nodes s' = filter (\<lambda>e. fst e \<noteq> cn_name x) (c_nodes s)) \<and>
    (\<forall>k. k \<noteq> d \<longrightarrow> masters s k \<noteq> Some (Some d) \<longrightarrow> masters s' k = masters s k)"
proof -
  have lk: "links_ok s" using ok by (simp add: cluster_ok_def)
  obtain x where x: "c_heap s d = Some x" using d by blast
  have slaves: "set (cn_slaves x) = {n. \<exists>y. c_heap s n = Some y \<and> cn_slaveof y = Some d}" using links_okD(5) [OF lk x] .
  define f where "f = (\<lambda>y :: clusterNode. y\<lparr>cn_slaveof := None\<rparr>)"
  define h1 where "h1 = (\<lambda>k. if k \<in> set (cn_slaves x) then map_option f (c_heap s k) else c_heap s k)"
  have loop: "foldM (\<lambda>sl. set_node sl (\<lambda>y. y\<lparr>cn_slaveof := None\<rparr>)) (cn_slaves x) s = Some (s\<lparr>c_heap := h1\<rparr>)"
    unfolding h1_def f_def by (rule foldM_set_node) (auto simp: slaves)
  define x1 where "x1 = (if d \<in> set (cn_slaves x) then f x else x)"
  have x1: "h1 d = Some x1" "cn_name x1 = cn_name x" "cn_link x1 = cn_link x" "nodeIsSlave x1 = nodeIsSlave x"
    using x by (simp_all add: h1_def x1_def f_def nodeIsSlave_def)
  have h1_node: "\<exists>y. h1 k = Some y \<and> cn_slaveof y = (if cn_slaveof y0 = Some d then None else cn_slaveof y0) \<and>
      cn_name y = cn_name y0 \<and> cn_fail_reports y = cn_fail_reports y0 \<and> slots_of y = slots_of y0 \<and>
      nodeIsSlave y = nodeIsSlave y0 \<and> node_role y = node_role y0 \<and> cn_slaves y = cn_slaves y0" if "c_heap s k = Some y0" for k y0
    using that by (auto simp: h1_def slaves f_def slots_of_def node_role_def flag_iff)
  have dom1: "dom h1 = dom (c_heap s)" by (auto simp: h1_def split: if_splits)
  have in_slaves: "k = m" if "h1 k = Some y1" "d \<in> set (cn_slaves y1)" "cn_slaveof x = Some m \<or> cn_slaveof x = None \<and> m = d" for k y1 m
  proof -
    have "k \<in> dom (c_heap s)" using that(1) dom1 by blast
    then obtain y0 where y0: "c_heap s k = Some y0" by blast
    then have "d \<in> set (cn_slaves y0)" using h1_node [OF y0] that(1,2) by auto
    then have "cn_slaveof x = Some k" using links_okD(5) [OF lk y0] x by auto
    with that(3) show ?thesis by auto
  qed
  obtain h2 where h2: "(case cn_slaveof x1 of
        Some m \<Rightarrow> if nodeIsSlave x1 then map_option fst (clusterNodeRemoveSlave m d (s\<lparr>c_heap := h1\<rparr>)) else Some (s\<lparr>c_heap := h1\<rparr>)
      | None \<Rightarrow> Some (s\<lparr>c_heap := h1\<rparr>)) = Some (s\<lparr>c_heap := h2\<rparr>)"
    "dom h2 = dom h1"
    "\<And>k y1 y. k \<noteq> d \<Longrightarrow> h1 k = Some y1 \<Longrightarrow> h2 k = Some y \<Longrightarrow> cn_slaves y = remove1 d (cn_slaves y1) \<and>
       cn_slaveof y = cn_slaveof y1 \<and> cn_name y = cn_name y1 \<and> cn_fail_reports y = cn_fail_reports y1 \<and>
       slots_of y = slots_of y1 \<and> nodeIsSlave y = nodeIsSlave y1 \<and> node_role y = node_role y1"
  proof (cases "cn_slaveof x1")
    case None
    have "remove1 d (cn_slaves y1) = cn_slaves y1" if "k \<noteq> d" "h1 k = Some y1" for k y1
    proof (rule remove1_idem, rule notI)
      assume "d \<in> set (cn_slaves y1)"
      then have "\<not> (cn_slaveof x = Some d \<or> cn_slaveof x = None)" using in_slaves [OF that(2), of d] that(1) by blast
      then have "x1 = x" using x by (auto simp: x1_def slaves)
      with None \<open>\<not> (cn_slaveof x = Some d \<or> cn_slaveof x = None)\<close> show False by simp
    qed
    with None show ?thesis by (intro that [of h1]) auto
  next
    case (Some m)
    have xx: "x1 = x" "m \<noteq> d" using Some x by (auto simp: x1_def slaves f_def split: if_splits)
    have xm: "cn_slaveof x = Some m" using Some xx by simp
    obtain y0 where y0: "c_heap s m = Some y0" "d \<in> set (cn_slaves y0)" using slave_in_slaves [OF lk x xm] .
    obtain y1 where y1: "h1 m = Some y1" "cn_slaves y1 = cn_slaves y0" using h1_node [OF y0(1)] by blast
    have y1': "c_heap (s\<lparr>c_heap := h1\<rparr>) m = Some y1" "d \<in> set (cn_slaves y1)" using y1 y0(2) by simp_all
    obtain fl where fl: "clusterNodeRemoveSlave m d (s\<lparr>c_heap := h1\<rparr>) =
        Some (s\<lparr>c_heap := h1(m \<mapsto> y1\<lparr>cn_slaves := remove1 d (cn_slaves y1), cn_flags := fl\<rparr>)\<rparr>, True)"
      "fl = cn_flags y1 \<or> fl = cn_flags y1 AND NOT CLUSTER_NODE_MIGRATE_TO"
      using clusterNodeRemoveSlave_eq [OF y1'] by auto
    have "nodeIsSlave x1" using links_okD(8) [OF lk x xm] xx by simp
    then have r: "(case cn_slaveof x1 of
        Some m \<Rightarrow> if nodeIsSlave x1 then map_option fst (clusterNodeRemoveSlave m d (s\<lparr>c_heap := h1\<rparr>)) else Some (s\<lparr>c_heap := h1\<rparr>)
      | None \<Rightarrow> Some (s\<lparr>c_heap := h1\<rparr>)) = Some (s\<lparr>c_heap := h1(m \<mapsto> y1\<lparr>cn_slaves := remove1 d (cn_slaves y1), cn_flags := fl\<rparr>)\<rparr>)"
      using Some fl(1) by simp
    have other: "remove1 d (cn_slaves z) = cn_slaves z" if "k \<noteq> m" "h1 k = Some z" for k z
      by (rule remove1_idem) (use in_slaves [OF that(2), of m] xm that(1) in blast)
    show ?thesis
    proof (rule that [OF r])
      show "dom (h1(m \<mapsto> y1\<lparr>cn_slaves := remove1 d (cn_slaves y1), cn_flags := fl\<rparr>)) = dom h1" using y1(1) by auto
      fix k z y
      assume k: "h1 k = Some z" "(h1(m \<mapsto> y1\<lparr>cn_slaves := remove1 d (cn_slaves y1), cn_flags := fl\<rparr>)) k = Some y"
      show "cn_slaves y = remove1 d (cn_slaves z) \<and> cn_slaveof y = cn_slaveof z \<and> cn_name y = cn_name z \<and>
        cn_fail_reports y = cn_fail_reports z \<and> slots_of y = slots_of z \<and> nodeIsSlave y = nodeIsSlave z \<and> node_role y = node_role z"
      proof (cases "k = m")
        case True
        then show ?thesis using k y1(1) fl(2) by (auto simp: slots_of_def node_role_def flag_iff bit_simps CLUSTER_NODE_MIGRATE_TO_def)
      next
        case False
        then show ?thesis using k other [OF False] by simp
      qed
    qed
  qed
  define s3 where "s3 = (case cn_link x of Some k \<Rightarrow> emit (Free_link k) (s\<lparr>c_heap := h2, c_nodes := filter (\<lambda>e. fst e \<noteq> cn_name x) (c_nodes s)\<rparr>)
      | None \<Rightarrow> s\<lparr>c_heap := h2, c_nodes := filter (\<lambda>e. fst e \<noteq> cn_name x) (c_nodes s)\<rparr>)"
  have s3: "c_heap s3 = h2" "c_nodes s3 = filter (\<lambda>e. fst e \<noteq> cn_name x) (c_nodes s)" "c_myself s3 = c_myself s" "c_slots s3 = c_slots s"
    "c_importing_slots_from s3 = c_importing_slots_from s" "c_migrating_slots_to s3 = c_migrating_slots_to s"
    by (simp_all add: s3_def emit_def split: option.splits)
  let ?s = "s3\<lparr>c_heap := h2(d := None)\<rparr>"
  have "freeClusterNode d s = Some ?s"
    using x loop x1 h2(1) dictDelete_node_ok [OF lk x, of "s\<lparr>c_heap := h2\<rparr>"] s3(1)
    by (simp add: freeClusterNode_def s3_def)
  moreover have dom: "dom (c_heap ?s) = dom (c_heap s) - {d}" using h2(2) dom1 by auto
  moreover have forget: "forget d y0 y" if k: "c_heap s k = Some y0" "c_heap ?s k = Some y" for k y0 y
  proof -
    have "k \<noteq> d" "h2 k = Some y" using k by (auto split: if_splits)
    with h1_node [OF k(1)] h2(3) [of k _ y] show ?thesis unfolding forget_def by fastforce
  qed
  moreover have "cluster_ok ?s"
    by (rule cluster_ok_forget [OF ok x me free fr dom forget]) (use s3 in simp_all)
  moreover have "roles ?s = (roles s)(d := None)"
  proof (rule ext)
    fix k
    show "roles ?s k = ((roles s)(d := None)) k"
    proof (cases "c_heap s k")
      case None
      then have "c_heap ?s k = None" using dom by blast
      then show ?thesis using None by (simp add: roles_def)
    next
      case (Some y0)
      then show ?thesis
      proof (cases "k = d")
        case False
        then obtain y where y: "c_heap ?s k = Some y" using dom Some by blast
        then show ?thesis using forget [OF Some y] Some False by (simp add: roles_def forget_def)
      qed (simp add: roles_def)
    qed
  qed
  moreover have "masters ?s k = masters s k" if kd: "k \<noteq> d" and km: "masters s k \<noteq> Some (Some d)" for k
  proof (cases "c_heap s k")
    case None
    then have "c_heap ?s k = None" using dom by blast
    then show ?thesis using None by (simp add: masters_def)
  next
    case (Some y0)
    then obtain y where y: "c_heap ?s k = Some y" using dom kd by blast
    then show ?thesis using forget [OF Some y] Some km by (simp add: masters_def forget_def)
  qed
  ultimately show ?thesis using s3 x by auto
qed

lemma clusterDelNode_ok:
  assumes ok: "cluster_ok s" and d: "d \<in> dom (c_heap s)" and me: "d \<noteq> c_myself s"
  shows "\<exists>s'. clusterDelNode d s = Some s' \<and> cluster_ok s' \<and> dom (c_heap s') = dom (c_heap s) - {d} \<and>
    c_myself s' = c_myself s \<and> me_role s' = me_role s \<and>
    (\<forall>j < CLUSTER_SLOTS. c_slots s' j = (if c_slots s j = Some d then None else c_slots s j)) \<and>
    roles s' = (roles s)(d := None) \<and> set (c_nodes s') \<subseteq> set (c_nodes s) \<and>
    (\<forall>k. k \<noteq> d \<longrightarrow> masters s k \<noteq> Some (Some d) \<longrightarrow> masters s' k = masters s k)"
proof -
  from del_node_slots [OF ok, of d] obtain s1 where s1: "foldM (\<lambda>j s. do {
       let s = (if c_importing_slots_from s j = Some d
                then s\<lparr>c_importing_slots_from := (c_importing_slots_from s)(j := None)\<rparr> else s);
       let s = (if c_migrating_slots_to s j = Some d
                then s\<lparr>c_migrating_slots_to := (c_migrating_slots_to s)(j := None)\<rparr> else s);
       if c_slots s j = Some d then map_option fst (clusterDelSlot j s) else Some s
     }) [0..<CLUSTER_SLOTS] s = Some s1" "cluster_ok s1" "dom (c_heap s1) = dom (c_heap s)" "c_myself s1 = c_myself s" "roles s1 = roles s" "c_nodes s1 = c_nodes s"
    and sl: "\<And>j. j < CLUSTER_SLOTS \<Longrightarrow> c_slots s1 j = (if c_slots s j = Some d then None else c_slots s j) \<and>
        c_importing_slots_from s1 j \<noteq> Some d \<and> c_migrating_slots_to s1 j \<noteq> Some d" by blast
  from del_node_reports [OF s1(2), of d] obtain s2 where
    s2: "foldM (\<lambda>e s. if snd e = d then Some s else map_option fst (clusterNodeDelFailureReport (snd e) d s)) (c_nodes s1) s1 = Some s2"
    "cluster_ok s2" "same_tables s1 s2" "dom (c_heap s2) = dom (c_heap s1)" "roles s2 = roles s1"
    and fr: "\<And>n y. n \<noteq> d \<Longrightarrow> c_heap s2 n = Some y \<Longrightarrow> d \<notin> fst ` set (cn_fail_reports y)" by blast
  have t: "c_slots s2 = c_slots s1" "c_myself s2 = c_myself s1" "c_importing_slots_from s2 = c_importing_slots_from s1"
    "c_migrating_slots_to s2 = c_migrating_slots_to s1" using s2(3) by (simp_all add: same_tables_def)
  have "\<exists>s3. freeClusterNode d s2 = Some s3 \<and> cluster_ok s3 \<and> dom (c_heap s3) = dom (c_heap s2) - {d} \<and>
      c_slots s3 = c_slots s2 \<and> c_myself s3 = c_myself s2 \<and> roles s3 = (roles s2)(d := None) \<and>
      (\<exists>x. c_heap s2 d = Some x \<and> c_nodes s3 = filter (\<lambda>e. fst e \<noteq> cn_name x) (c_nodes s2)) \<and>
      (\<forall>k. k \<noteq> d \<longrightarrow> masters s2 k \<noteq> Some (Some d) \<longrightarrow> masters s3 k = masters s2 k)"
    by (rule freeClusterNode_ok [OF s2(2) _ _ _ fr]) (use d s1 s2(4) me t sl in auto)
  then obtain s3 where s3: "freeClusterNode d s2 = Some s3" "cluster_ok s3" "dom (c_heap s3) = dom (c_heap s2) - {d}"
      "c_slots s3 = c_slots s2" "c_myself s3 = c_myself s2" "roles s3 = (roles s2)(d := None)" "set (c_nodes s3) \<subseteq> set (c_nodes s2)"
      "\<forall>k. k \<noteq> d \<longrightarrow> masters s2 k \<noteq> Some (Some d) \<longrightarrow> masters s3 k = masters s2 k"
    by fastforce
  have m1: "masters s1 = masters s"
  proof (rule foldM_inv [OF s1(1), where P = "\<lambda>t. masters t = masters s"])
    fix j t t' assume t: "masters t = masters s" and r: "(do {
       let s = (if c_importing_slots_from t j = Some d
                then t\<lparr>c_importing_slots_from := (c_importing_slots_from t)(j := None)\<rparr> else t);
       let s = (if c_migrating_slots_to s j = Some d
                then s\<lparr>c_migrating_slots_to := (c_migrating_slots_to s)(j := None)\<rparr> else s);
       if c_slots s j = Some d then map_option fst (clusterDelSlot j s) else Some s
     }) = Some t'"
    define u1 where "u1 = (if c_importing_slots_from t j = Some d
                then t\<lparr>c_importing_slots_from := (c_importing_slots_from t)(j := None)\<rparr> else t)"
    define u where "u = (if c_migrating_slots_to u1 j = Some d
                then u1\<lparr>c_migrating_slots_to := (c_migrating_slots_to u1)(j := None)\<rparr> else u1)"
    have "(if c_slots u j = Some d then map_option fst (clusterDelSlot j u) else Some u) = Some t'"
      using r unfolding Let_def u1_def [symmetric] u_def [symmetric] .
    moreover have "masters u = masters t" by (rule masters_heap) (simp add: u_def u1_def)
    ultimately show "masters t' = masters s" using t by (auto split: if_splits dest: masters_delSlot)
  qed simp
  have m2: "masters s2 = masters s1"
    by (rule foldM_inv [OF s2(1), where P = "\<lambda>t. masters t = masters s1"]) (auto split: if_splits dest: reports_masters(4))
  have "clusterDelNode d s = Some s3" using s1(1) s2(1) s3(1) by (simp add: clusterDelNode_def)
  moreover have "me_role s3 = me_role s" using s3(5,6) s2(5) s1(4,5) t(2) me by (simp add: me_role_eq)
  moreover have "set (c_nodes s3) \<subseteq> set (c_nodes s)" using s3(7) s1(6) s2(3) by (simp add: same_tables_def)
  moreover have "\<forall>k. k \<noteq> d \<longrightarrow> masters s k \<noteq> Some (Some d) \<longrightarrow> masters s3 k = masters s k" using s3(8) m1 m2 by simp
  ultimately show ?thesis using s1 s2 s3(2-6) t sl by auto
qed

section \<open>Renaming and adding nodes\<close>

lemma name_unique:
  assumes lk: "links_ok s" and x: "c_heap s n = Some x" and e: "e \<in> set (c_nodes s)"
  shows "fst e = cn_name x \<longleftrightarrow> snd e = n"
proof -
  have xe: "(cn_name x, n) \<in> set (c_nodes s)" and d: "distinct (map fst (c_nodes s))"
    using links_okD(1,2) [OF lk] x by blast+
  obtain y where y: "c_heap s (snd e) = Some y" "cn_name y = fst e"
    using e links_okD(2) [OF lk] named_nodes_iff [of e "c_heap s"] by blast
  have "snd e = n" if "fst e = cn_name x"
    using map_of_is_SomeI [OF d xe] map_of_is_SomeI [OF d, of "fst e" "snd e"] e that by (cases e) simp
  then show ?thesis using x y by auto
qed

lemma cluster_ok_rename:
  assumes ok: "cluster_ok s" and x: "c_heap s n = Some x"
    and h: "c_heap s' = (c_heap s)(n \<mapsto> x\<lparr>cn_name := new\<rparr>)"
    and c: "c_nodes s' = filter (\<lambda>e. fst e \<noteq> cn_name x) (c_nodes s) @ [(new, n)]" "c_myself s' = c_myself s" "c_slots s' = c_slots s"
      "c_importing_slots_from s' = c_importing_slots_from s" "c_migrating_slots_to s' = c_migrating_slots_to s"
    and fresh: "new \<notin> fst ` set (filter (\<lambda>e. fst e \<noteq> cn_name x) (c_nodes s))"
  shows "cluster_ok s'"
proof -
  have lk: "links_ok s" and sl: "slots_ok s" using ok by (simp_all add: cluster_ok_def)
  have "same_slots s s'" using h c x by (auto simp: same_slots_def slots_of_def)
  then have s': "slots_ok s'" by (rule same_slots_ok [OF sl])
  have names: "set (c_nodes s') = {(cn_name x, n) | n x. c_heap s' n = Some x}"
  proof (rule set_eqI, unfold named_nodes_iff)
    fix e
    have "e \<in> set (c_nodes s) \<longleftrightarrow> (\<exists>y. c_heap s (snd e) = Some y \<and> cn_name y = fst e)"
      using links_okD(2) [OF lk] named_nodes_iff [of e "c_heap s"] by blast
    moreover have "fst e = cn_name x \<longleftrightarrow> snd e = n" if "e \<in> set (c_nodes s)" using name_unique [OF lk x that] .
    ultimately show "e \<in> set (c_nodes s') \<longleftrightarrow> (\<exists>y. c_heap s' (snd e) = Some y \<and> cn_name y = fst e)"
      using x by (cases e) (auto simp: c h)
  qed
  have dist: "distinct (map fst (c_nodes s'))"
    using links_okD(1) [OF lk] fresh by (simp add: c(1) distinct_map_filter)
  have d: "dom (c_heap s') = dom (c_heap s)" using h x by auto
  have same: "\<exists>y0. c_heap s k = Some y0 \<and> y = (if k = n then y0\<lparr>cn_name := new\<rparr> else y0)" if "c_heap s' k = Some y" for k y
    using that h x by (auto split: if_splits)
  have so: "(\<exists>y. c_heap s' k = Some y \<and> cn_slaveof y = p) \<longleftrightarrow> (\<exists>y. c_heap s k = Some y \<and> cn_slaveof y = p)" for k p
    using h x by auto
  have nodes: "distinct (cn_slaves y) \<and>
        set (cn_slaves y) = {n. \<exists>y. c_heap s' n = Some y \<and> cn_slaveof y = Some m} \<and>
        distinct (map fst (cn_fail_reports y)) \<and> fst ` set (cn_fail_reports y) \<subseteq> dom (c_heap s') \<and>
        (\<forall>p. cn_slaveof y = Some p \<longrightarrow> p \<in> dom (c_heap s') \<and> nodeIsSlave y)" if y: "c_heap s' m = Some y" for m y
  proof -
    obtain y0 where y0: "c_heap s m = Some y0" and e: "y = (if m = n then y0\<lparr>cn_name := new\<rparr> else y0)" using same [OF y] by blast
    have "cn_slaves y = cn_slaves y0" "cn_fail_reports y = cn_fail_reports y0" "cn_slaveof y = cn_slaveof y0" "nodeIsSlave y = nodeIsSlave y0"
      by (simp_all add: e nodeIsSlave_def)
    then show ?thesis using links_okD(4-8) [OF lk y0] so d by simp
  qed
  have "\<forall>j < CLUSTER_SLOTS. \<forall>n. c_importing_slots_from s' j = Some n \<or> c_migrating_slots_to s' j = Some n \<longrightarrow> n \<in> dom (c_heap s')"
    using links_okD(9) [OF lk] by (simp add: c d)
  moreover have "c_myself s' \<in> dom (c_heap s')" using links_okD(3) [OF lk] c(2) d by simp
  ultimately have "links_ok s'" unfolding links_ok_def using names dist nodes by blast
  then show ?thesis using s' by (simp add: cluster_ok_def)
qed

lemma clusterRenameNode_ok:
  assumes ok: "cluster_ok s" and x: "c_heap s n = Some x" and fresh: "clusterLookupNode new s = None"
  shows "\<exists>s'. clusterRenameNode n new s = Some s' \<and> cluster_ok s' \<and> dom (c_heap s') = dom (c_heap s) \<and> c_myself s' = c_myself s \<and>
    c_slots s' = c_slots s \<and> me_role s' = me_role s \<and> clusterLookupNode new s' = Some n \<and> roles s' = roles s \<and>
    fst ` set (c_nodes s') \<subseteq> insert new (fst ` set (c_nodes s))"
proof -
  let ?ns = "filter (\<lambda>e. fst e \<noteq> cn_name x) (c_nodes s)"
  let ?s = "s\<lparr>c_nodes := ?ns, c_heap := (c_heap s)(n \<mapsto> x\<lparr>cn_name := new\<rparr>)\<rparr>"
  let ?t = "?s\<lparr>c_nodes := ?ns @ [(new, n)]\<rparr>"
  have lk: "links_ok s" using ok by (simp add: cluster_ok_def)
  have nf: "new \<notin> fst ` set ?ns" using fresh by (auto simp: clusterLookupNode_def map_of_eq_None_iff)
  have m: "map_of ?ns new = None" using nf by (simp add: map_of_eq_None_iff)
  have "clusterRenameNode n new s = Some ?t"
    using dictDelete_node_ok [OF lk x, of s] x m by (simp add: clusterRenameNode_def set_node_def clusterAddNode_def)
  moreover have "cluster_ok ?t" by (rule cluster_ok_rename [OF ok x, where new = new]) (use nf in simp_all)
  moreover have "clusterLookupNode new ?t = Some n" using m by (simp add: clusterLookupNode_def map_add_def)
  moreover have "roles ?t = roles s" by (rule roles_upd [OF x, where x' = "x\<lparr>cn_name := new\<rparr>"]) (simp_all add: node_role_def flag_iff)
  ultimately show ?thesis using x by (auto simp: me_role_def nodeIsMaster_def nodeIsSlave_def)
qed

end
