(* ===== verification/Cluster_Failover.thy ===== *)
theory Cluster_Failover
  imports Cluster_State
begin

text \<open>
  The functions of \<open>cluster.c\<close> that decide: configuration epochs, failure detection, votes, the election and
  promotion of a slave, the migration of slaves to masters without one, the rebinding of slots, and the state
  of the cluster as a whole.
\<close>

unbundle bit_operations_syntax

section \<open>Configuration epochs\<close>

definition clusterGetMaxEpoch :: "clusterState \<Rightarrow> u64 option" where
  "clusterGetMaxEpoch s = do {
     nodes \<leftarrow> those (map (\<lambda>e. c_heap s (snd e)) (c_nodes s));
     let mx = fold (\<lambda>x mx. if cn_configEpoch x > mx then cn_configEpoch x else mx) nodes 0;
     Some (if mx < c_currentEpoch s then c_currentEpoch s else mx)
   }"

definition clusterBumpConfigEpochWithoutConsensus :: "clusterState \<Rightarrow> (clusterState \<times> bool) option" where
  "clusterBumpConfigEpochWithoutConsensus s = do {
     maxEpoch \<leftarrow> clusterGetMaxEpoch s;
     me \<leftarrow> c_heap s (c_myself s);
     if cn_configEpoch me = 0 \<or> cn_configEpoch me \<noteq> maxEpoch then do {
       s \<leftarrow> Some (s\<lparr>c_currentEpoch := c_currentEpoch s + 1\<rparr>);
       s \<leftarrow> set_node (c_myself s) (\<lambda>x. x\<lparr>cn_configEpoch := c_currentEpoch s\<rparr>) s;
       Some (clusterDoBeforeSleep (CLUSTER_TODO_SAVE_CONFIG OR CLUSTER_TODO_FSYNC_CONFIG) s, True)
     } else Some (s, False)
   }"

fun memcmp_less :: "byte list \<Rightarrow> byte list \<Rightarrow> bool" where
  "memcmp_less (a # as) (b # bs) \<longleftrightarrow> a < b \<or> a = b \<and> memcmp_less as bs"
| "memcmp_less _ _ \<longleftrightarrow> False"

definition clusterHandleConfigEpochCollision :: "nid \<Rightarrow> clusterState \<Rightarrow> clusterState option" where
  "clusterHandleConfigEpochCollision sender s = do {
     sn \<leftarrow> c_heap s sender;
     me \<leftarrow> c_heap s (c_myself s);
     if cn_configEpoch sn \<noteq> cn_configEpoch me \<or> \<not> nodeIsMaster sn \<or> \<not> nodeIsMaster me then Some s
     else if \<not> memcmp_less (cn_name me) (cn_name sn) then Some s
     else do {
       s \<leftarrow> Some (s\<lparr>c_currentEpoch := c_currentEpoch s + 1\<rparr>);
       s \<leftarrow> set_node (c_myself s) (\<lambda>x. x\<lparr>cn_configEpoch := c_currentEpoch s\<rparr>) s;
       Some (emit Save_config s)
     }
   }"

section \<open>Black list\<close>

definition clusterBlacklistCleanup :: "cluster_env \<Rightarrow> clusterState \<Rightarrow> clusterState" where
  "clusterBlacklistCleanup env s =
     s\<lparr>c_nodes_black_list := filter (\<lambda>e. \<not> snd e < e_unixtime env) (c_nodes_black_list s)\<rparr>"

definition clusterBlacklistAddNode :: "cluster_env \<Rightarrow> nid \<Rightarrow> clusterState \<Rightarrow> clusterState option" where
  "clusterBlacklistAddNode env node s = do {
     x \<leftarrow> c_heap s node;
     let s = clusterBlacklistCleanup env s;
     Some (s\<lparr>c_nodes_black_list :=
       (cn_name x, e_time env + 60) # filter (\<lambda>e. fst e \<noteq> cn_name x) (c_nodes_black_list s)\<rparr>)
   }"

definition clusterBlacklistExists :: "cluster_env \<Rightarrow> byte list \<Rightarrow> clusterState \<Rightarrow> clusterState \<times> bool" where
  "clusterBlacklistExists env nodeid s =
     (let s = clusterBlacklistCleanup env s in (s, map_of (c_nodes_black_list s) nodeid \<noteq> None))"

section \<open>Failure detection\<close>

definition markNodeAsFailingIfNeeded :: "nid \<Rightarrow> clusterState \<Rightarrow> clusterState option" where
  "markNodeAsFailingIfNeeded node s = do {
     let needed_quorum = c_size s div 2 + 1;
     x \<leftarrow> c_heap s node;
     if \<not> nodeTimedOut x then Some s
     else if nodeFailed x then Some s
     else do {
       (s, failures) \<leftarrow> clusterNodeFailureReportsCount node s;
       me \<leftarrow> c_heap s (c_myself s);
       let failures = (if nodeIsMaster me then failures + 1 else failures);
       if failures < needed_quorum then Some s
       else do {
         s \<leftarrow> set_node node (\<lambda>x. x\<lparr>cn_flags := cn_flags x AND NOT CLUSTER_NODE_PFAIL\<rparr>) s;
         s \<leftarrow> set_node node (\<lambda>x. x\<lparr>cn_flags := cn_flags x OR CLUSTER_NODE_FAIL\<rparr>) s;
         let (now, s) = mstime s;
         s \<leftarrow> set_node node (\<lambda>x. x\<lparr>cn_fail_time := now\<rparr>) s;
         me \<leftarrow> c_heap s (c_myself s);
         x \<leftarrow> c_heap s node;
         let s = (if nodeIsMaster me then emit (Send_fail (cn_name x)) s else s);
         Some (clusterDoBeforeSleep (CLUSTER_TODO_UPDATE_STATE OR CLUSTER_TODO_SAVE_CONFIG) s)
       }
     }
   }"

definition clearNodeFailureIfNeeded :: "nid \<Rightarrow> clusterState \<Rightarrow> clusterState option" where
  "clearNodeFailureIfNeeded node s = do {
     let (now, s) = mstime s;
     x \<leftarrow> c_heap s node;
     if \<not> nodeFailed x then None
     else do {
       s \<leftarrow> (if nodeIsSlave x \<or> cn_numslots x = 0
         then map_option (clusterDoBeforeSleep (CLUSTER_TODO_UPDATE_STATE OR CLUSTER_TODO_SAVE_CONFIG))
           (set_node node (\<lambda>x. x\<lparr>cn_flags := cn_flags x AND NOT CLUSTER_NODE_FAIL\<rparr>) s)
         else Some s);
       x \<leftarrow> c_heap s node;
       if nodeIsMaster x \<and> cn_numslots x > 0 \<and> now - cn_fail_time x > c_node_timeout s * 2
       then map_option (clusterDoBeforeSleep (CLUSTER_TODO_UPDATE_STATE OR CLUSTER_TODO_SAVE_CONFIG))
         (set_node node (\<lambda>x. x\<lparr>cn_flags := cn_flags x AND NOT CLUSTER_NODE_FAIL\<rparr>) s)
       else Some s
     }
   }"

section \<open>State of the cluster\<close>

primrec slots_covered :: "nat list \<Rightarrow> clusterState \<Rightarrow> bool option" where
  "slots_covered [] s = Some True"
| "slots_covered (j # js) s = (case c_slots s j of
     None \<Rightarrow> Some False
   | Some n \<Rightarrow> do { x \<leftarrow> c_heap s n; if nodeFailed x then Some False else slots_covered js s })"

definition clusterUpdateState :: "cluster_env \<Rightarrow> clusterState \<Rightarrow> clusterState option" where
  "clusterUpdateState env s = do {
     s \<leftarrow> Some (s\<lparr>c_todo_before_sleep := c_todo_before_sleep s AND NOT CLUSTER_TODO_UPDATE_STATE\<rparr>);
     let s = (if c_first_call_time s = 0 then (let (now, s) = mstime s in s\<lparr>c_first_call_time := now\<rparr>) else s);
     me \<leftarrow> c_heap s (c_myself s);
     let (wait, s) = (if nodeIsMaster me \<and> c_state s = CLUSTER_FAIL
        then (let (now, s) = mstime s in (now - c_first_call_time s < 2000, s)) else (False, s));
     if wait then Some s
     else do {
       covered \<leftarrow> (if e_require_full_coverage env then slots_covered [0..<CLUSTER_SLOTS] s else Some True);
       let new_state = (if covered then CLUSTER_OK else CLUSTER_FAIL);
       nodes \<leftarrow> those (map (\<lambda>e. c_heap s (snd e)) (c_nodes s));
       let masters = filter (\<lambda>x. nodeIsMaster x \<and> cn_numslots x \<noteq> 0) nodes;
       s \<leftarrow> Some (s\<lparr>c_size := int (length masters)\<rparr>);
       let reachable_masters =
         int (length (filter (\<lambda>x. cn_flags x AND (CLUSTER_NODE_FAIL OR CLUSTER_NODE_PFAIL) = 0) masters));
       let needed_quorum = c_size s div 2 + 1;
       let (new_state, s) = (if reachable_masters < needed_quorum
          then (let (now, s) = mstime s in (CLUSTER_FAIL, s\<lparr>c_among_minority_time := now\<rparr>)) else (new_state, s));
       if new_state \<noteq> c_state s then do {
         let rejoin_delay = max 500 (min 5000 (c_node_timeout s));
         me \<leftarrow> c_heap s (c_myself s);
         let (wait, s) = (if new_state = CLUSTER_OK \<and> nodeIsMaster me
            then (let (now, s) = mstime s in (now - c_among_minority_time s < rejoin_delay, s)) else (False, s));
         if wait then Some s else Some (s\<lparr>c_state := new_state\<rparr>)
       } else Some s
     }
   }"

section \<open>Votes\<close>

record auth_request =
  rq_currentEpoch :: u64
  rq_configEpoch :: u64
  rq_myslots :: "byte list"
  rq_force_ack :: bool

text \<open>Is no claimed slot served with a greater epoch than the request's?\<close>

primrec claimed_slots_ok :: "nat list \<Rightarrow> auth_request \<Rightarrow> clusterState \<Rightarrow> bool option" where
  "claimed_slots_ok [] rq s = Some True"
| "claimed_slots_ok (j # js) rq s = do {
     b \<leftarrow> bitmapTestBit (rq_myslots rq) j;
     if \<not> b then claimed_slots_ok js rq s
     else case c_slots s j of
       None \<Rightarrow> claimed_slots_ok js rq s
     | Some n \<Rightarrow> do {
         x \<leftarrow> c_heap s n;
         if cn_configEpoch x \<le> rq_configEpoch rq then claimed_slots_ok js rq s else Some False
       }
   }"

definition clusterSendFailoverAuth :: "nid \<Rightarrow> clusterState \<Rightarrow> clusterState option" where
  "clusterSendFailoverAuth node s = do {
     x \<leftarrow> c_heap s node;
     Some (if cn_link x = None then s else emit (Send_failover_auth node (c_currentEpoch s)) s)
   }"

definition clusterSendFailoverAuthIfNeeded :: "nid \<Rightarrow> auth_request \<Rightarrow> clusterState \<Rightarrow> clusterState option" where
  "clusterSendFailoverAuthIfNeeded node rq s = do {
     x \<leftarrow> c_heap s node;
     me \<leftarrow> c_heap s (c_myself s);
     if nodeIsSlave me \<or> cn_numslots me = 0 then Some s
     else if rq_currentEpoch rq < c_currentEpoch s then Some s
     else if c_lastVoteEpoch s = c_currentEpoch s then Some s
     else if nodeIsMaster x then Some s
     else case cn_slaveof x of
       None \<Rightarrow> Some s
     | Some master \<Rightarrow> do {
         m \<leftarrow> c_heap s master;
         if \<not> nodeFailed m \<and> \<not> rq_force_ack rq then Some s
         else do {
           let (now, s) = mstime s;
           if now - cn_voted_time m < c_node_timeout s * 2 then Some s
           else do {
             ok \<leftarrow> claimed_slots_ok [0..<CLUSTER_SLOTS] rq s;
             if \<not> ok then Some s
             else do {
               s \<leftarrow> clusterSendFailoverAuth node s;
               s \<leftarrow> Some (s\<lparr>c_lastVoteEpoch := c_currentEpoch s\<rparr>);
               let (now, s) = mstime s;
               set_node master (\<lambda>m. m\<lparr>cn_voted_time := now\<rparr>) s
             }
           }
         }
       }
   }"

section \<open>Election and promotion\<close>

definition clusterGetSlaveRank :: "cluster_env \<Rightarrow> clusterState \<Rightarrow> int option" where
  "clusterGetSlaveRank env s = do {
     me \<leftarrow> c_heap s (c_myself s);
     if \<not> nodeIsSlave me then None
     else case cn_slaveof me of
       None \<Rightarrow> Some 0
     | Some master \<Rightarrow> do {
         m \<leftarrow> c_heap s master;
         offsets \<leftarrow> those (map (\<lambda>sl. map_option cn_repl_offset (c_heap s sl)) (filter (\<lambda>sl. sl \<noteq> c_myself s) (cn_slaves m)));
         Some (int (length (filter (\<lambda>off. off > e_slave_offset env) offsets)))
       }
   }"

definition clusterLogCantFailover :: "cluster_env \<Rightarrow> nat \<Rightarrow> clusterState \<Rightarrow> clusterState option" where
  "clusterLogCantFailover env reason s =
     (let nolog_fail_time = c_node_timeout s + 5000 in
      if reason = c_cant_failover_reason s \<and> e_time env - c_lastlog_time s < 60 * 5 then Some s
      else do {
        s \<leftarrow> Some (s\<lparr>c_cant_failover_reason := reason\<rparr>);
        me \<leftarrow> c_heap s (c_myself s);
        (quiet, s) \<leftarrow> (case cn_slaveof me of
           None \<Rightarrow> Some (False, s)
         | Some master \<Rightarrow> do {
             m \<leftarrow> c_heap s master;
             if nodeFailed m then (let (now, s) = mstime s in Some (now - cn_fail_time m < nolog_fail_time, s))
             else Some (False, s)
           });
        if quiet then Some s else Some (s\<lparr>c_lastlog_time := e_time env\<rparr>)
      })"

definition clusterFailoverReplaceYourMaster :: "cluster_env \<Rightarrow> clusterState \<Rightarrow> clusterState option" where
  "clusterFailoverReplaceYourMaster env s = do {
     me \<leftarrow> c_heap s (c_myself s);
     case cn_slaveof me of
       None \<Rightarrow> Some s
     | Some oldmaster \<Rightarrow>
         if nodeIsMaster me then Some s
         else do {
           s \<leftarrow> clusterSetNodeAsMaster (c_myself s) s;
           let s = emit Replication_unset_master s;
           s \<leftarrow> foldM (\<lambda>j s. do {
              b \<leftarrow> clusterNodeGetSlotBit oldmaster j s;
              if b then do {
                (s, _) \<leftarrow> clusterDelSlot j s;
                (s, _) \<leftarrow> clusterAddSlot (c_myself s) j s;
                Some s
              } else Some s
            }) [0..<CLUSTER_SLOTS] s;
           s \<leftarrow> clusterUpdateState env s;
           let s = emit Save_config s;
           let s = emit (Broadcast_pong True) s;
           Some (resetManualFailover (e_paused env) s)
         }
   }"

text \<open>The preconditions of a failover: this node is a slave, and its master serves slots and has failed, unless the failover is manual.\<close>

definition failover_possible :: "bool \<Rightarrow> clusterState \<Rightarrow> bool option" where
  "failover_possible manual_failover s = do {
     me \<leftarrow> c_heap s (c_myself s);
     if nodeIsMaster me then Some False
     else case cn_slaveof me of
       None \<Rightarrow> Some False
     | Some master \<Rightarrow> do {
         m \<leftarrow> c_heap s master;
         Some (\<not> (\<not> nodeFailed m \<and> \<not> manual_failover) \<and> cn_numslots m \<noteq> 0)
       }
   }"

definition failover_data_too_old :: "cluster_env \<Rightarrow> bool \<Rightarrow> clusterState \<Rightarrow> bool" where
  "failover_data_too_old env manual_failover s \<longleftrightarrow>
     (let data_age = (if e_repl_connected env then (e_unixtime env - e_master_lastinteraction env) * 1000
                      else (e_unixtime env - e_repl_down_since env) * 1000);
          data_age = (if data_age > c_node_timeout s then data_age - c_node_timeout s else data_age)
      in e_slave_validity_factor env \<noteq> 0 \<and>
         data_age > e_repl_ping_slave_period env * 1000 + c_node_timeout s * e_slave_validity_factor env \<and>
         \<not> manual_failover)"

text \<open>A new election is scheduled.\<close>

definition failover_schedule :: "cluster_env \<Rightarrow> clusterState \<Rightarrow> clusterState option" where
  "failover_schedule env s = do {
     let (now, s) = mstime s;
     s \<leftarrow> Some (s\<lparr>c_failover_auth_time := now + 500 + int (e_random env mod 500)\<rparr>);
     s \<leftarrow> Some (s\<lparr>c_failover_auth_count := 0, c_failover_auth_sent := False\<rparr>);
     rank \<leftarrow> clusterGetSlaveRank env s;
     s \<leftarrow> Some (s\<lparr>c_failover_auth_rank := rank\<rparr>);
     s \<leftarrow> Some (s\<lparr>c_failover_auth_time := c_failover_auth_time s + rank * 1000\<rparr>);
     let s = (if c_mf_end s \<noteq> 0
       then (let (now, s) = mstime s in s\<lparr>c_failover_auth_time := now, c_failover_auth_rank := 0\<rparr>) else s);
     Some (emit (Broadcast_pong False) s)
   }"

definition failover_update_rank :: "cluster_env \<Rightarrow> clusterState \<Rightarrow> clusterState option" where
  "failover_update_rank env s =
     (if \<not> c_failover_auth_sent s \<and> c_mf_end s = 0 then do {
        newrank \<leftarrow> clusterGetSlaveRank env s;
        Some (if newrank > c_failover_auth_rank s
          then s\<lparr>c_failover_auth_time := c_failover_auth_time s + (newrank - c_failover_auth_rank s) * 1000,
                 c_failover_auth_rank := newrank\<rparr> else s)
      } else Some s)"

definition failover_ask_votes :: "clusterState \<Rightarrow> clusterState" where
  "failover_ask_votes s =
     (let s = s\<lparr>c_currentEpoch := c_currentEpoch s + 1\<rparr>;
          s = s\<lparr>c_failover_auth_epoch := c_currentEpoch s\<rparr>;
          s = emit (Request_failover_auth (c_currentEpoch s) (c_mf_end s \<noteq> 0)) s;
          s = s\<lparr>c_failover_auth_sent := True\<rparr>
      in clusterDoBeforeSleep (CLUSTER_TODO_SAVE_CONFIG OR CLUSTER_TODO_UPDATE_STATE OR CLUSTER_TODO_FSYNC_CONFIG) s)"

text \<open>With the votes of a majority, this node takes over.\<close>

definition failover_promote :: "cluster_env \<Rightarrow> clusterState \<Rightarrow> clusterState option" where
  "failover_promote env s = do {
     me \<leftarrow> c_heap s (c_myself s);
     s \<leftarrow> (if cn_configEpoch me < c_failover_auth_epoch s
       then set_node (c_myself s) (\<lambda>x. x\<lparr>cn_configEpoch := c_failover_auth_epoch s\<rparr>) s else Some s);
     clusterFailoverReplaceYourMaster env s
   }"

definition clusterHandleSlaveFailover :: "cluster_env \<Rightarrow> clusterState \<Rightarrow> clusterState option" where
  "clusterHandleSlaveFailover env s = do {
     let (now, s) = mstime s;
     let auth_age = now - c_failover_auth_time s;
     let needed_quorum = c_size s div 2 + 1;
     let manual_failover = (c_mf_end s \<noteq> 0 \<and> c_mf_can_start s);
     s \<leftarrow> Some (s\<lparr>c_todo_before_sleep := c_todo_before_sleep s AND NOT CLUSTER_TODO_HANDLE_FAILOVER\<rparr>);
     let auth_timeout = (if c_node_timeout s * 2 < 2000 then 2000 else c_node_timeout s * 2);
     let auth_retry_time = auth_timeout * 2;
     possible \<leftarrow> failover_possible manual_failover s;
     if \<not> possible then Some (s\<lparr>c_cant_failover_reason := 0\<rparr>)
     else if failover_data_too_old env manual_failover s then clusterLogCantFailover env 1 s
     else if auth_age > auth_retry_time then failover_schedule env s
     else do {
       s \<leftarrow> failover_update_rank env s;
       let (now, s) = mstime s;
       if now < c_failover_auth_time s then clusterLogCantFailover env 2 s
       else if auth_age > auth_timeout then clusterLogCantFailover env 3 s
       else if \<not> c_failover_auth_sent s then Some (failover_ask_votes s)
       else if c_failover_auth_count s \<ge> needed_quorum then failover_promote env s
       else clusterLogCantFailover env 4 s
     }
   }"

definition manualFailoverCheckTimeout :: "cluster_env \<Rightarrow> clusterState \<Rightarrow> clusterState" where
  "manualFailoverCheckTimeout env s =
     (if c_mf_end s \<noteq> 0 then
        (let (now, s) = mstime s in if c_mf_end s < now then resetManualFailover (e_paused env) s else s)
      else s)"

definition clusterHandleManualFailover :: "cluster_env \<Rightarrow> clusterState \<Rightarrow> clusterState" where
  "clusterHandleManualFailover env s =
     (if c_mf_end s = 0 then s
      else if c_mf_can_start s then s
      else if c_mf_master_offset s = 0 then s
      else if c_mf_master_offset s = e_slave_offset env then s\<lparr>c_mf_can_start := True\<rparr>
      else s)"

section \<open>Migration of slaves\<close>

text \<open>One round of the loop over the nodes, on the state, the target and the candidate.\<close>

definition migration_round ::
    "int \<Rightarrow> nid \<Rightarrow> clusterState \<times> nid option \<times> nid \<Rightarrow> (clusterState \<times> nid option \<times> nid) option" where
  "migration_round max_slaves node st = (case st of (s, target, candidate) \<Rightarrow> do {
     x \<leftarrow> c_heap s node;
     okslaves \<leftarrow> (if nodeIsMaster x then clusterCountNonFailingSlaves node s else Some 0);
     let is_orphaned = (\<not> (nodeIsSlave x \<or> nodeFailed x) \<and> cn_flags x AND CLUSTER_NODE_MIGRATE_TO \<noteq> 0 \<and> \<not> okslaves > 0);
     (s, target) \<leftarrow> (if is_orphaned then do {
         let target = (if target = None \<and> cn_numslots x > 0 then Some node else target);
         s \<leftarrow> (if cn_orphaned_time x = 0
           then (let (now, s) = mstime s in set_node node (\<lambda>x. x\<lparr>cn_orphaned_time := now\<rparr>) s) else Some s);
         Some (s, target)
       } else do {
         s \<leftarrow> set_node node (\<lambda>x. x\<lparr>cn_orphaned_time := 0\<rparr>) s;
         Some (s, target)
       });
     candidate \<leftarrow> (if okslaves = max_slaves
       then foldM (\<lambda>sl candidate. do {
           y \<leftarrow> c_heap s sl;
           c \<leftarrow> c_heap s candidate;
           Some (if memcmp_less (cn_name y) (cn_name c) then sl else candidate)
         }) (cn_slaves x) candidate
       else Some candidate);
     Some (s, target, candidate)
   })"

definition clusterHandleSlaveMigration :: "cluster_env \<Rightarrow> int \<Rightarrow> clusterState \<Rightarrow> clusterState option" where
  "clusterHandleSlaveMigration env max_slaves s = do {
     me \<leftarrow> c_heap s (c_myself s);
     if c_state s \<noteq> CLUSTER_OK then Some s
     else case cn_slaveof me of
       None \<Rightarrow> Some s
     | Some mymaster \<Rightarrow> do {
         m \<leftarrow> c_heap s mymaster;
         slaves \<leftarrow> those (map (c_heap s) (cn_slaves m));
         if int (length (filter (\<lambda>y. \<not> nodeFailed y \<and> \<not> nodeTimedOut y) slaves)) \<le> e_migration_barrier env then Some s
         else do {
           (s, target, candidate) \<leftarrow> foldM (\<lambda>e. migration_round max_slaves (snd e)) (c_nodes s) (s, None, c_myself s);
           case target of
             None \<Rightarrow> Some s
           | Some t \<Rightarrow>
               if candidate \<noteq> c_myself s then Some s
               else do {
                 x \<leftarrow> c_heap s t;
                 let (now, s) = mstime s;
                 if now - cn_orphaned_time x > 5000 then clusterSetMaster (e_paused env) t s else Some s
               }
         }
       }
   }"

section \<open>Rebinding of slots\<close>

text \<open>One round of the loop over the slots, on the state, the new master and the list of dirty slots.\<close>

definition rebind_slot ::
    "cluster_env \<Rightarrow> nid \<Rightarrow> u64 \<Rightarrow> byte list \<Rightarrow> nid option \<Rightarrow> nat \<Rightarrow> clusterState \<times> bool \<times> nat list \<Rightarrow>
     (clusterState \<times> bool \<times> nat list) option" where
  "rebind_slot env sender senderConfigEpoch slots curmaster j st = (case st of (s, newmaster, dirty) \<Rightarrow> do {
     b \<leftarrow> bitmapTestBit slots j;
     if \<not> b then Some st
     else if c_slots s j = Some sender then Some st
     else if c_importing_slots_from s j \<noteq> None then Some st
     else do {
       older \<leftarrow> (case c_slots s j of
          None \<Rightarrow> Some True
        | Some n \<Rightarrow> do { x \<leftarrow> c_heap s n; Some (cn_configEpoch x < senderConfigEpoch) });
       if \<not> older then Some st
       else do {
         let dirty = (if c_slots s j = Some (c_myself s) \<and> e_keys_in_slot env j \<noteq> 0 \<and> sender \<noteq> c_myself s
                      then dirty @ [j] else dirty);
         let newmaster = (if c_slots s j = curmaster then True else newmaster);
         (s, _) \<leftarrow> clusterDelSlot j s;
         (s, _) \<leftarrow> clusterAddSlot sender j s;
         Some (clusterDoBeforeSleep
           (CLUSTER_TODO_SAVE_CONFIG OR CLUSTER_TODO_UPDATE_STATE OR CLUSTER_TODO_FSYNC_CONFIG) s, newmaster, dirty)
       }
     }
   })"

definition clusterUpdateSlotsConfigWith ::
    "cluster_env \<Rightarrow> nid \<Rightarrow> u64 \<Rightarrow> byte list \<Rightarrow> clusterState \<Rightarrow> clusterState option" where
  "clusterUpdateSlotsConfigWith env sender senderConfigEpoch slots s = do {
     me \<leftarrow> c_heap s (c_myself s);
     let curmaster = (if nodeIsMaster me then Some (c_myself s) else cn_slaveof me);
     if sender = c_myself s then Some s
     else do {
       (s, newmaster, dirty) \<leftarrow>
         foldM (rebind_slot env sender senderConfigEpoch slots curmaster) [0..<CLUSTER_SLOTS] (s, False, []);
       demoted \<leftarrow> (if newmaster then do { n \<leftarrow> curmaster; x \<leftarrow> c_heap s n; Some (cn_numslots x = 0) } else Some False);
       if demoted then do {
         s \<leftarrow> clusterSetMaster (e_paused env) sender s;
         Some (clusterDoBeforeSleep
           (CLUSTER_TODO_SAVE_CONFIG OR CLUSTER_TODO_UPDATE_STATE OR CLUSTER_TODO_FSYNC_CONFIG) s)
       } else Some (fold (\<lambda>j. emit (Del_keys_in_slot j)) dirty s)
     }
   }"

end
