(* ===== verification/Cluster_Keep.thy ===== *)
theory Cluster_Keep
  imports Cluster_Nodes Cluster_Failover
begin

text \<open>
  The functions of \<open>Cluster_Failover\<close> do not fail in a state that satisfies the invariant and keep it. \<open>keeps\<close>
  says so, together with what they leave alone: the table of nodes and the roles of the nodes.
\<close>

unbundle bit_operations_syntax

definition keeps :: "clusterState \<Rightarrow> clusterState \<Rightarrow> bool" where
  "keeps s s' \<longleftrightarrow> cluster_ok s' \<and> roles s' = roles s \<and> c_myself s' = c_myself s \<and> c_nodes s' = c_nodes s"

lemma keeps_refl: "cluster_ok s \<Longrightarrow> keeps s s"
  by (simp add: keeps_def)

lemma keeps_trans: "keeps s t \<Longrightarrow> keeps t u \<Longrightarrow> keeps s u"
  by (simp add: keeps_def)

lemma keepsD:
  assumes "keeps s s'"
  shows "cluster_ok s'" "dom (c_heap s') = dom (c_heap s)" "c_myself s' = c_myself s" "me_role s' = me_role s"
    "roles s' = roles s" "c_nodes s' = c_nodes s"
  using assms roles_dom [of s' s] by (simp_all add: keeps_def me_role_eq)

lemma cluster_ok_me: "cluster_ok s \<Longrightarrow> \<exists>me. c_heap s (c_myself s) = Some me"
  using links_okD(3) [of s] by (auto simp: cluster_ok_def)

lemma keeps_cong:
  assumes "cluster_ok s" "c_heap s' = c_heap s" "c_nodes s' = c_nodes s" "c_myself s' = c_myself s" "c_slots s' = c_slots s"
    "\<And>j k. c_importing_slots_from s' j = Some k \<or> c_migrating_slots_to s' j = Some k \<Longrightarrow>
      c_importing_slots_from s j = Some k \<or> c_migrating_slots_to s j = Some k"
  shows "keeps s s'"
  using cluster_ok_cong [OF assms] assms by (simp add: keeps_def roles_def)

lemma keeps_upd:
  assumes "cluster_ok s" "c_heap s n = Some x" "c_heap s' = (c_heap s)(n \<mapsto> x')" "same_tables s s'"
    "links_of x' = links_of x" "slots_of x' = slots_of x" "node_role x' = node_role x"
  shows "keeps s s'"
proof -
  have r: "cn_name x' = cn_name x" "cn_slaves x' = cn_slaves x" "cn_slaveof x' = cn_slaveof x" "nodeIsSlave x' = nodeIsSlave x"
    "cn_fail_reports x' = cn_fail_reports x"
    using assms(5) by (simp_all add: links_of_def)
  have lk: "links_ok s" using assms(1) by (simp add: cluster_ok_def)
  have "cluster_ok s'"
    by (rule cluster_ok_upd [OF assms(1-4)]) (use r assms(6) links_okD(6,7) [OF lk assms(2)] in simp_all)
  then show ?thesis using roles_upd [OF assms(2,3,7)] assms(4) by (simp add: keeps_def same_tables_def)
qed

lemma keeps_set_node:
  assumes "cluster_ok s" "n \<in> dom (c_heap s)"
    "\<And>x. links_of (f x) = links_of x" "\<And>x. slots_of (f x) = slots_of x" "\<And>x. node_role (f x) = node_role x"
  shows "\<exists>s'. set_node n f s = Some s' \<and> keeps s s'"
proof -
  obtain x where x: "c_heap s n = Some x" using assms(2) by auto
  have "keeps s (s\<lparr>c_heap := (c_heap s)(n \<mapsto> f x)\<rparr>)"
    by (rule keeps_upd [OF assms(1) x, where x' = "f x"]) (simp_all add: assms(3-5) same_tables_def)
  then show ?thesis by (simp add: set_node_Some [OF x])
qed

lemma keeps_emit [simp]: "keeps s (emit e t) = keeps s t"
  and keeps_todo [simp]: "keeps s (clusterDoBeforeSleep w t) = keeps s t"
  and keeps_reset [simp]: "keeps s (resetManualFailover p t) = keeps s t"
  by (simp_all add: keeps_def emit_def clusterDoBeforeSleep_def resetManualFailover_def roles_def cluster_ok_def slots_ok_def links_ok_def Let_def)

lemma same_tables_frame [simp]:
  "same_tables s (emit e t) = same_tables s t" "same_tables s (clusterDoBeforeSleep w t) = same_tables s t"
  "same_tables s (resetManualFailover p t) = same_tables s t"
  by (simp_all add: emit_def clusterDoBeforeSleep_def resetManualFailover_def same_tables_def Let_def)

lemma keeps_slot_frame: "cluster_ok t \<Longrightarrow> slot_frame s t \<Longrightarrow> keeps s t"
  using slot_frame_roles [of s t] by (auto simp: keeps_def slot_frame_def)

lemma keeps_Add: "cluster_ok s \<Longrightarrow> n \<in> dom (c_heap s) \<Longrightarrow> j < CLUSTER_SLOTS \<Longrightarrow>
   \<exists>s'. clusterAddSlot n j s = Some (s', c_slots s j = None) \<and> keeps s s' \<and> slot_frame s s' \<and>
     c_slots s' = (if c_slots s j = None then (c_slots s)(j \<mapsto> n) else c_slots s)"
  using clusterAddSlot_ok [of s n j] keeps_slot_frame by meson

lemma keeps_Del: "cluster_ok s \<Longrightarrow> j < CLUSTER_SLOTS \<Longrightarrow>
   \<exists>s'. clusterDelSlot j s = Some (s', c_slots s j \<noteq> None) \<and> keeps s s' \<and> slot_frame s s' \<and> c_slots s' = (c_slots s)(j := None)"
  using clusterDelSlot_ok [of s j] keeps_slot_frame by meson

text \<open>The release of a slot and its assignment to a node, as in several loops.\<close>

lemma keeps_move:
  assumes ok: "cluster_ok s" and n: "n \<in> dom (c_heap s)" and j: "j < CLUSTER_SLOTS"
  obtains s1 s2 b where "clusterDelSlot j s = Some (s1, b)" "clusterAddSlot n j s1 = Some (s2, True)"
    "keeps s s2" "slot_frame s s1" "slot_frame s s2" "c_slots s2 = (c_slots s)(j \<mapsto> n)"
proof -
  obtain s1 where s1: "clusterDelSlot j s = Some (s1, c_slots s j \<noteq> None)" "keeps s s1" "slot_frame s s1" "c_slots s1 = (c_slots s)(j := None)"
    using keeps_Del [OF ok j] by blast
  have n1: "n \<in> dom (c_heap s1)" using keepsD(2) [OF s1(2)] n by simp
  obtain s2 where s2: "clusterAddSlot n j s1 = Some (s2, c_slots s1 j = None)" "keeps s1 s2" "slot_frame s1 s2"
    "c_slots s2 = (if c_slots s1 j = None then (c_slots s1)(j \<mapsto> n) else c_slots s1)"
    using keeps_Add [OF keepsD(1) [OF s1(2)] n1 j] by blast
  have "c_slots s2 = (c_slots s)(j \<mapsto> n)" "c_slots s1 j = None" using s1(4) s2(4) by simp_all
  then show ?thesis using that [OF s1(1)] s2(1) keeps_trans [OF s1(2) s2(2)] s1(3) slot_frame_trans [OF s1(3) s2(3)] by simp
qed

section \<open>Roles\<close>

text \<open>This node is a master or a slave, not both and not in a handshake; every other node has a role or is in a handshake.\<close>

definition role_ok :: "clusterState \<Rightarrow> bool" where
  "role_ok s \<longleftrightarrow> (\<exists>m. roles s (c_myself s) = Some (m, \<not> m, False)) \<and> (\<forall>n. roles s n \<noteq> Some (False, False, False))"

lemma role_ok_keeps: "keeps s t \<Longrightarrow> role_ok s \<Longrightarrow> role_ok t"
  by (simp add: role_ok_def keeps_def)

lemma role_ok_del: "role_ok s \<Longrightarrow> roles t = (roles s)(d := None) \<Longrightarrow> d \<noteq> c_myself s \<Longrightarrow> c_myself t = c_myself s \<Longrightarrow> role_ok t"
  by (simp add: role_ok_def)

lemma role_ok_master:
  "role_ok s \<Longrightarrow> roles t = (roles s)(n := map_option (\<lambda>(m, sl, h). (True, m \<and> sl, h)) (roles s n)) \<Longrightarrow> c_myself t = c_myself s \<Longrightarrow> role_ok t"
  by (auto simp: role_ok_def)

lemma role_ok_me:
  assumes "role_ok s" "c_heap s (c_myself s) = Some me"
  shows "nodeIsMaster me \<longleftrightarrow> \<not> nodeIsSlave me" "\<not> nodeInHandshake me"
  using assms by (auto simp: role_ok_def roles_def node_role_def)

lemma role_ok_slave:
  assumes "role_ok s" "c_heap s (c_myself s) = Some me" "roles t = (roles s)(c_myself s \<mapsto> (False, True, nodeInHandshake me))" "c_myself t = c_myself s"
  shows "role_ok t"
  using assms(1,3,4) role_ok_me(2) [OF assms(1,2)] by (auto simp: role_ok_def intro: exI [of _ False])

lemma role_ok_node: "role_ok s \<Longrightarrow> c_heap s n = Some x \<Longrightarrow> nodeInHandshake x \<or> nodeIsMaster x \<or> nodeIsSlave x"
  by (auto simp: role_ok_def roles_def node_role_def dest: spec [of _ n])

section \<open>Epochs\<close>

lemma nodes_those:
  assumes "links_ok s"
  shows "\<exists>ys. those (map (\<lambda>e. c_heap s (snd e)) (c_nodes s)) = Some ys"
  by (rule those_some) (use links_okD(2) [OF assms] in auto)

lemma clusterBump_ok:
  assumes ok: "cluster_ok s"
  shows "\<exists>s' b. clusterBumpConfigEpochWithoutConsensus s = Some (s', b) \<and> keeps s s' \<and> same_tables s s'"
proof -
  obtain ys where ys: "those (map (\<lambda>e. c_heap s (snd e)) (c_nodes s)) = Some ys"
    using nodes_those ok by (auto simp: cluster_ok_def)
  obtain me where me: "c_heap s (c_myself s) = Some me" using cluster_ok_me [OF ok] by blast
  let ?e = "c_currentEpoch s + 1"
  let ?t = "s\<lparr>c_currentEpoch := ?e, c_heap := (c_heap s)(c_myself s \<mapsto> me\<lparr>cn_configEpoch := ?e\<rparr>)\<rparr>"
  let ?s = "clusterDoBeforeSleep (CLUSTER_TODO_SAVE_CONFIG OR CLUSTER_TODO_FSYNC_CONFIG) ?t"
  have "keeps s ?t"
    by (rule keeps_upd [OF ok me, where x' = "me\<lparr>cn_configEpoch := ?e\<rparr>"])
      (simp_all add: same_tables_def links_of_def slots_of_def node_role_def flag_iff)
  moreover have "same_tables s ?t" by (simp add: same_tables_def)
  ultimately have 1: "keeps s ?s \<and> same_tables s ?s" by simp
  have 2: "keeps s s \<and> same_tables s s" using keeps_refl [OF ok] by (simp add: same_tables_def)
  have "clusterBumpConfigEpochWithoutConsensus s = Some (?s, True) \<or> clusterBumpConfigEpochWithoutConsensus s = Some (s, False)"
    by (simp add: clusterBumpConfigEpochWithoutConsensus_def clusterGetMaxEpoch_def ys me Let_def set_node_def)
  then show ?thesis using 1 2 by blast
qed

lemma slot_owner: "slots_ok s \<Longrightarrow> j < CLUSTER_SLOTS \<Longrightarrow> c_slots s j = Some n \<Longrightarrow> \<exists>x. c_heap s n = Some x"
  by (auto simp: slots_ok_def dom_def)

lemma slots_covered_some:
  assumes "slots_ok s" "\<And>j. j \<in> set js \<Longrightarrow> j < CLUSTER_SLOTS"
  shows "slots_covered js s \<noteq> None"
  using assms(2)
proof (induction js)
  case (Cons j js)
  have j: "j < CLUSTER_SLOTS" and IH: "slots_covered js s \<noteq> None" using Cons by simp_all
  show ?case
  proof (cases "c_slots s j")
    case (Some n)
    then obtain x where "c_heap s n = Some x" using slot_owner [OF assms(1) j] by blast
    then show ?thesis using Some IH by (simp del: not_None_eq)
  qed simp
qed simp

lemma slots_covered_cong: "c_heap s' = c_heap s \<Longrightarrow> c_slots s' = c_slots s \<Longrightarrow> slots_covered js s' = slots_covered js s"
  by (induction js) (auto split: option.splits cong: if_cong)

lemma clusterUpdateState_ok:
  assumes ok: "cluster_ok s"
  shows "\<exists>s'. clusterUpdateState env s = Some s' \<and> c_heap s' = c_heap s \<and> same_tables s s'"
proof -
  obtain ys where ys: "those (map (\<lambda>e. c_heap s (snd e)) (c_nodes s)) = Some ys"
    using nodes_those ok by (auto simp: cluster_ok_def)
  obtain me where me: "c_heap s (c_myself s) = Some me" using cluster_ok_me [OF ok] by blast
  obtain b where b: "slots_covered [0..<CLUSTER_SLOTS] s = Some b"
    using slots_covered_some [of s "[0..<CLUSTER_SLOTS]"] ok by (auto simp: cluster_ok_def)
  have c: "slots_covered [0..<CLUSTER_SLOTS] t = Some b" if "c_heap t = c_heap s" "c_slots t = c_slots s" for t
    using slots_covered_cong [OF that] b by simp
  show ?thesis
    by (simp add: clusterUpdateState_def Let_def mstime_def me ys c same_tables_def split: if_splits)
qed

lemma clusterUpdateState_keeps:
  assumes ok: "cluster_ok s"
  shows "\<exists>s'. clusterUpdateState env s = Some s' \<and> keeps s s' \<and> same_tables s s'"
  using clusterUpdateState_ok [OF ok, of env] keeps_cong [OF ok] by (fastforce simp: same_tables_def)

lemma clusterFailoverReplaceYourMaster_ok:
  assumes ok: "cluster_ok s"
  shows "\<exists>s'. clusterFailoverReplaceYourMaster env s = Some s' \<and> cluster_ok s' \<and> dom (c_heap s') = dom (c_heap s) \<and>
    c_myself s' = c_myself s \<and> (role_ok s \<longrightarrow> role_ok s') \<and> c_nodes s' = c_nodes s"
proof -
  obtain me where me: "c_heap s (c_myself s) = Some me" using cluster_ok_me [OF ok] by blast
  show ?thesis
  proof (cases "cn_slaveof me = None \<or> nodeIsMaster me")
    case True
    then show ?thesis using ok by (auto simp: clusterFailoverReplaceYourMaster_def me split: option.splits)
  next
    case False
    then obtain m where m: "cn_slaveof me = Some m" "\<not> nodeIsMaster me" by auto
    have lk: "links_ok s" using ok by (simp add: cluster_ok_def)
    have md: "m \<in> dom (c_heap s)" using links_okD(8) [OF lk me m(1)] by simp
    have myd: "c_myself s \<in> dom (c_heap s)" using me by auto
    obtain s1 where s1: "clusterSetNodeAsMaster (c_myself s) s = Some s1" "cluster_ok s1" "dom (c_heap s1) = dom (c_heap s)"
      "c_myself s1 = c_myself s" "roles s1 = (roles s)(c_myself s := map_option (\<lambda>(m, sl, h). (True, m \<and> sl, h)) (roles s (c_myself s)))"
      "c_nodes s1 = c_nodes s"
      using clusterSetNodeAsMaster_ok [OF ok myd] by blast
    let ?u = "emit Replication_unset_master s1"
    have k0: "keeps s1 ?u" using keeps_refl [OF s1(2)] by simp
    have "\<exists>s'. foldM (\<lambda>j s. do {
              b \<leftarrow> clusterNodeGetSlotBit m j s;
              if b then do {
                (s, _) \<leftarrow> clusterDelSlot j s;
                (s, _) \<leftarrow> clusterAddSlot (c_myself s) j s;
                Some s
              } else Some s
            }) [0..<CLUSTER_SLOTS] ?u = Some s' \<and> keeps s1 s'"
    proof (rule foldM_total [where P = "keeps s1"])
      fix j t assume j: "j \<in> set [0..<CLUSTER_SLOTS]" and t: "keeps s1 t"
      have j': "j < CLUSTER_SLOTS" using j by simp
      note tok = keepsD(1) [OF t]
      obtain y where y: "c_heap t m = Some y" using md s1(3) keepsD(2) [OF t] by blast
      have so: "slots_ok t" using tok by (simp add: cluster_ok_def)
      have gb: "clusterNodeGetSlotBit m j t = Some (c_slots t j = Some m)"
        using so y j' by (simp add: clusterNodeGetSlotBit_def slots_ok_def)
      have myt: "c_myself t \<in> dom (c_heap t)" using myd s1(3,4) keepsD(2,3) [OF t] by simp
      obtain t1 t2 b where t2: "clusterDelSlot j t = Some (t1, b)" "clusterAddSlot (c_myself t) j t1 = Some (t2, True)" "keeps t t2" "slot_frame t t1"
        using keeps_move [OF tok myt j'] by metis
      have "c_myself t1 = c_myself t" using t2(4) by (auto simp: slot_frame_def)
      then show "\<exists>s'. (do {
              b \<leftarrow> clusterNodeGetSlotBit m j t;
              if b then do {
                (s, _) \<leftarrow> clusterDelSlot j t;
                (s, _) \<leftarrow> clusterAddSlot (c_myself s) j s;
                Some s
              } else Some t
            }) = Some s' \<and> keeps s1 s'"
        using gb t2 t keeps_trans [OF t t2(3)] by simp
    qed (rule k0)
    then obtain s2 where s2: "foldM (\<lambda>j s. do {
              b \<leftarrow> clusterNodeGetSlotBit m j s;
              if b then do {
                (s, _) \<leftarrow> clusterDelSlot j s;
                (s, _) \<leftarrow> clusterAddSlot (c_myself s) j s;
                Some s
              } else Some s
            }) [0..<CLUSTER_SLOTS] ?u = Some s2" "keeps s1 s2" by blast
    obtain s3 where s3: "clusterUpdateState env s2 = Some s3" "keeps s2 s3"
      using clusterUpdateState_keeps [OF keepsD(1) [OF s2(2)]] by blast
    let ?r = "resetManualFailover (e_paused env) (emit (Broadcast_pong True) (emit Save_config s3))"
    have k: "keeps s1 ?r" using keeps_trans [OF s2(2) s3(2)] by simp
    have "clusterFailoverReplaceYourMaster env s = Some ?r"
      using m s1(1) s2(1) s3(1) by (simp add: clusterFailoverReplaceYourMaster_def me Let_def)
    then show ?thesis using keepsD [OF k] s1(3,4,6) role_ok_keeps [OF k] role_ok_master [OF _ s1(5,4)] by auto
  qed
qed

end
