(* ===== verification/Cluster_Init.thy ===== *)
theory Cluster_Init
  imports Cluster_Keep
begin

text \<open>
  The start of a node: \<open>clusterInit\<close> establishes the invariant when there is no configuration file, and adding a new
  node keeps it.
\<close>

unbundle bit_operations_syntax

section \<open>Definitions\<close>

text \<open>
  The state that \<open>clusterInit\<close> sets up when no configuration file is found. The state is allocated without being
  cleared, and \<open>failover_auth_sent\<close> is not initialised: it is a parameter. The node gets the address and the name of the environment.
\<close>

definition clusterInit :: "bool \<Rightarrow> cluster_env \<Rightarrow> int \<Rightarrow> (nat \<Rightarrow> int) \<Rightarrow> int \<Rightarrow> clusterState option" where
  "clusterInit uninit env timeout clock port = do {
     s \<leftarrow> Some \<lparr>c_heap = Map.empty, c_myself = e_new_node env, c_currentEpoch = 0, c_state = CLUSTER_FAIL, c_size = 1,
       c_nodes = [], c_nodes_black_list = [], c_migrating_slots_to = \<lambda>_. None, c_importing_slots_from = \<lambda>_. None,
       c_slots = \<lambda>_. None, c_failover_auth_time = 0, c_failover_auth_count = 0, c_failover_auth_sent = uninit,
       c_failover_auth_rank = 0, c_failover_auth_epoch = 0, c_cant_failover_reason = 0, c_lastlog_time = 0, c_mf_end = 0,
       c_mf_slave = None, c_mf_master_offset = 0, c_mf_can_start = False, c_lastVoteEpoch = 0, c_todo_before_sleep = 0,
       c_among_minority_time = 0, c_first_call_time = 0, c_node_timeout = timeout,
       c_stats_pfail_nodes = 0, c_iteration = 0, c_prev_ip = None, c_link_ctime = \<lambda>_. 0, c_clock = clock, c_tick = 0, c_out = []\<rparr>;
     let s = createClusterNode (e_new_node env) (e_new_name env) (CLUSTER_NODE_MYSELF OR CLUSTER_NODE_MASTER) s;
     (s, _) \<leftarrow> clusterAddNode (e_new_node env) s;
     let s = emit Save_config s;
     s \<leftarrow> set_node (c_myself s) (\<lambda>x. x\<lparr>cn_port := port, cn_cport := port + 10000\<rparr>) s;
     s \<leftarrow> Some (s\<lparr>c_mf_end := 0\<rparr>);
     Some (resetManualFailover (e_paused env) s)
   }"

section \<open>New nodes\<close>

lemma empty_bitmap: "j < CLUSTER_SLOTS \<Longrightarrow> bitmapTestBit (replicate (CLUSTER_SLOTS div 8) 0) j = Some False"
  by (simp add: bitmapTestBit_def CLUSTER_SLOTS_def)

definition fresh_node :: "clusterNode \<Rightarrow> bool" where
  "fresh_node x \<longleftrightarrow> cn_slots x = replicate (CLUSTER_SLOTS div 8) 0 \<and> cn_numslots x = 0 \<and> cn_slaves x = [] \<and>
     cn_slaveof x = None \<and> cn_fail_reports x = []"

lemma cluster_ok_new:
  assumes ok: "cluster_ok s" and n: "c_heap s n = None" and x: "fresh_node x" and nm: "clusterLookupNode (cn_name x) s = None"
    and h: "c_heap s' = (c_heap s)(n \<mapsto> x)" "c_nodes s' = c_nodes s @ [(cn_name x, n)]" "c_myself s' = c_myself s"
      "c_slots s' = c_slots s" "c_importing_slots_from s' = c_importing_slots_from s" "c_migrating_slots_to s' = c_migrating_slots_to s"
  shows "cluster_ok s'"
proof -
  have lk: "links_ok s" and sl: "slots_ok s" using ok by (simp_all add: cluster_ok_def)
  note f = x [unfolded fresh_node_def]
  have own: "c_slots s j \<noteq> Some n" if "j < CLUSTER_SLOTS" for j using slot_owner [OF sl that, of n] n by auto
  have so: "slots_ok s'"
    unfolding slots_ok_def
  proof (intro conjI allI impI)
    fix k y assume y: "c_heap s' k = Some y"
    show "length (cn_slots y) = CLUSTER_SLOTS div 8"
      using y f sl by (cases "k = n") (auto simp: h slots_ok_def)
    show "cn_numslots y = int (card {j. j < CLUSTER_SLOTS \<and> c_slots s' j = Some k})"
    proof (cases "k = n")
      case True
      have "{j. j < CLUSTER_SLOTS \<and> c_slots s j = Some n} = {}" using own by auto
      then show ?thesis using True y f by (simp add: h)
    next
      case False
      then show ?thesis using y sl by (simp add: h slots_ok_def)
    qed
    fix j assume j: "j < CLUSTER_SLOTS"
    show "bitmapTestBit (cn_slots y) j = Some (c_slots s' j = Some k)"
    proof (cases "k = n")
      case True
      then show ?thesis using y f own [OF j] empty_bitmap [OF j] by (simp add: h)
    next
      case False
      then show ?thesis using y sl j by (simp add: h slots_ok_def)
    qed
  next
    fix j k assume "j < CLUSTER_SLOTS" "c_slots s' j = Some k"
    then show "k \<in> dom (c_heap s')" using slot_owner [OF sl] by (auto simp: h)
  qed
  have no: "(\<exists>y. c_heap s' k = Some y \<and> cn_slaveof y = Some m) \<longleftrightarrow> (\<exists>y. c_heap s k = Some y \<and> cn_slaveof y = Some m)" for k m
    using f n by (auto simp: h)
  have none: "{k. \<exists>y. c_heap s k = Some y \<and> cn_slaveof y = Some n} = {}"
    using links_okD(8) [OF lk] n by fastforce
  have nodes: "distinct (cn_slaves y) \<and> set (cn_slaves y) = {k. \<exists>y. c_heap s' k = Some y \<and> cn_slaveof y = Some m} \<and>
        distinct (map fst (cn_fail_reports y)) \<and> fst ` set (cn_fail_reports y) \<subseteq> dom (c_heap s') \<and>
        (\<forall>p. cn_slaveof y = Some p \<longrightarrow> p \<in> dom (c_heap s') \<and> nodeIsSlave y)" if y: "c_heap s' m = Some y" for m y
  proof (cases "m = n")
    case True
    then show ?thesis using y f none by (simp add: h(1) no [unfolded h(1)])
  next
    case False
    then have y': "c_heap s m = Some y" using y by (simp add: h)
    have d: "dom (c_heap s) \<subseteq> dom (c_heap s')" by (auto simp: h)
    have "fst ` set (cn_fail_reports y) \<subseteq> dom (c_heap s')" using links_okD(7) [OF lk y'] d by (rule subset_trans)
    moreover have "p \<in> dom (c_heap s') \<and> nodeIsSlave y" if "cn_slaveof y = Some p" for p
      using links_okD(8) [OF lk y' that] d by blast
    ultimately show ?thesis unfolding no using links_okD(4-6) [OF lk y'] by simp
  qed
  have names: "set (c_nodes s') = {(cn_name x, n) | n x. c_heap s' n = Some x}"
  proof (rule set_eqI, unfold named_nodes_iff)
    fix e
    have "e \<in> set (c_nodes s) \<longleftrightarrow> (\<exists>y. c_heap s (snd e) = Some y \<and> cn_name y = fst e)"
      using links_okD(2) [OF lk] named_nodes_iff [of e "c_heap s"] by blast
    then show "e \<in> set (c_nodes s') \<longleftrightarrow> (\<exists>y. c_heap s' (snd e) = Some y \<and> cn_name y = fst e)"
      using n by (cases e) (auto simp: h)
  qed
  have dist: "distinct (map fst (c_nodes s'))"
    unfolding h(2) using links_okD(1) [OF lk] nm by (auto simp: clusterLookupNode_def map_of_eq_None_iff)
  have op: "\<forall>j < CLUSTER_SLOTS. \<forall>k. c_importing_slots_from s' j = Some k \<or> c_migrating_slots_to s' j = Some k \<longrightarrow> k \<in> dom (c_heap s')"
    using links_okD(9) [OF lk] by (auto simp: h)
  have "c_myself s' \<in> dom (c_heap s')" using links_okD(3) [OF lk] by (auto simp: h)
  then have "links_ok s'" unfolding links_ok_def using names dist nodes op by blast
  then show "cluster_ok s'" using so by (simp add: cluster_ok_def)
qed

lemma create_add_node_ok:
  assumes ok: "cluster_ok s" and n: "c_heap s n = None" and nm: "clusterLookupNode nm s = None"
  shows "\<exists>t x. clusterAddNode n (createClusterNode n nm flags s) = Some (t, True) \<and> cluster_ok t \<and> c_heap t = (c_heap s)(n \<mapsto> x) \<and>
    cn_flags x = flags \<and> cn_name x = nm \<and> c_myself t = c_myself s \<and> me_role t = me_role s \<and> c_slots t = c_slots s \<and>
    c_nodes t = c_nodes s @ [(nm, n)] \<and> roles t = (roles s)(n \<mapsto> node_role x)"
proof -
  let ?c = "createClusterNode n nm flags s"
  obtain x where x: "c_heap ?c = (c_heap s)(n \<mapsto> x)" "fresh_node x" "cn_name x = nm" "cn_flags x = flags"
    by (simp add: createClusterNode_def mstime_def Let_def fresh_node_def)
  let ?t = "?c\<lparr>c_nodes := c_nodes s @ [(nm, n)]\<rparr>"
  have frame: "c_nodes ?c = c_nodes s" "c_myself ?c = c_myself s" "c_slots ?c = c_slots s"
      "c_importing_slots_from ?c = c_importing_slots_from s" "c_migrating_slots_to ?c = c_migrating_slots_to s"
    by (simp_all add: createClusterNode_def mstime_def Let_def)
  have "clusterAddNode n ?c = Some (?t, True)"
    using x(1,3) nm frame(1) by (simp add: clusterAddNode_def clusterLookupNode_def)
  moreover have "cluster_ok ?t"
    by (rule cluster_ok_new [OF ok n x(2)]) (use x nm frame in simp_all)
  moreover have "c_myself s \<noteq> n" using cluster_ok_me [OF ok] n by auto
  moreover have "roles ?t = (roles s)(n \<mapsto> node_role x)" using x(1) by (auto simp: roles_def fun_eq_iff)
  ultimately show ?thesis using x frame by (auto simp: me_role_def)
qed

lemma clusterInit_ok:
  "\<exists>s. clusterInit uninit env timeout clock port = Some s \<and> cluster_ok s \<and> me_role s = Some (True, False) \<and>
     c_nodes s = [(e_new_name env, e_new_node env)] \<and> c_slots s = (\<lambda>_. None) \<and> dom (c_heap s) = {c_myself s} \<and>
     c_myself s = e_new_node env \<and> role_ok s"
proof -
  obtain s where s: "clusterInit uninit env timeout clock port = Some s"
    and h: "c_heap s = [c_myself s \<mapsto> the (c_heap s (c_myself s))]" "cn_name (the (c_heap s (c_myself s))) = e_new_name env"
      "fresh_node (the (c_heap s (c_myself s)))" "nodeIsMaster (the (c_heap s (c_myself s)))"
      "\<not> nodeIsSlave (the (c_heap s (c_myself s)))"
    and hs: "\<not> nodeInHandshake (the (c_heap s (c_myself s)))"
    and c: "c_nodes s = [(e_new_name env, e_new_node env)]" "c_myself s = e_new_node env" "c_slots s = (\<lambda>_. None)"
      "c_migrating_slots_to s = (\<lambda>_. None)" "c_importing_slots_from s = (\<lambda>_. None)"
    by (simp add: clusterInit_def createClusterNode_def mstime_def Let_def clusterAddNode_def emit_def set_node_def
      resetManualFailover_def fresh_node_def nodeIsMaster_def nodeIsSlave_def nodeInHandshake_def flag_defs)
  define x where "x = the (c_heap s (c_myself s))"
  note x = h [folded x_def]
  have "slots_ok s" using x(3) empty_bitmap by (simp add: slots_ok_def x(1) c(3) fresh_node_def)
  moreover have "links_ok s" using x by (auto simp: links_ok_def c fresh_node_def)
  moreover have "\<not> nodeInHandshake x" using hs by (simp add: x_def)
  then have "role_ok s" using x by (auto simp: role_ok_def roles_def node_role_def)
  ultimately show ?thesis using s x c by (simp add: cluster_ok_def me_role_def)
qed

section \<open>Examples\<close>

text \<open>A master on its own, a master that knows another master, and a slave of it.\<close>

definition demo_env :: cluster_env where
  "demo_env = \<lparr>e_unixtime = 0, e_time = 0, e_repl_connected = True, e_master_lastinteraction = 0, e_repl_down_since = 0,
     e_slave_offset = 0, e_random = 0, e_keys_in_slot = \<lambda>_. 0, e_db_size = 0, e_paused = False, e_require_full_coverage = True,
     e_migration_barrier = 1, e_slave_validity_factor = 10, e_repl_ping_slave_period = 10, e_new_node = 0,
     e_new_name = replicate 40 0\<rparr>"

definition demo_master :: clusterState where
  "demo_master = the (clusterInit False demo_env 15000 (\<lambda>_. 0) 6379)"

definition demo_pair :: clusterState where
  "demo_pair = fst (the (clusterAddNode 1 (createClusterNode 1 (replicate 40 1) CLUSTER_NODE_MASTER demo_master)))"

definition demo_slave :: clusterState where
  "demo_slave = the (clusterSetMaster False 1 demo_pair)"

lemma demo_master_ok:
  "cluster_ok demo_master" "me_role demo_master = Some (True, False)" "c_nodes demo_master = [(replicate 40 0, 0)]"
  "c_slots demo_master = (\<lambda>_. None)" "dom (c_heap demo_master) = {0}" "c_myself demo_master = 0" "role_ok demo_master"
proof -
  have e: "e_new_name demo_env = replicate 40 0" "e_new_node demo_env = 0" by (simp_all add: demo_env_def)
  obtain s where "clusterInit False demo_env 15000 (\<lambda>_. 0) 6379 = Some s \<and> cluster_ok s \<and> me_role s = Some (True, False) \<and>
     c_nodes s = [(replicate 40 0, 0)] \<and> c_slots s = (\<lambda>_. None) \<and> dom (c_heap s) = {c_myself s} \<and> c_myself s = 0 \<and> role_ok s"
    using clusterInit_ok [of False demo_env 15000 "\<lambda>_. 0" 6379] unfolding e by blast
  then show "cluster_ok demo_master" "me_role demo_master = Some (True, False)" "c_nodes demo_master = [(replicate 40 0, 0)]"
    "c_slots demo_master = (\<lambda>_. None)" "dom (c_heap demo_master) = {0}" "c_myself demo_master = 0" "role_ok demo_master"
    by (simp_all add: demo_master_def)
qed

lemma demo_pair_ok:
  "cluster_ok demo_pair" "me_role demo_pair = Some (True, False)" "c_nodes demo_pair = [(replicate 40 0, 0), (replicate 40 1, 1)]"
  "c_slots demo_pair = (\<lambda>_. None)" "c_myself demo_pair = 0" "\<exists>x. c_heap demo_pair 1 = Some x \<and> cn_flags x = CLUSTER_NODE_MASTER"
  "role_ok demo_pair"
proof -
  have "c_heap demo_master 1 = None" using demo_master_ok(5) by auto
  moreover have "clusterLookupNode (replicate 40 1) demo_master = None"
    by (simp add: clusterLookupNode_def demo_master_ok replicate_eq_replicate)
  ultimately obtain t x where t: "clusterAddNode 1 (createClusterNode 1 (replicate 40 1) CLUSTER_NODE_MASTER demo_master) = Some (t, True)"
    "cluster_ok t" "c_heap t = (c_heap demo_master)(1 \<mapsto> x)" "cn_flags x = CLUSTER_NODE_MASTER" "c_myself t = c_myself demo_master"
    "me_role t = me_role demo_master" "c_slots t = c_slots demo_master" "c_nodes t = c_nodes demo_master @ [(replicate 40 1, 1)]" "roles t = (roles demo_master)(1 \<mapsto> node_role x)"
    using create_add_node_ok [OF demo_master_ok(1), of 1 "replicate 40 1" CLUSTER_NODE_MASTER] by blast
  have "role_ok t" using demo_master_ok(6,7) t(4,5,9) by (auto simp: role_ok_def node_role_def nodeIsMaster_def CLUSTER_NODE_MASTER_def)
  with t show "cluster_ok demo_pair" "me_role demo_pair = Some (True, False)" "c_nodes demo_pair = [(replicate 40 0, 0), (replicate 40 1, 1)]"
    "c_slots demo_pair = (\<lambda>_. None)" "c_myself demo_pair = 0" "\<exists>x. c_heap demo_pair 1 = Some x \<and> cn_flags x = CLUSTER_NODE_MASTER"
    "role_ok demo_pair"
    by (simp_all add: demo_pair_def demo_master_ok)
qed

lemma demo_slave_ok:
  "cluster_ok demo_slave" "me_role demo_slave = Some (False, True)" "c_nodes demo_slave = [(replicate 40 0, 0), (replicate 40 1, 1)]"
  "c_slots demo_slave = (\<lambda>_. None)" "c_myself demo_slave = 0" "\<exists>x. c_heap demo_slave 1 = Some x \<and> \<not> nodeIsSlave x"
  "role_ok demo_slave"
proof -
  obtain me where me: "c_heap demo_pair (c_myself demo_pair) = Some me" using cluster_ok_me [OF demo_pair_ok(1)] by blast
  have r: "nodeIsMaster me" "\<not> nodeIsSlave me" using demo_pair_ok(2) me by (simp_all add: me_role_def)
  have one: "(1::nat) \<in> dom (c_heap demo_pair)" "1 \<noteq> c_myself demo_pair" using demo_pair_ok(5,6) by auto
  have ex: "nodeIsMaster me \<longleftrightarrow> \<not> nodeIsSlave me" using r by simp
  obtain t where t: "clusterSetMaster False 1 demo_pair = Some t" "cluster_ok t" "c_slots t = c_slots demo_pair"
    "c_myself t = c_myself demo_pair" "me_role t = Some (False, True)"
    "roles t = (roles demo_pair)(c_myself demo_pair \<mapsto> (False, True, nodeInHandshake me))"
    using clusterSetMaster_ok [OF demo_pair_ok(1) one me ex, of False] by (auto simp: demo_pair_ok(4))
  have "role_ok t" using role_ok_slave [OF demo_pair_ok(7) me t(6,4)] .
  with t show "cluster_ok demo_slave" "me_role demo_slave = Some (False, True)" "c_slots demo_slave = (\<lambda>_. None)" "c_myself demo_slave = 0"
    "role_ok demo_slave" by (simp_all add: demo_slave_def demo_pair_ok)
  obtain x where x: "c_heap demo_pair 1 = Some x" "cn_flags x = CLUSTER_NODE_MASTER" using demo_pair_ok(6) by blast
  have "c_nodes t = c_nodes demo_pair \<and> (\<exists>x. c_heap t 1 = Some x \<and> \<not> nodeIsSlave x)"
    using t(1) me x r one(2)
    by (auto simp: clusterSetMaster_def set_node_def clusterNodeAddSlave_def clusterCloseAllSlots_def resetManualFailover_def emit_def
        nodeIsSlave_def flag_defs bind_eq_Some_conv Let_def split: if_splits)
  then show "c_nodes demo_slave = [(replicate 40 0, 0), (replicate 40 1, 1)]" "\<exists>x. c_heap demo_slave 1 = Some x \<and> \<not> nodeIsSlave x"
    using t(1) by (simp_all add: demo_slave_def demo_pair_ok)
qed

end
