(* ===== verification/Cluster_Command.thy ===== *)
theory Cluster_Command
  imports Cluster_Init
begin

text \<open>
  The subcommands of \<open>CLUSTER\<close> (\<open>clusterCommand\<close> in \<open>cluster.c\<close>) that change the state, and \<open>clusterReset\<close>. An integer
  argument is given as the result of parsing it. A node ID is the string that the client sent; looking it
  up reads 40 bytes from it, whatever its length, which is a failure when it is too short.

  The main theorems say which commands can bring the server down, and that all others keep
  the invariant of the cluster state.
\<close>

unbundle bit_operations_syntax

section \<open>Definitions\<close>

datatype cluster_error =
  Err_invalid_slot
| Err_slot_unassigned nat
| Err_slot_busy nat
| Err_slot_multiple nat
| Err_db_not_empty
| Err_masters_only
| Err_not_owner nat
| Err_already_owner nat
| Err_unknown_node
| Err_holds_keys nat
| Err_setslot
| Err_forget_myself
| Err_forget_master
| Err_replicate_myself
| Err_replicate_slave
| Err_not_empty
| Err_failover_master
| Err_master_unknown
| Err_master_down
| Err_invalid_epoch
| Err_knows_nodes
| Err_epoch_set
| Err_has_keys

datatype cluster_reply = Rep_ok | Rep_error cluster_error | Rep_epoch bool u64 | Rep_int int

definition getSlotOrReply :: "int option \<Rightarrow> nat option" where
  "getSlotOrReply arg = (case arg of
     None \<Rightarrow> None
   | Some slot \<Rightarrow> if slot < 0 \<or> slot \<ge> int CLUSTER_SLOTS then None else Some (nat slot))"

text \<open>\<open>sdsnewlen(name,CLUSTER_NAMELEN)\<close> on an argument, which is followed by one null byte.\<close>

definition node_arg :: "byte list \<Rightarrow> byte list option" where
  "node_arg arg = (if 40 \<le> length (arg @ [0]) then Some (take 40 (arg @ [0])) else None)"

definition cmd_flushslots :: "cluster_env \<Rightarrow> clusterState \<Rightarrow> (clusterState \<times> cluster_reply) option" where
  "cmd_flushslots env s =
     (if e_db_size env \<noteq> 0 then Some (s, Rep_error Err_db_not_empty)
      else do {
        (s, _) \<leftarrow> clusterDelNodeSlots (c_myself s) s;
        Some (clusterDoBeforeSleep (CLUSTER_TODO_UPDATE_STATE OR CLUSTER_TODO_SAVE_CONFIG) s, Rep_ok)
      })"

primrec addslots_check :: "bool \<Rightarrow> int option list \<Rightarrow> (nat \<Rightarrow> nat) \<Rightarrow> clusterState \<Rightarrow> cluster_error + (nat \<Rightarrow> nat)" where
  "addslots_check del [] slots s = Inr slots"
| "addslots_check del (arg # args) slots s = (case getSlotOrReply arg of
     None \<Rightarrow> Inl Err_invalid_slot
   | Some slot \<Rightarrow>
       if del \<and> c_slots s slot = None then Inl (Err_slot_unassigned slot)
       else if \<not> del \<and> c_slots s slot \<noteq> None then Inl (Err_slot_busy slot)
       else if slots slot = 1 then Inl (Err_slot_multiple slot)
       else addslots_check del args (slots(slot := slots slot + 1)) s)"

definition cmd_addslots :: "bool \<Rightarrow> int option list \<Rightarrow> clusterState \<Rightarrow> (clusterState \<times> cluster_reply) option" where
  "cmd_addslots del args s = (case addslots_check del args (\<lambda>_. 0) s of
     Inl e \<Rightarrow> Some (s, Rep_error e)
   | Inr slots \<Rightarrow> do {
       s \<leftarrow> foldM (\<lambda>j s.
         if slots j \<noteq> 0 then do {
           let s = (if c_importing_slots_from s j \<noteq> None
                    then s\<lparr>c_importing_slots_from := (c_importing_slots_from s)(j := None)\<rparr> else s);
           (s, ok) \<leftarrow> (if del then clusterDelSlot j s else clusterAddSlot (c_myself s) j s);
           if ok then Some s else None
         } else Some s) [0..<CLUSTER_SLOTS] s;
       Some (clusterDoBeforeSleep (CLUSTER_TODO_UPDATE_STATE OR CLUSTER_TODO_SAVE_CONFIG) s, Rep_ok)
     })"

datatype setslot_action = Migrating "byte list" | Importing "byte list" | Stable | To_node "byte list" | Bad_action

definition setslot_done :: "clusterState \<Rightarrow> clusterState \<times> cluster_reply" where
  "setslot_done s = (clusterDoBeforeSleep (CLUSTER_TODO_SAVE_CONFIG OR CLUSTER_TODO_UPDATE_STATE) s, Rep_ok)"

definition cmd_setslot_node ::
    "cluster_env \<Rightarrow> nat \<Rightarrow> nid \<Rightarrow> clusterState \<Rightarrow> (clusterState \<times> cluster_reply) option" where
  "cmd_setslot_node env slot n s =
     (if c_slots s slot = Some (c_myself s) \<and> n \<noteq> c_myself s \<and> e_keys_in_slot env slot \<noteq> 0
      then Some (s, Rep_error (Err_holds_keys slot))
      else do {
        let s = (if e_keys_in_slot env slot = 0 \<and> c_migrating_slots_to s slot \<noteq> None
                 then s\<lparr>c_migrating_slots_to := (c_migrating_slots_to s)(slot := None)\<rparr> else s);
        s \<leftarrow> (if n = c_myself s \<and> c_importing_slots_from s slot \<noteq> None then do {
            (s, _) \<leftarrow> clusterBumpConfigEpochWithoutConsensus s;
            Some (s\<lparr>c_importing_slots_from := (c_importing_slots_from s)(slot := None)\<rparr>)
          } else Some s);
        (s, _) \<leftarrow> clusterDelSlot slot s;
        (s, _) \<leftarrow> clusterAddSlot n slot s;
        Some (setslot_done s)
      })"

definition cmd_setslot ::
    "cluster_env \<Rightarrow> int option \<Rightarrow> setslot_action \<Rightarrow> clusterState \<Rightarrow> (clusterState \<times> cluster_reply) option" where
  "cmd_setslot env arg act s = do {
     me \<leftarrow> c_heap s (c_myself s);
     if nodeIsSlave me then Some (s, Rep_error Err_masters_only)
     else case getSlotOrReply arg of
       None \<Rightarrow> Some (s, Rep_error Err_invalid_slot)
     | Some slot \<Rightarrow> (case act of
         Migrating name \<Rightarrow>
           if c_slots s slot \<noteq> Some (c_myself s) then Some (s, Rep_error (Err_not_owner slot))
           else do {
             nodeid \<leftarrow> node_arg name;
             case clusterLookupNode nodeid s of
               None \<Rightarrow> Some (s, Rep_error Err_unknown_node)
             | Some n \<Rightarrow> Some (setslot_done (s\<lparr>c_migrating_slots_to := (c_migrating_slots_to s)(slot \<mapsto> n)\<rparr>))
           }
       | Importing name \<Rightarrow>
           if c_slots s slot = Some (c_myself s) then Some (s, Rep_error (Err_already_owner slot))
           else do {
             nodeid \<leftarrow> node_arg name;
             case clusterLookupNode nodeid s of
               None \<Rightarrow> Some (s, Rep_error Err_unknown_node)
             | Some n \<Rightarrow> Some (setslot_done (s\<lparr>c_importing_slots_from := (c_importing_slots_from s)(slot \<mapsto> n)\<rparr>))
           }
       | Stable \<Rightarrow> Some (setslot_done (s\<lparr>c_importing_slots_from := (c_importing_slots_from s)(slot := None),
                                      c_migrating_slots_to := (c_migrating_slots_to s)(slot := None)\<rparr>))
       | To_node name \<Rightarrow> do {
           nodeid \<leftarrow> node_arg name;
           case clusterLookupNode nodeid s of
             None \<Rightarrow> Some (s, Rep_error Err_unknown_node)
           | Some n \<Rightarrow> cmd_setslot_node env slot n s
         }
       | Bad_action \<Rightarrow> Some (s, Rep_error Err_setslot))
   }"

definition cmd_bumpepoch :: "clusterState \<Rightarrow> (clusterState \<times> cluster_reply) option" where
  "cmd_bumpepoch s = do {
     (s, bumped) \<leftarrow> clusterBumpConfigEpochWithoutConsensus s;
     me \<leftarrow> c_heap s (c_myself s);
     Some (s, Rep_epoch bumped (cn_configEpoch me))
   }"

definition cmd_forget :: "cluster_env \<Rightarrow> byte list \<Rightarrow> clusterState \<Rightarrow> (clusterState \<times> cluster_reply) option" where
  "cmd_forget env name s = do {
     nodeid \<leftarrow> node_arg name;
     me \<leftarrow> c_heap s (c_myself s);
     case clusterLookupNode nodeid s of
       None \<Rightarrow> Some (s, Rep_error Err_unknown_node)
     | Some n \<Rightarrow>
         if n = c_myself s then Some (s, Rep_error Err_forget_myself)
         else if nodeIsSlave me \<and> cn_slaveof me = Some n then Some (s, Rep_error Err_forget_master)
         else do {
           s \<leftarrow> clusterBlacklistAddNode env n s;
           s \<leftarrow> clusterDelNode n s;
           Some (clusterDoBeforeSleep (CLUSTER_TODO_UPDATE_STATE OR CLUSTER_TODO_SAVE_CONFIG) s, Rep_ok)
         }
   }"

definition cmd_replicate :: "cluster_env \<Rightarrow> byte list \<Rightarrow> clusterState \<Rightarrow> (clusterState \<times> cluster_reply) option" where
  "cmd_replicate env name s = do {
     nodeid \<leftarrow> node_arg name;
     me \<leftarrow> c_heap s (c_myself s);
     case clusterLookupNode nodeid s of
       None \<Rightarrow> Some (s, Rep_error Err_unknown_node)
     | Some n \<Rightarrow> do {
         x \<leftarrow> c_heap s n;
         if n = c_myself s then Some (s, Rep_error Err_replicate_myself)
         else if nodeIsSlave x then Some (s, Rep_error Err_replicate_slave)
         else if nodeIsMaster me \<and> (cn_numslots me \<noteq> 0 \<or> e_db_size env \<noteq> 0) then Some (s, Rep_error Err_not_empty)
         else do {
           s \<leftarrow> clusterSetMaster (e_paused env) n s;
           Some (clusterDoBeforeSleep (CLUSTER_TODO_UPDATE_STATE OR CLUSTER_TODO_SAVE_CONFIG) s, Rep_ok)
         }
       }
   }"

definition cmd_count_failure_reports :: "byte list \<Rightarrow> clusterState \<Rightarrow> (clusterState \<times> cluster_reply) option" where
  "cmd_count_failure_reports name s = do {
     nodeid \<leftarrow> node_arg name;
     case clusterLookupNode nodeid s of
       None \<Rightarrow> Some (s, Rep_error Err_unknown_node)
     | Some n \<Rightarrow> do { (s, c) \<leftarrow> clusterNodeFailureReportsCount n s; Some (s, Rep_int c) }
   }"

datatype failover_mode = Failover_default | Failover_force | Failover_takeover

definition cmd_failover :: "cluster_env \<Rightarrow> failover_mode \<Rightarrow> clusterState \<Rightarrow> (clusterState \<times> cluster_reply) option" where
  "cmd_failover env mode s = do {
     me \<leftarrow> c_heap s (c_myself s);
     if nodeIsMaster me then Some (s, Rep_error Err_failover_master)
     else case cn_slaveof me of
       None \<Rightarrow> Some (s, Rep_error Err_master_unknown)
     | Some master \<Rightarrow> do {
         m \<leftarrow> c_heap s master;
         if mode = Failover_default \<and> (nodeFailed m \<or> cn_link m = None) then Some (s, Rep_error Err_master_down)
         else do {
           let s = resetManualFailover (e_paused env) s;
           let (now, s) = mstime s;
           s \<leftarrow> Some (s\<lparr>c_mf_end := now + 5000\<rparr>);
           s \<leftarrow> (case mode of
              Failover_takeover \<Rightarrow> do {
                (s, _) \<leftarrow> clusterBumpConfigEpochWithoutConsensus s;
                clusterFailoverReplaceYourMaster env s
              }
            | Failover_force \<Rightarrow> Some (s\<lparr>c_mf_can_start := True\<rparr>)
            | Failover_default \<Rightarrow> do {
                m \<leftarrow> c_heap s master;
                Some (if cn_link m = None then s else emit (Send_mfstart master) s)
              });
           Some (s, Rep_ok)
         }
       }
   }"

definition cmd_set_config_epoch :: "int option \<Rightarrow> clusterState \<Rightarrow> (clusterState \<times> cluster_reply) option" where
  "cmd_set_config_epoch arg s = do {
     me \<leftarrow> c_heap s (c_myself s);
     case arg of
       None \<Rightarrow> Some (s, Rep_error Err_invalid_epoch)
     | Some epoch \<Rightarrow>
         if epoch < 0 then Some (s, Rep_error Err_invalid_epoch)
         else if length (c_nodes s) > 1 then Some (s, Rep_error Err_knows_nodes)
         else if cn_configEpoch me \<noteq> 0 then Some (s, Rep_error Err_epoch_set)
         else do {
           s \<leftarrow> set_node (c_myself s) (\<lambda>x. x\<lparr>cn_configEpoch := word_of_int epoch\<rparr>) s;
           let s = (if c_currentEpoch s < word_of_int epoch then s\<lparr>c_currentEpoch := word_of_int epoch\<rparr> else s);
           Some (clusterDoBeforeSleep (CLUSTER_TODO_UPDATE_STATE OR CLUSTER_TODO_SAVE_CONFIG) s, Rep_ok)
         }
   }"

definition clusterReset :: "cluster_env \<Rightarrow> bool \<Rightarrow> clusterState \<Rightarrow> clusterState option" where
  "clusterReset env hard s = do {
     me \<leftarrow> c_heap s (c_myself s);
     s \<leftarrow> (if nodeIsSlave me then do {
         s \<leftarrow> clusterSetNodeAsMaster (c_myself s) s;
         Some (emit Empty_db (emit Replication_unset_master s))
       } else Some s);
     let s = resetManualFailover (e_paused env) (clusterCloseAllSlots s);
     s \<leftarrow> foldM (\<lambda>j s. map_option fst (clusterDelSlot j s)) [0..<CLUSTER_SLOTS] s;
     s \<leftarrow> foldM (\<lambda>e s. if snd e = c_myself s then Some s else clusterDelNode (snd e) s) (c_nodes s) s;
     s \<leftarrow> (if hard then do {
         s \<leftarrow> Some (s\<lparr>c_currentEpoch := 0, c_lastVoteEpoch := 0\<rparr>);
         s \<leftarrow> set_node (c_myself s) (\<lambda>x. x\<lparr>cn_configEpoch := 0\<rparr>) s;
         me \<leftarrow> c_heap s (c_myself s);
         s \<leftarrow> Some (s\<lparr>c_nodes := filter (\<lambda>e. fst e \<noteq> cn_name me) (c_nodes s)\<rparr>);
         s \<leftarrow> set_node (c_myself s) (\<lambda>x. x\<lparr>cn_name := e_new_name env\<rparr>) s;
         map_option fst (clusterAddNode (c_myself s) s)
       } else Some s);
     Some (clusterDoBeforeSleep
       (CLUSTER_TODO_SAVE_CONFIG OR CLUSTER_TODO_UPDATE_STATE OR CLUSTER_TODO_FSYNC_CONFIG) s)
   }"

definition cmd_reset :: "cluster_env \<Rightarrow> bool \<Rightarrow> clusterState \<Rightarrow> (clusterState \<times> cluster_reply) option" where
  "cmd_reset env hard s = do {
     me \<leftarrow> c_heap s (c_myself s);
     if nodeIsMaster me \<and> e_db_size env \<noteq> 0 then Some (s, Rep_error Err_has_keys)
     else do { s \<leftarrow> clusterReset env hard s; Some (s, Rep_ok) }
   }"

datatype cluster_cmd =
  Flushslots
| Addslots "int option list"
| Delslots "int option list"
| Setslot "int option" setslot_action
| Bumpepoch
| Forget "byte list"
| Replicate "byte list"
| Count_failure_reports "byte list"
| Failover failover_mode
| Set_config_epoch "int option"
| Reset bool

definition clusterCommand ::
    "cluster_env \<Rightarrow> cluster_cmd \<Rightarrow> clusterState \<Rightarrow> (clusterState \<times> cluster_reply) option" where
  "clusterCommand env cmd s = (case cmd of
     Flushslots \<Rightarrow> cmd_flushslots env s
   | Addslots args \<Rightarrow> cmd_addslots False args s
   | Delslots args \<Rightarrow> cmd_addslots True args s
   | Setslot arg act \<Rightarrow> cmd_setslot env arg act s
   | Bumpepoch \<Rightarrow> cmd_bumpepoch s
   | Forget name \<Rightarrow> cmd_forget env name s
   | Replicate name \<Rightarrow> cmd_replicate env name s
   | Count_failure_reports name \<Rightarrow> cmd_count_failure_reports name s
   | Failover mode \<Rightarrow> cmd_failover env mode s
   | Set_config_epoch arg \<Rightarrow> cmd_set_config_epoch arg s
   | Reset hard \<Rightarrow> cmd_reset env hard s)"

section \<open>Commands keep the invariant\<close>

definition safe :: "(clusterState \<times> cluster_reply) option \<Rightarrow> bool" where
  "safe r \<longleftrightarrow> (\<exists>s' rep. r = Some (s', rep) \<and> cluster_ok s' \<and> role_ok s')"

lemma safeI: "cluster_ok s \<Longrightarrow> role_ok s \<Longrightarrow> safe (Some (s, rep))"
  by (simp add: safe_def)

lemma safe_keeps: "keeps s t \<Longrightarrow> role_ok s \<Longrightarrow> safe (Some (t, rep))"
  using role_ok_keeps [of s t] by (simp add: safe_def keeps_def)

lemma node_arg_some: "39 \<le> length name \<Longrightarrow> \<exists>nodeid. node_arg name = Some nodeid"
  by (simp add: node_arg_def)

lemma lookup_dom:
  assumes "cluster_ok s" "clusterLookupNode nodeid s = Some n"
  shows "n \<in> dom (c_heap s)"
proof -
  have "(nodeid, n) \<in> set (c_nodes s)" using assms(2) by (simp add: clusterLookupNode_def map_of_SomeD)
  moreover have "set (c_nodes s) = {(cn_name x, n) | n x. c_heap s n = Some x}"
    using links_okD(2) assms(1) by (simp add: cluster_ok_def)
  ultimately show ?thesis by auto
qed

lemma numslots_zero:
  assumes "cluster_ok s" "c_heap s n = Some x"
  shows "cn_numslots x = 0 \<longleftrightarrow> (\<forall>j < CLUSTER_SLOTS. c_slots s j \<noteq> Some n)"
proof -
  have "cn_numslots x = int (card {j. j < CLUSTER_SLOTS \<and> c_slots s j = Some n})"
    using assms by (simp add: cluster_ok_def slots_ok_def)
  then show ?thesis by (auto simp: card_eq_0_iff)
qed

lemma keeps_open:
  assumes ok: "cluster_ok s" and p: "p = None \<or> (\<exists>n. p = Some n \<and> n \<in> dom (c_heap s))"
  shows "keeps s (s\<lparr>c_migrating_slots_to := (c_migrating_slots_to s)(slot := p)\<rparr>)"
    "keeps s (s\<lparr>c_importing_slots_from := (c_importing_slots_from s)(slot := p)\<rparr>)"
proof -
  note f = ok [unfolded cluster_ok_def]
  note lk = f [THEN conjunct2]
  have i: "\<forall>j < CLUSTER_SLOTS. \<forall>n. c_importing_slots_from s j = Some n \<or> c_migrating_slots_to s j = Some n \<longrightarrow> n \<in> dom (c_heap s)"
    using links_okD(9) [OF lk] by blast
  have "links_ok (s\<lparr>c_migrating_slots_to := (c_migrating_slots_to s)(slot := p)\<rparr>)"
    "links_ok (s\<lparr>c_importing_slots_from := (c_importing_slots_from s)(slot := p)\<rparr>)"
    using lk i p unfolding links_ok_def by auto
  then show "keeps s (s\<lparr>c_migrating_slots_to := (c_migrating_slots_to s)(slot := p)\<rparr>)"
    "keeps s (s\<lparr>c_importing_slots_from := (c_importing_slots_from s)(slot := p)\<rparr>)"
    using f by (simp_all add: keeps_def cluster_ok_def slots_ok_def roles_def)
qed

lemma cmd_flushslots_safe:
  assumes ok: "cluster_ok s" "role_ok s"
  shows "safe (cmd_flushslots env s)"
proof -
  have me: "c_myself s \<in> dom (c_heap s)" using cluster_ok_me [OF ok(1)] by blast
  obtain t where "clusterDelNodeSlots (c_myself s) s = Some (t, int CLUSTER_SLOTS)" "cluster_ok t" "slot_frame s t"
    using clusterDelNodeSlots_ok [OF ok(1) me] by blast
  then show ?thesis using ok safe_keeps [of s] keeps_slot_frame [of t s] by (simp add: cmd_flushslots_def safeI)
qed

lemma getSlotOrReply_iff: "getSlotOrReply a = Some i \<longleftrightarrow> a = Some (int i) \<and> i < CLUSTER_SLOTS"
  by (auto simp: getSlotOrReply_def split: option.splits)

text \<open>The check of the arguments accepts distinct slots that are all free, or all assigned, and counts each once.\<close>

lemma addslots_check_iff:
  assumes "\<And>i. slots i \<le> 1"
  shows "(\<exists>slots'. addslots_check del args slots s = Inr slots') \<longleftrightarrow> distinct args \<and>
    (\<forall>a \<in> set args. \<exists>i < CLUSTER_SLOTS. a = Some (int i) \<and> (c_slots s i \<noteq> None) = del \<and> slots i = 0)"
  using assms
proof (induction args arbitrary: slots)
  case (Cons a args)
  show ?case
  proof (cases "getSlotOrReply a")
    case None
    then show ?thesis using getSlotOrReply_iff [of a] by fastforce
  next
    case (Some j)
    then have a: "a = Some (int j)" "j < CLUSTER_SLOTS" by (simp_all add: getSlotOrReply_iff)
    show ?thesis
    proof (cases "(c_slots s j \<noteq> None) = del \<and> slots j = 0")
      case True
      let ?s = "slots(j := 1)"
      have le: "?s i \<le> 1" for i using Cons.prems by simp
      have "(\<exists>slots'. addslots_check del (a # args) slots s = Inr slots') \<longleftrightarrow> (\<exists>slots'. addslots_check del args ?s s = Inr slots')"
        using Some True by (auto simp: fun_upd_def)
      also have "\<dots> \<longleftrightarrow> distinct args \<and>
          (\<forall>a \<in> set args. \<exists>i < CLUSTER_SLOTS. a = Some (int i) \<and> (c_slots s i \<noteq> None) = del \<and> ?s i = 0)"
        by (rule Cons.IH [OF le])
      also have "\<dots> \<longleftrightarrow> distinct (a # args) \<and>
          (\<forall>a \<in> set (a # args). \<exists>i < CLUSTER_SLOTS. a = Some (int i) \<and> (c_slots s i \<noteq> None) = del \<and> slots i = 0)"
        using a True by (auto 4 3 split: if_splits)
      finally show ?thesis .
    next
      case False
      have "slots j = 0 \<or> slots j = 1" using Cons.prems [of j] by linarith
      then have "\<nexists>slots'. addslots_check del (a # args) slots s = Inr slots'" using Some False by auto
      moreover have "\<not> (\<exists>i < CLUSTER_SLOTS. a = Some (int i) \<and> (c_slots s i \<noteq> None) = del \<and> slots i = 0)" using a False by simp
      ultimately show ?thesis by auto
    qed
  qed
qed simp

lemma addslots_check_counts:
  assumes "addslots_check del args slots s = Inr slots'" "i < CLUSTER_SLOTS"
  shows "slots' i \<noteq> 0 \<longleftrightarrow> slots i \<noteq> 0 \<or> Some (int i) \<in> set args"
  using assms
proof (induction args arbitrary: slots)
  case (Cons a args)
  then obtain j where j: "getSlotOrReply a = Some j" by (auto split: option.splits)
  with Cons have "slots' i \<noteq> 0 \<longleftrightarrow> (slots(j := slots j + 1)) i \<noteq> 0 \<or> Some (int i) \<in> set args"
    by (auto split: if_splits)
  then show ?case using j [unfolded getSlotOrReply_iff] by auto
qed simp

lemma cmd_addslots_effect:
  assumes ok: "cluster_ok s" and args: "addslots_check del args (\<lambda>_. 0) s = Inr slots"
  shows "\<exists>t. cmd_addslots del args s = Some (t, Rep_ok) \<and> keeps s t \<and>
    map_option node_core \<circ> c_heap t = map_option node_core \<circ> c_heap s \<and> c_nodes t = c_nodes s \<and>
    (\<forall>i < CLUSTER_SLOTS. c_slots t i =
       (if Some (int i) \<in> set args then (if del then None else Some (c_myself s)) else c_slots s i))"
proof -
  have "\<exists>slots. addslots_check del args (\<lambda>_. 0) s = Inr slots" using args by blast
  then have all: "\<forall>a \<in> set args. \<exists>i < CLUSTER_SLOTS. a = Some (int i) \<and> (c_slots s i \<noteq> None) = del"
    using addslots_check_iff [of "\<lambda>_. 0" del args s] by simp
  have chk: "(c_slots s j \<noteq> None) = del" if "slots j \<noteq> 0" "j < CLUSTER_SLOTS" for j
  proof -
    have "Some (int j) \<in> set args" using addslots_check_counts [OF args that(2)] that(1) by simp
    from all [rule_format, OF this] show ?thesis by auto
  qed
  define f where "f = (\<lambda>j s. if slots j \<noteq> 0 then do {
           let s = (if c_importing_slots_from s j \<noteq> None
                    then s\<lparr>c_importing_slots_from := (c_importing_slots_from s)(j := None)\<rparr> else s);
           (s, ok) \<leftarrow> (if del then clusterDelSlot j s else clusterAddSlot (c_myself s) j s);
           if ok then Some s else None
         } else Some s)"
  let ?new = "\<lambda>i. if slots i \<noteq> 0 then (if del then None else Some (c_myself s)) else c_slots s i"
  let ?P = "\<lambda>j t. keeps s t \<and> map_option node_core \<circ> c_heap t = map_option node_core \<circ> c_heap s \<and> c_nodes t = c_nodes s \<and>
    (\<forall>i < CLUSTER_SLOTS. c_slots t i = (if i < j then ?new i else c_slots s i))"
  have "\<exists>t. foldM f [0..<CLUSTER_SLOTS] s = Some t \<and> ?P CLUSTER_SLOTS t"
  proof (rule foldM_upt_total [where P = ?P])
    fix j t assume j: "j < CLUSTER_SLOTS" and P: "?P j t"
    have k0: "keeps s t" and c0: "map_option node_core \<circ> c_heap t = map_option node_core \<circ> c_heap s" and n0: "c_nodes t = c_nodes s"
      and sl0: "\<And>i. i < CLUSTER_SLOTS \<Longrightarrow> c_slots t i = (if i < j then ?new i else c_slots s i)"
      using P by simp_all
    show "\<exists>t'. f j t = Some t' \<and> ?P (Suc j) t'"
    proof (cases "slots j = 0")
      case True
      have "\<forall>i < CLUSTER_SLOTS. c_slots t i = (if i < Suc j then ?new i else c_slots s i)"
        using sl0 True by (simp add: less_Suc_eq) 
      then show ?thesis using True k0 c0 n0 by (simp add: f_def)
    next
      case False
      define t0 where "t0 = (if c_importing_slots_from t j \<noteq> None
                then t\<lparr>c_importing_slots_from := (c_importing_slots_from t)(j := None)\<rparr> else t)"
      have k: "keeps t t0"
        by (rule keeps_cong) (use keepsD(1) [OF k0] in \<open>auto simp: t0_def split: if_splits\<close>)
      have t0: "c_heap t0 = c_heap t" "c_slots t0 = c_slots t" "c_nodes t0 = c_nodes t" "c_myself t0 = c_myself s"
        using keepsD(3) [OF k0] by (simp_all add: t0_def)
      have me: "c_myself t0 \<in> dom (c_heap t0)" using cluster_ok_me [OF keepsD(1) [OF k]] by blast
      have sj: "(c_slots t0 j \<noteq> None) = del" using chk [OF False j] sl0 [OF j] t0(2) by simp
      obtain u where u: "(if del then clusterDelSlot j t0 else clusterAddSlot (c_myself t0) j t0) = Some (u, True)" "keeps t0 u" "slot_frame t0 u"
        "c_slots u = (c_slots t0)(j := if del then None else Some (c_myself s))"
      proof (cases del)
        case True
        then show ?thesis using that keeps_Del [OF keepsD(1) [OF k] j] sj by auto
      next
        case False
        then show ?thesis using that keeps_Add [OF keepsD(1) [OF k] me j] sj t0(4) by auto
      qed
      have "f j t = Some u" using False u(1) unfolding f_def Let_def t0_def [symmetric] by simp
      moreover have "keeps s u" using keeps_trans [OF k0 keeps_trans [OF k u(2)]] .
      moreover have "map_option node_core \<circ> c_heap u = map_option node_core \<circ> c_heap s" "c_nodes u = c_nodes s"
        using u(3) c0 n0 t0 by (auto simp: slot_frame_def)
      moreover have "c_slots u i = (if i < Suc j then ?new i else c_slots s i)" if "i < CLUSTER_SLOTS" for i
        using sl0 [OF that] False by (auto simp: u(4) t0 less_Suc_eq)
      ultimately show ?thesis by blast
    qed
  qed (simp_all add: keeps_refl ok)
  then obtain t where t: "foldM f [0..<CLUSTER_SLOTS] s = Some t" "?P CLUSTER_SLOTS t" by blast
  let ?t = "clusterDoBeforeSleep (CLUSTER_TODO_UPDATE_STATE OR CLUSTER_TODO_SAVE_CONFIG) t"
  have "cmd_addslots del args s = Some (?t, Rep_ok)"
    unfolding cmd_addslots_def args using t(1) by (simp add: f_def)
  moreover have "keeps s ?t" using t(2) by simp
  moreover have "c_heap ?t = c_heap t" "c_nodes ?t = c_nodes t" "c_slots ?t = c_slots t" by (simp_all add: clusterDoBeforeSleep_def)
  moreover have "c_slots t i = (if Some (int i) \<in> set args then (if del then None else Some (c_myself s)) else c_slots s i)"
    if "i < CLUSTER_SLOTS" for i
    using t(2) that addslots_check_counts [OF args that] by simp
  ultimately show ?thesis using t(2) by auto
qed

lemma cmd_addslots_safe:
  assumes ok: "cluster_ok s" "role_ok s"
  shows "safe (cmd_addslots del args s)"
proof (cases "addslots_check del args (\<lambda>_. 0) s")
  case (Inl e)
  then show ?thesis using ok by (simp add: cmd_addslots_def safeI)
next
  case (Inr slots)
  then show ?thesis using cmd_addslots_effect [OF ok(1) Inr] safe_keeps [OF _ ok(2)] by auto
qed

lemma cmd_setslot_node_safe:
  assumes ok: "cluster_ok s" "role_ok s" and slot: "slot < CLUSTER_SLOTS" and n: "n \<in> dom (c_heap s)"
  shows "safe (cmd_setslot_node env slot n s)"
proof (cases "c_slots s slot = Some (c_myself s) \<and> n \<noteq> c_myself s \<and> e_keys_in_slot env slot \<noteq> 0")
  case True
  then show ?thesis using ok by (simp add: cmd_setslot_node_def safeI)
next
  case False
  define s0 where s0: "s0 = (if e_keys_in_slot env slot = 0 \<and> c_migrating_slots_to s slot \<noteq> None
            then s\<lparr>c_migrating_slots_to := (c_migrating_slots_to s)(slot := None)\<rparr> else s)"
  have k1: "keeps s s0" by (rule keeps_cong) (use ok in \<open>auto simp: s0 split: if_splits\<close>)
  obtain t where t: "(if n = c_myself s0 \<and> c_importing_slots_from s0 slot \<noteq> None then do {
            (s, _) \<leftarrow> clusterBumpConfigEpochWithoutConsensus s0;
            Some (s\<lparr>c_importing_slots_from := (c_importing_slots_from s)(slot := None)\<rparr>)
          } else Some s0) = Some t" "keeps s t"
  proof (cases "n = c_myself s0 \<and> c_importing_slots_from s0 slot \<noteq> None")
    case True
    obtain u b where u: "clusterBumpConfigEpochWithoutConsensus s0 = Some (u, b)" "keeps s0 u"
      using clusterBump_ok [OF keepsD(1) [OF k1]] by blast
    have "keeps u (u\<lparr>c_importing_slots_from := (c_importing_slots_from u)(slot := None)\<rparr>)"
      by (rule keeps_cong) (use keepsD(1) [OF u(2)] in \<open>auto split: if_splits\<close>)
    then show ?thesis using that True u keeps_trans [OF k1 keeps_trans [OF u(2)]] by simp
  next
    case False
    show ?thesis by (rule that [of s0]) (use False k1 in auto)
  qed
  have nt: "n \<in> dom (c_heap t)" using n keepsD(2) [OF t(2)] by simp
  obtain t1 t2 b where t2: "clusterDelSlot slot t = Some (t1, b)" "clusterAddSlot n slot t1 = Some (t2, True)" "keeps t t2"
    using keeps_move [OF keepsD(1) [OF t(2)] nt slot] by metis
  have "cmd_setslot_node env slot n s = Some (setslot_done t2)"
    unfolding cmd_setslot_node_def if_not_P [OF False] s0 [symmetric] Let_def t(1) by (simp add: t2)
  then show ?thesis using safe_keeps [OF _ ok(2)] keeps_trans [OF t(2) t2(3)] by (simp add: setslot_done_def)
qed

lemma cmd_setslot_safe:
  assumes ok: "cluster_ok s" "role_ok s"
    and ids: "\<And>name. act \<in> {Migrating name, Importing name, To_node name} \<Longrightarrow> 39 \<le> length name"
  shows "safe (cmd_setslot env arg act s)"
proof -
  obtain me where me: "c_heap s (c_myself s) = Some me" using cluster_ok_me [OF ok(1)] by blast
  consider "nodeIsSlave me \<or> getSlotOrReply arg = None" | slot where "\<not> nodeIsSlave me" "getSlotOrReply arg = Some slot"
    by fastforce
  then show ?thesis
  proof cases
    case 1
    then show ?thesis using ok me by (auto simp: cmd_setslot_def safeI)
  next
    case 2
    have slot: "slot < CLUSTER_SLOTS" using 2(2) by (auto simp: getSlotOrReply_def split: option.splits if_splits)
    have lk: "links_ok s" using ok(1) by (simp add: cluster_ok_def)
    have mig: "safe (Some (setslot_done (s\<lparr>c_migrating_slots_to := (c_migrating_slots_to s)(slot := p)\<rparr>)))"
      and imp: "safe (Some (setslot_done (s\<lparr>c_importing_slots_from := (c_importing_slots_from s)(slot := p)\<rparr>)))"
      if "p = None \<or> (\<exists>n. p = Some n \<and> n \<in> dom (c_heap s))" for p
      using keeps_open [OF ok(1) that] safe_keeps [OF _ ok(2)] by (simp_all add: setslot_done_def)
    show ?thesis
    proof (cases act)
      case (Migrating name)
      obtain i where i: "node_arg name = Some i" using node_arg_some ids Migrating by blast
      show ?thesis using ok me 2 Migrating i mig lookup_dom [OF ok(1), of i]
        by (auto simp: cmd_setslot_def safeI split: option.splits)
    next
      case (Importing name)
      obtain i where i: "node_arg name = Some i" using node_arg_some ids Importing by blast
      show ?thesis using ok me 2 Importing i imp lookup_dom [OF ok(1), of i]
        by (auto simp: cmd_setslot_def safeI split: option.splits)
    next
      case Stable
      have "keeps s (s\<lparr>c_importing_slots_from := (c_importing_slots_from s)(slot := None),
          c_migrating_slots_to := (c_migrating_slots_to s)(slot := None)\<rparr>)"
        by (rule keeps_cong) (use ok in \<open>auto split: if_splits\<close>)
      then show ?thesis using me 2 Stable safe_keeps [OF _ ok(2)] by (simp add: cmd_setslot_def setslot_done_def)
    next
      case (To_node name)
      obtain i where i: "node_arg name = Some i" using node_arg_some ids To_node by blast
      show ?thesis using ok me 2 To_node i lookup_dom [OF ok(1), of i] cmd_setslot_node_safe [OF ok slot]
        by (simp add: cmd_setslot_def safeI split: option.splits)
    next
      case Bad_action
      then show ?thesis using ok me 2 by (simp add: cmd_setslot_def safeI)
    qed
  qed
qed

lemma cmd_bumpepoch_safe:
  assumes ok: "cluster_ok s" "role_ok s"
  shows "safe (cmd_bumpepoch s)"
proof -
  obtain t b where t: "clusterBumpConfigEpochWithoutConsensus s = Some (t, b)" "keeps s t"
    using clusterBump_ok [OF ok(1)] by blast
  obtain me where "c_heap t (c_myself t) = Some me" using cluster_ok_me [OF keepsD(1) [OF t(2)]] by blast
  then show ?thesis using t safe_keeps [OF t(2) ok(2)] by (simp add: cmd_bumpepoch_def)
qed

lemma cmd_forget_safe:
  assumes ok: "cluster_ok s" "role_ok s" and ids: "39 \<le> length name"
  shows "safe (cmd_forget env name s)"
proof -
  obtain me where me: "c_heap s (c_myself s) = Some me" using cluster_ok_me [OF ok(1)] by blast
  obtain i where i: "node_arg name = Some i" using node_arg_some [OF ids] by blast
  show ?thesis
  proof (cases "clusterLookupNode i s")
    case None
    then show ?thesis using ok me i by (simp add: cmd_forget_def safeI)
  next
    case (Some n)
    obtain x where x: "c_heap s n = Some x" using lookup_dom [OF ok(1) Some] by blast
    define t where t: "t = (let s = clusterBlacklistCleanup env s in s\<lparr>c_nodes_black_list :=
       (cn_name x, e_time env + 60) # filter (\<lambda>e. fst e \<noteq> cn_name x) (c_nodes_black_list s)\<rparr>)"
    have k: "keeps s t" by (rule keeps_cong) (use ok in \<open>simp_all add: t clusterBlacklistCleanup_def Let_def\<close>)
    have bl: "clusterBlacklistAddNode env n s = Some t" by (simp add: clusterBlacklistAddNode_def x t Let_def)
    show ?thesis
    proof (cases "n = c_myself s \<or> nodeIsSlave me \<and> cn_slaveof me = Some n")
      case True
      then show ?thesis using ok me i Some by (auto simp: cmd_forget_def safeI)
    next
      case False
      have nt: "n \<in> dom (c_heap t)" "n \<noteq> c_myself t" using x keepsD(2,3) [OF k] False by auto
      obtain u where u: "clusterDelNode n t = Some u" "cluster_ok u" "roles u = (roles t)(n := None)" "c_myself u = c_myself t"
        using clusterDelNode_ok [OF keepsD(1) [OF k] nt] by blast
      have "keeps u u" "role_ok u" using keeps_refl [OF u(2)] role_ok_del [OF role_ok_keeps [OF k ok(2)] u(3) nt(2) u(4)] by simp_all
      then show ?thesis using me i Some False bl u(1) safe_keeps [of u "clusterDoBeforeSleep (CLUSTER_TODO_UPDATE_STATE OR CLUSTER_TODO_SAVE_CONFIG) u"]
        by (auto simp: cmd_forget_def)
    qed
  qed
qed

lemma cmd_replicate_safe:
  assumes ok: "cluster_ok s" "role_ok s" and ids: "39 \<le> length name"
    and none: "\<And>me. c_heap s (c_myself s) = Some me \<Longrightarrow> nodeIsSlave me \<Longrightarrow> cn_numslots me = 0"
  shows "safe (cmd_replicate env name s)"
proof -
  obtain me where me: "c_heap s (c_myself s) = Some me" using cluster_ok_me [OF ok(1)] by blast
  obtain i where i: "node_arg name = Some i" using node_arg_some [OF ids] by blast
  have ex: "nodeIsMaster me \<longleftrightarrow> \<not> nodeIsSlave me" using role_ok_me(1) [OF ok(2) me] .
  show ?thesis
  proof (cases "clusterLookupNode i s")
    case None
    then show ?thesis using ok me i by (simp add: cmd_replicate_def safeI)
  next
    case (Some n)
    have nd: "n \<in> dom (c_heap s)" by (rule lookup_dom [OF ok(1) Some])
    then obtain x where x: "c_heap s n = Some x" by blast
    show ?thesis
    proof (cases "n = c_myself s \<or> nodeIsSlave x \<or> nodeIsMaster me \<and> (cn_numslots me \<noteq> 0 \<or> e_db_size env \<noteq> 0)")
      case True
      then show ?thesis using ok me i Some x by (auto simp: cmd_replicate_def safeI)
    next
      case False
      have "cn_numslots me = 0" using False none [OF me] ex by blast
      then have no: "c_slots s j \<noteq> Some (c_myself s)" if "j < CLUSTER_SLOTS" for j
        using numslots_zero [OF ok(1) me] that by blast
      obtain u where u: "clusterSetMaster (e_paused env) n s = Some u" "cluster_ok u"
        "roles u = (roles s)(c_myself s \<mapsto> (False, True, nodeInHandshake me))" "c_myself u = c_myself s"
        using clusterSetMaster_ok [OF ok(1) nd _ me ex no] False by blast
      have "keeps u u" "role_ok u" using keeps_refl [OF u(2)] role_ok_slave [OF ok(2) me u(3,4)] by simp_all
      then show ?thesis using me i Some x False u(1) safe_keeps [of u "clusterDoBeforeSleep (CLUSTER_TODO_UPDATE_STATE OR CLUSTER_TODO_SAVE_CONFIG) u"]
        by (auto simp: cmd_replicate_def)
    qed
  qed
qed

lemma cmd_count_failure_reports_safe:
  assumes ok: "cluster_ok s" "role_ok s" and ids: "39 \<le> length name"
  shows "safe (cmd_count_failure_reports name s)"
proof -
  obtain i where i: "node_arg name = Some i" using node_arg_some [OF ids] by blast
  show ?thesis
  proof (cases "clusterLookupNode i s")
    case None
    then show ?thesis using ok i by (simp add: cmd_count_failure_reports_def safeI)
  next
    case (Some n)
    obtain t c where "clusterNodeFailureReportsCount n s = Some (t, c)" "cluster_ok t" "roles t = roles s" "same_tables s t"
      using clusterNodeFailureReportsCount_ok [OF ok(1) lookup_dom [OF ok(1) Some]] by blast
    then show ?thesis using Some i ok(2) by (simp add: cmd_count_failure_reports_def safe_def role_ok_def same_tables_def)
  qed
qed

lemma cmd_failover_safe:
  assumes ok: "cluster_ok s" "role_ok s"
  shows "safe (cmd_failover env mode s)"
proof -
  obtain me where me: "c_heap s (c_myself s) = Some me" using cluster_ok_me [OF ok(1)] by blast
  consider "nodeIsMaster me \<or> cn_slaveof me = None" | m where "\<not> nodeIsMaster me" "cn_slaveof me = Some m" by blast
  then show ?thesis
  proof cases
    case 1
    then show ?thesis using ok me by (auto simp: cmd_failover_def safeI)
  next
    case 2
    have "m \<in> dom (c_heap s)" using links_okD(8) [OF _ me 2(2)] ok(1) by (simp add: cluster_ok_def)
    then obtain x where x: "c_heap s m = Some x" by blast
    define t where t: "t = (snd (mstime (resetManualFailover (e_paused env) s)))\<lparr>c_mf_end :=
       fst (mstime (resetManualFailover (e_paused env) s)) + 5000\<rparr>"
    have k0: "keeps s (resetManualFailover (e_paused env) s)" using keeps_refl [OF ok(1)] by simp
    have "keeps (resetManualFailover (e_paused env) s) t"
      by (rule keeps_cong) (use keepsD(1) [OF k0] in \<open>simp_all add: t mstime_def\<close>)
    then have k: "keeps s t" by (rule keeps_trans [OF k0])
    note tok = keepsD(1) [OF k]
    have eq: "cmd_failover env mode s = (if mode = Failover_default \<and> (nodeFailed x \<or> cn_link x = None) then Some (s, Rep_error Err_master_down)
        else do {
           s \<leftarrow> (case mode of
              Failover_takeover \<Rightarrow> do {
                (s, _) \<leftarrow> clusterBumpConfigEpochWithoutConsensus t;
                clusterFailoverReplaceYourMaster env s
              }
            | Failover_force \<Rightarrow> Some (t\<lparr>c_mf_can_start := True\<rparr>)
            | Failover_default \<Rightarrow> do {
                m' \<leftarrow> c_heap t m;
                Some (if cn_link m' = None then t else emit (Send_mfstart m) t)
              });
           Some (s, Rep_ok)
         })"
      using 2 by (cases mode) (simp_all add: cmd_failover_def me x t Let_def mstime_def cong: if_cong)
    show ?thesis
    proof (cases mode)
      case Failover_default
      obtain y where "c_heap t m = Some y" using x keepsD(2) [OF k] by blast
      then show ?thesis unfolding eq using ok k safe_keeps [OF _ ok(2)] by (simp add: Failover_default safeI)
    next
      case Failover_force
      have "keeps t (t\<lparr>c_mf_can_start := True\<rparr>)" by (rule keeps_cong) (use tok in simp_all)
      then show ?thesis unfolding eq using keeps_trans [OF k] safe_keeps [OF _ ok(2)] by (simp add: Failover_force)
    next
      case Failover_takeover
      obtain u b where u: "clusterBumpConfigEpochWithoutConsensus t = Some (u, b)" "keeps t u"
        using clusterBump_ok [OF tok] by blast
      obtain v where v: "clusterFailoverReplaceYourMaster env u = Some v" "cluster_ok v"
        "role_ok u \<longrightarrow> role_ok v"
        using clusterFailoverReplaceYourMaster_ok [OF keepsD(1) [OF u(2)]] by blast
      have "role_ok v" using v(3) role_ok_keeps [OF keeps_trans [OF k u(2)] ok(2)] by blast
      then show ?thesis unfolding eq using u v by (simp add: Failover_takeover safeI)
    qed
  qed
qed

lemma cmd_set_config_epoch_safe:
  assumes ok: "cluster_ok s" "role_ok s"
  shows "safe (cmd_set_config_epoch arg s)"
proof -
  obtain me where me: "c_heap s (c_myself s) = Some me" using cluster_ok_me [OF ok(1)] by blast
  have med: "c_myself s \<in> dom (c_heap s)" using me by blast
  show ?thesis
  proof (cases arg)
    case None
    then show ?thesis using ok me by (simp add: cmd_set_config_epoch_def safeI)
  next
    case (Some epoch)
    obtain t where t: "set_node (c_myself s) (\<lambda>x. x\<lparr>cn_configEpoch := word_of_int epoch\<rparr>) s = Some t" "keeps s t"
      using keeps_set_node [OF ok(1) med, of "\<lambda>x. x\<lparr>cn_configEpoch := word_of_int epoch\<rparr>"]
      by (auto simp: links_of_def slots_of_def node_role_def flag_iff)
    have "keeps t (t\<lparr>c_currentEpoch := word_of_int epoch\<rparr>)" by (rule keeps_cong) (use keepsD(1) [OF t(2)] in simp_all)
    then have "keeps s (t\<lparr>c_currentEpoch := word_of_int epoch\<rparr>)" by (rule keeps_trans [OF t(2)])
    then show ?thesis using ok me t Some safe_keeps [OF _ ok(2)] by (simp add: cmd_set_config_epoch_def Let_def safeI)
  qed
qed

lemma reset_delete_nodes:
  assumes ok: "cluster_ok s"
  shows "\<exists>t. foldM (\<lambda>e s. if snd e = c_myself s then Some s else clusterDelNode (snd e) s) (c_nodes s) s = Some t \<and>
    cluster_ok t \<and> c_myself t = c_myself s \<and> roles t (c_myself s) = roles s (c_myself s) \<and> dom (c_heap t) = {c_myself s}"
proof -
  have lk: "links_ok s" using ok by (simp add: cluster_ok_def)
  let ?f = "\<lambda>e s. if snd e = c_myself s then Some s else clusterDelNode (snd e) s"
  let ?P = "\<lambda>ys t. cluster_ok t \<and> c_myself t = c_myself s \<and> roles t (c_myself s) = roles s (c_myself s) \<and>
    dom (c_heap t) = dom (c_heap s) - (snd ` set ys - {c_myself s})"
  have all: "snd ` set (c_nodes s) = dom (c_heap s)" unfolding links_okD(2) [OF lk] by (auto simp: image_iff)
  have "\<exists>t. foldM ?f (c_nodes s) s = Some t \<and> ?P (c_nodes s) t"
  proof (rule foldM_prefix_total [where P = ?P])
    fix ys e zs t assume e: "c_nodes s = ys @ e # zs" and P: "?P ys t"
    show "\<exists>t'. ?f e t = Some t' \<and> ?P (ys @ [e]) t'"
    proof (cases "snd e = c_myself s")
      case True
      then show ?thesis using P by auto
    next
      case False
      have es: "e \<in> set (c_nodes s)" by (simp add: e)
      obtain x where x: "c_heap s (snd e) = Some x" using es all by (metis domD image_eqI)
      have "snd e \<notin> snd ` set ys"
      proof
        assume "snd e \<in> snd ` set ys"
        then obtain e' where e': "e' \<in> set ys" "snd e' = snd e" by auto
        have "fst e' = cn_name x" "fst e = cn_name x"
          using name_unique [OF lk x, of e'] name_unique [OF lk x es] e' by (simp_all add: e)
        then show False using links_okD(1) [OF lk] e'(1) by (auto simp: e image_iff)
      qed
      then have d: "snd e \<in> dom (c_heap t)" "snd e \<noteq> c_myself t" using P x False by auto
      have tok: "cluster_ok t" using P by simp
      obtain u where "clusterDelNode (snd e) t = Some u" "cluster_ok u" "dom (c_heap u) = dom (c_heap t) - {snd e}"
        "c_myself u = c_myself t" "roles u = (roles t)(snd e := None)"
        using clusterDelNode_ok [OF tok d] by blast
      then show ?thesis using P False by auto
    qed
  qed (simp add: ok)
  then obtain t where t: "foldM ?f (c_nodes s) s = Some t" "?P (c_nodes s) t" by blast
  have "dom (c_heap t) = {c_myself s}" using t(2) all links_okD(3) [OF lk] by auto
  then show ?thesis using t by blast
qed

lemma reset_identity:
  assumes ok: "cluster_ok s" and one: "dom (c_heap s) = {c_myself s}"
  shows "\<exists>t. (do {
         s \<leftarrow> Some (s\<lparr>c_currentEpoch := 0, c_lastVoteEpoch := 0\<rparr>);
         s \<leftarrow> set_node (c_myself s) (\<lambda>x. x\<lparr>cn_configEpoch := 0\<rparr>) s;
         me \<leftarrow> c_heap s (c_myself s);
         s \<leftarrow> Some (s\<lparr>c_nodes := filter (\<lambda>e. fst e \<noteq> cn_name me) (c_nodes s)\<rparr>);
         s \<leftarrow> set_node (c_myself s) (\<lambda>x. x\<lparr>cn_name := new\<rparr>) s;
         map_option fst (clusterAddNode (c_myself s) s)
       }) = Some t \<and> cluster_ok t \<and> c_myself t = c_myself s \<and> roles t (c_myself s) = roles s (c_myself s) \<and> dom (c_heap t) = {c_myself s}"
proof -
  define s0 where s0: "s0 = s\<lparr>c_currentEpoch := 0, c_lastVoteEpoch := 0\<rparr>"
  have k0: "keeps s s0" by (rule keeps_cong) (use ok in \<open>simp_all add: s0\<close>)
  have med: "c_myself s0 \<in> dom (c_heap s0)" using cluster_ok_me [OF keepsD(1) [OF k0]] by blast
  obtain s1 where s1: "set_node (c_myself s0) (\<lambda>x. x\<lparr>cn_configEpoch := 0\<rparr>) s0 = Some s1" "keeps s0 s1"
    using keeps_set_node [OF keepsD(1) [OF k0] med, of "\<lambda>x. x\<lparr>cn_configEpoch := 0\<rparr>"]
    by (auto simp: links_of_def slots_of_def node_role_def flag_iff)
  have k: "keeps s s1" by (rule keeps_trans [OF k0 s1(2)])
  have lk: "links_ok s1" using keepsD(1) [OF k] by (simp add: cluster_ok_def)
  obtain me where me: "c_heap s1 (c_myself s1) = Some me" using cluster_ok_me [OF keepsD(1) [OF k]] by blast
  have one1: "dom (c_heap s1) = {c_myself s1}" using one keepsD(2,3) [OF k] by simp
  have "fst e = cn_name me" if e: "e \<in> set (c_nodes s1)" for e
  proof -
    have "snd e \<in> dom (c_heap s1)" using links_okD(2) [OF lk] e by auto
    then show ?thesis using name_unique [OF lk me e] one1 by simp
  qed
  then have fl: "filter (\<lambda>e. fst e \<noteq> cn_name me) (c_nodes s1) = []" by (simp add: filter_empty_conv)
  let ?t = "s1\<lparr>c_nodes := [], c_heap := (c_heap s1)(c_myself s1 \<mapsto> me\<lparr>cn_name := new\<rparr>)\<rparr>\<lparr>c_nodes := [(new, c_myself s1)]\<rparr>"
  have tok: "cluster_ok ?t" by (rule cluster_ok_rename [OF keepsD(1) [OF k] me, where new = new]) (simp_all add: fl)
  have "(do {
         s \<leftarrow> Some s0;
         s \<leftarrow> set_node (c_myself s) (\<lambda>x. x\<lparr>cn_configEpoch := 0\<rparr>) s;
         me \<leftarrow> c_heap s (c_myself s);
         s \<leftarrow> Some (s\<lparr>c_nodes := filter (\<lambda>e. fst e \<noteq> cn_name me) (c_nodes s)\<rparr>);
         s \<leftarrow> set_node (c_myself s) (\<lambda>x. x\<lparr>cn_name := new\<rparr>) s;
         map_option fst (clusterAddNode (c_myself s) s)
       }) = Some ?t"
    by (simp add: s1(1) me fl set_node_Some clusterAddNode_def)
  moreover have "roles ?t = roles s1" by (rule roles_upd [OF me, where x' = "me\<lparr>cn_name := new\<rparr>"]) (simp_all add: node_role_def flag_iff)
  moreover have "dom (c_heap ?t) = {c_myself s}" using one1 keepsD(3) [OF k] me by auto
  ultimately show ?thesis using tok keepsD(3,5) [OF k] by (simp add: s0)
qed

lemma clusterReset_ok:
  assumes ok: "cluster_ok s" "role_ok s"
  shows "\<exists>t. clusterReset env hard s = Some t \<and> cluster_ok t \<and> role_ok t \<and> roles t (c_myself t) = Some (True, False, False) \<and> dom (c_heap t) = {c_myself t}"
proof -
  obtain me where me: "c_heap s (c_myself s) = Some me" using cluster_ok_me [OF ok(1)] by blast
  have med: "c_myself s \<in> dom (c_heap s)" using me by blast
  obtain s1 where s1: "(if nodeIsSlave me then do {
         s \<leftarrow> clusterSetNodeAsMaster (c_myself s) s;
         Some (emit Empty_db (emit Replication_unset_master s))
       } else Some s) = Some s1" "cluster_ok s1" "roles s1 (c_myself s1) = Some (True, False, False)"
  proof (cases "nodeIsSlave me")
    case True
    obtain u where u: "clusterSetNodeAsMaster (c_myself s) s = Some u" "cluster_ok u" "c_myself u = c_myself s"
      "roles u = (roles s)(c_myself s := map_option (\<lambda>(m, sl, h). (True, m \<and> sl, h)) (roles s (c_myself s)))"
      using clusterSetNodeAsMaster_ok [OF ok(1) med] by blast
    have ru: "roles u (c_myself u) = Some (True, False, False)" using ok(2) u(3,4) by (auto simp: role_ok_def)
    have "keeps u (emit Empty_db (emit Replication_unset_master u))" using keeps_refl [OF u(2)] by simp
    from keepsD [OF this] show ?thesis using that True u ru by simp
  next
    case False
    have "roles s (c_myself s) = Some (True, False, False)" using False role_ok_me [OF ok(2) me] me by (simp add: roles_def node_role_def)
    then show ?thesis using that [of s] False ok by simp
  qed
  define s2 where s2: "s2 = resetManualFailover (e_paused env) (clusterCloseAllSlots s1)"
  have "keeps s1 (clusterCloseAllSlots s1)" by (rule keeps_cong) (use s1 in \<open>simp_all add: clusterCloseAllSlots_def\<close>)
  then have k2: "keeps s1 s2" by (simp add: s2)
  have "\<exists>t. foldM (\<lambda>j s. map_option fst (clusterDelSlot j s)) [0..<CLUSTER_SLOTS] s2 = Some t \<and> keeps s1 t"
  proof (rule foldM_total [where P = "keeps s1"])
    fix j t assume j: "j \<in> set [0..<CLUSTER_SLOTS]" and t: "keeps s1 t"
    have "j < CLUSTER_SLOTS" using j by simp
    from keeps_Del [OF keepsD(1) [OF t] this] obtain u where "clusterDelSlot j t = Some (u, c_slots t j \<noteq> None)" "keeps t u" by blast
    then show "\<exists>t'. map_option fst (clusterDelSlot j t) = Some t' \<and> keeps s1 t'" using keeps_trans [OF t] by simp
  qed (rule k2)
  then obtain s3 where s3: "foldM (\<lambda>j s. map_option fst (clusterDelSlot j s)) [0..<CLUSTER_SLOTS] s2 = Some s3" "keeps s1 s3" by blast
  obtain s4 where s4: "foldM (\<lambda>e s. if snd e = c_myself s then Some s else clusterDelNode (snd e) s) (c_nodes s3) s3 = Some s4"
    "cluster_ok s4" "c_myself s4 = c_myself s3" "roles s4 (c_myself s3) = roles s3 (c_myself s3)" "dom (c_heap s4) = {c_myself s3}"
    using reset_delete_nodes [OF keepsD(1) [OF s3(2)]] by blast
  have one: "dom (c_heap s4) = {c_myself s4}" using s4(3,5) by simp
  obtain s5 where s5: "(if hard then do {
         s \<leftarrow> Some (s4\<lparr>c_currentEpoch := 0, c_lastVoteEpoch := 0\<rparr>);
         s \<leftarrow> set_node (c_myself s) (\<lambda>x. x\<lparr>cn_configEpoch := 0\<rparr>) s;
         me \<leftarrow> c_heap s (c_myself s);
         s \<leftarrow> Some (s\<lparr>c_nodes := filter (\<lambda>e. fst e \<noteq> cn_name me) (c_nodes s)\<rparr>);
         s \<leftarrow> set_node (c_myself s) (\<lambda>x. x\<lparr>cn_name := e_new_name env\<rparr>) s;
         map_option fst (clusterAddNode (c_myself s) s)
       } else Some s4) = Some s5" "cluster_ok s5" "c_myself s5 = c_myself s4" "roles s5 (c_myself s4) = roles s4 (c_myself s4)" "dom (c_heap s5) = {c_myself s4}"
  proof (cases hard)
    case True
    from reset_identity [OF s4(2) one, of "e_new_name env"] show ?thesis using that unfolding if_P [OF True] by blast
  next
    case False
    then show ?thesis using that [of s4] s4(2) one by simp
  qed
  let ?t = "clusterDoBeforeSleep (CLUSTER_TODO_SAVE_CONFIG OR CLUSTER_TODO_UPDATE_STATE OR CLUSTER_TODO_FSYNC_CONFIG) s5"
  have "clusterReset env hard s = Some ?t"
    unfolding clusterReset_def me bind.simps s1(1) Let_def s2 [symmetric] s3(1) s4(1) s5(1) [unfolded bind.simps] ..
  moreover have "keeps s5 ?t" using keeps_refl [OF s5(2)] by simp
  moreover have r5: "roles s5 (c_myself s5) = Some (True, False, False)"
    using s5(3,4) s4(3,4) keepsD(3,5) [OF s3(2)] s1(3) by simp
  moreover have "role_ok s5"
  proof -
    have "roles s5 n \<noteq> Some (False, False, False)" for n
      using r5 s5(3,5) by (cases "n = c_myself s5") (auto simp: roles_def domIff)
    then show ?thesis using r5 by (auto simp: role_ok_def intro: exI [of _ True])
  qed
  ultimately show ?thesis using keepsD [of s5 ?t] role_ok_keeps [of s5 ?t] s5(3,5) by simp
qed

lemma cmd_reset_safe:
  assumes ok: "cluster_ok s" "role_ok s"
  shows "safe (cmd_reset env hard s)"
proof -
  obtain me where me: "c_heap s (c_myself s) = Some me" using cluster_ok_me [OF ok(1)] by blast
  obtain t where "clusterReset env hard s = Some t" "cluster_ok t" "role_ok t"
    using clusterReset_ok [OF ok] by blast
  then show ?thesis using ok me by (simp add: cmd_reset_def safeI)
qed

section \<open>Main theorems\<close>

text \<open>The node IDs among the arguments of a command.\<close>

fun node_ids :: "cluster_cmd \<Rightarrow> byte list list" where
  "node_ids (Setslot _ (Migrating name)) = [name]"
| "node_ids (Setslot _ (Importing name)) = [name]"
| "node_ids (Setslot _ (To_node name)) = [name]"
| "node_ids (Forget name) = [name]"
| "node_ids (Replicate name) = [name]"
| "node_ids (Count_failure_reports name) = [name]"
| "node_ids _ = []"

text \<open>Is this node a slave that serves slots?\<close>

definition slave_with_slots :: "clusterState \<Rightarrow> bool" where
  "slave_with_slots s \<longleftrightarrow> (case c_heap s (c_myself s) of None \<Rightarrow> False | Some me \<Rightarrow> nodeIsSlave me \<and> cn_numslots me \<noteq> 0)"

lemma clusterCommand_safe:
  assumes ok: "cluster_ok s" "role_ok s" and ids: "\<And>name. name \<in> set (node_ids cmd) \<Longrightarrow> 39 \<le> length name"
    and rep: "\<And>name. cmd = Replicate name \<Longrightarrow> \<not> slave_with_slots s"
  shows "safe (clusterCommand env cmd s)"
proof (cases cmd)
  case (Setslot arg act)
  have "39 \<le> length name" if "act \<in> {Migrating name, Importing name, To_node name}" for name
    using ids [of name] that Setslot by auto
  then show ?thesis using cmd_setslot_safe [OF ok] Setslot by (simp add: clusterCommand_def)
next
  case (Replicate name)
  have "cn_numslots me = 0" if "c_heap s (c_myself s) = Some me" "nodeIsSlave me" for me
    using rep [OF Replicate] that by (simp add: slave_with_slots_def)
  then show ?thesis using cmd_replicate_safe [OF ok] ids Replicate by (simp add: clusterCommand_def)
qed (use ids in \<open>simp_all add: clusterCommand_def cmd_flushslots_safe cmd_addslots_safe cmd_bumpepoch_safe cmd_forget_safe
      cmd_count_failure_reports_safe cmd_failover_safe cmd_set_config_epoch_safe cmd_reset_safe ok\<close>)

lemma node_arg_none: "length name < 39 \<Longrightarrow> node_arg name = None"
  by (simp add: node_arg_def)

lemma short_id_no_change:
  assumes "name \<in> set (node_ids cmd)" "length name < 39"
  shows "clusterCommand env cmd s = None \<or> (\<exists>e. clusterCommand env cmd s = Some (s, Rep_error e))"
  using assms
  by (cases "c_heap s (c_myself s)"; cases cmd rule: node_ids.cases)
    (auto simp: clusterCommand_def cmd_setslot_def cmd_forget_def cmd_replicate_def cmd_count_failure_reports_def node_arg_none
       split: option.splits)

lemma replicate_no_change:
  assumes "slave_with_slots s" "role_ok s"
  shows "clusterCommand env (Replicate name) s = None \<or> (\<exists>e. clusterCommand env (Replicate name) s = Some (s, Rep_error e))"
proof -
  obtain me where me: "c_heap s (c_myself s) = Some me" "nodeIsSlave me" "cn_numslots me \<noteq> 0"
    using assms(1) by (auto simp: slave_with_slots_def split: option.splits)
  have "clusterSetMaster p n s = None" for p n using me by (simp add: clusterSetMaster_def)
  then show ?thesis using me
    by (cases "node_arg name"; cases "clusterLookupNode (the (node_arg name)) s"; cases "c_heap s (the (clusterLookupNode (the (node_arg name)) s))")
      (simp_all add: clusterCommand_def cmd_replicate_def)
qed

text \<open>Whatever the arguments, a command that returns leaves a consistent state.\<close>

lemma clusterCommand_returns:
  assumes ok: "cluster_ok s" "role_ok s" and r: "clusterCommand env cmd s = Some (t, rep)"
  shows "cluster_ok t \<and> role_ok t"
proof (cases "(\<exists>name \<in> set (node_ids cmd). length name < 39) \<or> (\<exists>name. cmd = Replicate name) \<and> slave_with_slots s")
  case True
  then have "clusterCommand env cmd s = None \<or> (\<exists>e. clusterCommand env cmd s = Some (s, Rep_error e))"
    by (elim disjE bexE conjE exE) (simp_all add: short_id_no_change replicate_no_change ok)
  then show ?thesis using ok r by auto
next
  case False
  have "safe (clusterCommand env cmd s)" by (rule clusterCommand_safe [OF ok]) (use False in \<open>auto simp: not_less\<close>)
  then show ?thesis using r by (simp add: safe_def)
qed

lemma clusterCommand_down:
  assumes ok: "cluster_ok s" "role_ok s" and r: "clusterCommand env cmd s = None"
  shows "(\<exists>name \<in> set (node_ids cmd). length name < 39) \<or> (\<exists>name. cmd = Replicate name) \<and> slave_with_slots s"
proof (rule ccontr)
  assume c: "\<not> ?thesis"
  have "safe (clusterCommand env cmd s)" by (rule clusterCommand_safe [OF ok]) (use c in \<open>auto simp: not_less\<close>)
  then show False using r by (simp add: safe_def)
qed

text \<open>A client's session: commands in order, each in the environment of its time.\<close>

definition cluster_session :: "(cluster_env \<times> cluster_cmd) list \<Rightarrow> clusterState \<Rightarrow> clusterState option" where
  "cluster_session = foldM (\<lambda>(env, cmd) s. map_option fst (clusterCommand env cmd s))"



section \<open>The cause of a crash\<close>

text \<open>
  (C17) \<open>CLUSTER ADDSLOTS\<close> and \<open>CLUSTER DELSLOTS\<close> are all or nothing: the command replies OK if and only if its arguments are
  distinct valid slots, all free for \<open>ADDSLOTS\<close> and all assigned for \<open>DELSLOTS\<close>. Then exactly these slots become
  slots of this node, respectively unassigned; otherwise nothing changes.
\<close>

theorem cmd_addslots_spec:
  assumes "cluster_ok s"
  shows "if distinct args \<and> (\<forall>a \<in> set args. \<exists>i < CLUSTER_SLOTS. a = Some (int i) \<and> (c_slots s i \<noteq> None) = del)
    then \<exists>t. cmd_addslots del args s = Some (t, Rep_ok) \<and> cluster_ok t \<and>
      (\<forall>i < CLUSTER_SLOTS. c_slots t i =
         (if Some (int i) \<in> set args then (if del then None else Some (c_myself s)) else c_slots s i))
    else \<exists>e. cmd_addslots del args s = Some (s, Rep_error e)"
proof (cases "addslots_check del args (\<lambda>_. 0) s")
  case (Inl e)
  then show ?thesis using addslots_check_iff [of "\<lambda>_. 0" del args s] by (auto simp: cmd_addslots_def)
next
  case (Inr slots)
  then have "\<exists>slots. addslots_check del args (\<lambda>_. 0) s = Inr slots" by blast
  then have c: "distinct args \<and> (\<forall>a \<in> set args. \<exists>i < CLUSTER_SLOTS. a = Some (int i) \<and> (c_slots s i \<noteq> None) = del)"
    using addslots_check_iff [of "\<lambda>_. 0" del args s] by simp
  show ?thesis unfolding if_P [OF c] using cmd_addslots_effect [OF assms Inr] keepsD(1) by blast
qed

theorem cmd_addslots_spec_witness:
  "cluster_ok demo_slave \<and> (\<exists>t. cmd_addslots False [Some 7, Some 16383] demo_slave = Some (t, Rep_ok) \<and> cluster_ok t \<and> c_slots t 7 = Some 0) \<and>
   (\<exists>e. cmd_addslots True [Some 7] demo_slave = Some (demo_slave, Rep_error e))"
proof -
  have 1: "\<exists>i < CLUSTER_SLOTS. Some 7 = Some (int i)" "\<exists>i < CLUSTER_SLOTS. Some 16383 = Some (int i)"
    by (rule exI [of _ 7], simp add: CLUSTER_SLOTS_def) (rule exI [of _ 16383], simp add: CLUSTER_SLOTS_def)
  have "(7::nat) < CLUSTER_SLOTS" "int 7 = 7" by (simp_all add: CLUSTER_SLOTS_def)
  then have "\<exists>t. cmd_addslots False [Some 7, Some 16383] demo_slave = Some (t, Rep_ok) \<and> cluster_ok t \<and> c_slots t 7 = Some 0"
    using cmd_addslots_spec [OF demo_slave_ok(1), of "[Some 7, Some 16383]" False] 1 by (fastforce simp: demo_slave_ok)
  moreover have "\<exists>e. cmd_addslots True [Some 7] demo_slave = Some (demo_slave, Rep_error e)"
    using cmd_addslots_spec [OF demo_slave_ok(1), of "[Some 7]" True] by (simp add: demo_slave_ok)
  ultimately show ?thesis using demo_slave_ok(1) by blast
qed

text \<open>
  (C35) \<open>CLUSTER ADDSLOTS\<close> is not refused on a slave. When a slave was given a free slot, \<open>CLUSTER REPLICATE\<close> of any other
  master brings the server down.
\<close>

theorem addslots_replicate_crash:
  assumes ok: "cluster_ok s" and me: "c_heap s (c_myself s) = Some me" "nodeIsSlave me" "\<not> nodeIsMaster me"
    and j: "j < CLUSTER_SLOTS" "c_slots s j = None"
    and n: "node_arg name = Some nodeid" "clusterLookupNode nodeid s = Some n" "n \<noteq> c_myself s" "c_heap s n = Some x" "\<not> nodeIsSlave x"
  shows "\<exists>t. clusterCommand env (Addslots [Some (int j)]) s = Some (t, Rep_ok) \<and> clusterCommand env' (Replicate name) t = None"
proof -
  have "\<exists>slots. addslots_check False [Some (int j)] (\<lambda>_. 0) s = Inr slots"
    by (rule addslots_check_iff [THEN iffD2]) (use j in auto)
  then obtain slots where "addslots_check False [Some (int j)] (\<lambda>_. 0) s = Inr slots" by blast
  from cmd_addslots_effect [OF ok this] obtain t where t: "cmd_addslots False [Some (int j)] s = Some (t, Rep_ok)" "keeps s t"
    "map_option node_core \<circ> c_heap t = map_option node_core \<circ> c_heap s" "c_nodes t = c_nodes s" "c_slots t j = Some (c_myself s)"
    using j(1) by fastforce
  obtain me' where me': "c_heap t (c_myself t) = Some me'" using cluster_ok_me [OF keepsD(1) [OF t(2)]] by blast
  have "nodeIsSlave me'" "\<not> nodeIsMaster me'" using keepsD(4) [OF t(2)] me me' by (simp_all add: me_role_def)
  moreover have "cn_numslots me' \<noteq> 0"
    using numslots_zero [OF keepsD(1) [OF t(2)] me'] t(5) j(1) keepsD(3) [OF t(2)] by auto
  moreover obtain x' where x': "c_heap t n = Some x'" "node_core x' = node_core x"
    using map_heap_at [of node_core "c_heap s" "c_heap t" n x] t(3) n(4) by auto
  moreover have "\<not> nodeIsSlave x'" using node_core_slave [OF x'(2)] n(5) by simp
  ultimately have "cmd_replicate env' name t = None"
    using n(1-3) me' keepsD(3) [OF t(2)] t(4) by (simp add: cmd_replicate_def clusterLookupNode_def clusterSetMaster_def)
  then show ?thesis using t(1) by (simp add: clusterCommand_def)
qed

theorem addslots_replicate_crash_witness:
  "\<exists>t. clusterCommand demo_env (Addslots [Some 7]) demo_slave = Some (t, Rep_ok) \<and>
     clusterCommand demo_env (Replicate (replicate 40 1)) t = None"
proof -
  obtain me where me: "c_heap demo_slave (c_myself demo_slave) = Some me" using cluster_ok_me [OF demo_slave_ok(1)] by blast
  have r: "nodeIsSlave me" "\<not> nodeIsMaster me" using demo_slave_ok(2) me by (simp_all add: me_role_def)
  obtain x where x: "c_heap demo_slave 1 = Some x" "\<not> nodeIsSlave x" using demo_slave_ok(6) by blast
  have a: "node_arg (replicate 40 1) = Some (replicate 40 1)" by (simp add: node_arg_def)
  have l: "clusterLookupNode (replicate 40 1) demo_slave = Some 1" by (simp add: clusterLookupNode_def demo_slave_ok(3) replicate_eq_replicate)
  have j: "7 < CLUSTER_SLOTS" "c_slots demo_slave 7 = None" "1 \<noteq> c_myself demo_slave"
    by (simp_all add: CLUSTER_SLOTS_def demo_slave_ok)
  show ?thesis
    using addslots_replicate_crash [OF demo_slave_ok(1) me r j(1,2) a l j(3) x, of demo_env demo_env] by simp
qed

end
