(* ===== verification/Cluster_Message.thy ===== *)
theory Cluster_Message
  imports Cluster_Init
begin

text \<open>
  Messages of the cluster bus (\<open>cluster.c\<close>): how a node fills in the header, how it chooses the nodes that a
  \<open>PING\<close> or \<open>PONG\<close> gossips about, and how a receiver checks the length of a message before reading it.

  The buffer for the gossip section has room for a fixed number of entries; writing one more is a failure. Random choices are
  arguments, and so are the configuration and the answers of the operating system.
\<close>

unbundle bit_operations_syntax

section \<open>Definitions\<close>

definition CLUSTERMSG_TYPE_PING :: u16 where "CLUSTERMSG_TYPE_PING = 0"
definition CLUSTERMSG_TYPE_PONG :: u16 where "CLUSTERMSG_TYPE_PONG = 1"
definition CLUSTERMSG_TYPE_MEET :: u16 where "CLUSTERMSG_TYPE_MEET = 2"
definition CLUSTERMSG_TYPE_FAIL :: u16 where "CLUSTERMSG_TYPE_FAIL = 3"
definition CLUSTERMSG_TYPE_PUBLISH :: u16 where "CLUSTERMSG_TYPE_PUBLISH = 4"
definition CLUSTERMSG_TYPE_FAILOVER_AUTH_REQUEST :: u16 where "CLUSTERMSG_TYPE_FAILOVER_AUTH_REQUEST = 5"
definition CLUSTERMSG_TYPE_FAILOVER_AUTH_ACK :: u16 where "CLUSTERMSG_TYPE_FAILOVER_AUTH_ACK = 6"
definition CLUSTERMSG_TYPE_UPDATE :: u16 where "CLUSTERMSG_TYPE_UPDATE = 7"
definition CLUSTERMSG_TYPE_MFSTART :: u16 where "CLUSTERMSG_TYPE_MFSTART = 8"

definition CLUSTERMSG_FLAG0_PAUSED :: byte where "CLUSTERMSG_FLAG0_PAUSED = 1"
definition CLUSTERMSG_FLAG0_FORCEACK :: byte where "CLUSTERMSG_FLAG0_FORCEACK = 2"

text \<open>
  The sizes of the structures: the header without the union, the entries of the union and the whole message, whose union is as
  large as its largest member.
\<close>

definition CLUSTERMSG_MIN_LEN :: nat where
  "CLUSTERMSG_MIN_LEN = 4 + 4 + 2 + 2 + 2 + 2 + 8 + 8 + 8 + 40 + CLUSTER_SLOTS div 8 + 40 + 46 + 34 + 2 + 2 + 1 + 3"

definition sizeof_gossip :: nat where "sizeof_gossip = 40 + 4 + 4 + 46 + 2 + 2 + 2 + 4"
definition sizeof_fail :: nat where "sizeof_fail = 40"
definition sizeof_publish :: nat where "sizeof_publish = 4 + 4 + 8"
definition sizeof_update :: nat where "sizeof_update = 8 + 40 + CLUSTER_SLOTS div 8"

definition sizeof_clusterMsg :: nat where
  "sizeof_clusterMsg = CLUSTERMSG_MIN_LEN + max (max sizeof_gossip sizeof_fail) (max sizeof_publish sizeof_update)"

text \<open>
  The configuration and what the operating system answers: the address of this end and of the other end of the link, the normal form of an
  address if it is one (\<open>inet_pton\<close>, \<open>inet_ntop\<close>), the links that connecting gives, random numbers for each round of outputs, and the address and the name of a new node, for the nodes that exist and the names that are in use.
\<close>

record bus_env =
  b_env :: cluster_env
  b_mstime :: int
  b_announce_ip :: "byte list option"
  b_announce_port :: int
  b_announce_bus_port :: int
  b_port :: int
  b_master_repl_offset :: int
  b_random :: "nat \<Rightarrow> nat \<Rightarrow> nat"
  b_alloc :: "(nid \<Rightarrow> clusterNode option) \<Rightarrow> nid"
  b_name :: "(byte list \<times> nid) list \<Rightarrow> byte list"
  b_inet :: "byte list \<Rightarrow> byte list option"
  b_peer_ip :: "byte list"
  b_sock_ip :: "byte list option"
  b_subscribers :: bool
  b_connect :: "nid \<Rightarrow> nat option"
  b_masterhost :: bool

definition clusterBuildMessageHdr :: "bus_env \<Rightarrow> u16 \<Rightarrow> clusterState \<Rightarrow> clusterMsg option" where
  "clusterBuildMessageHdr b type s = do {
     me \<leftarrow> c_heap s (c_myself s);
     master \<leftarrow> (case cn_slaveof me of Some m \<Rightarrow> if nodeIsSlave me then c_heap s m else Some me | None \<Rightarrow> Some me);
     slaveof \<leftarrow> (case cn_slaveof me of None \<Rightarrow> Some (replicate 40 0) | Some m \<Rightarrow> map_option cn_name (c_heap s m));
     let announced_port = (if b_announce_port b \<noteq> 0 then b_announce_port b else b_port b);
     let announced_cport = (if b_announce_bus_port b \<noteq> 0 then b_announce_bus_port b else b_port b + 10000);
     let offset = (if nodeIsSlave me then e_slave_offset (b_env b) else b_master_repl_offset b);
     let totlen = (if type = CLUSTERMSG_TYPE_FAIL then CLUSTERMSG_MIN_LEN + sizeof_fail
                   else if type = CLUSTERMSG_TYPE_UPDATE then CLUSTERMSG_MIN_LEN + sizeof_update else 0);
     Some \<lparr>m_totlen = of_nat totlen, m_ver = 1, m_port = of_int announced_port, m_type = type, m_count = 0,
       m_currentEpoch = c_currentEpoch s, m_configEpoch = cn_configEpoch master, m_offset = of_int offset,
       m_sender = cn_name me, m_myslots = cn_slots master, m_slaveof = slaveof,
       m_myip = (case b_announce_ip b of None \<Rightarrow> [] | Some ip \<Rightarrow> take 45 ip),
       m_cport = of_int announced_cport, m_flags = ucast (cn_flags me), m_state = c_state s,
       m_mflags = (if nodeIsMaster me \<and> c_mf_end s \<noteq> 0 then CLUSTERMSG_FLAG0_PAUSED else 0),
       m_gossip = [], m_fail_nodename = [], m_channel_len = 0, m_message_len = 0, m_bulk_data = [],
       m_update_configEpoch = 0, m_update_nodename = [], m_update_slots = []\<rparr>
   }"

definition clusterNodeIsInGossipSection :: "clusterMsgDataGossip list \<Rightarrow> clusterNode \<Rightarrow> bool" where
  "clusterNodeIsInGossipSection gossip n \<longleftrightarrow> cn_name n \<in> set (map g_nodename gossip)"

text \<open>\<open>room\<close> is the number of entries that the buffer has space for, \<open>gossip\<close> the entries written so far.\<close>

definition clusterSetGossipEntry ::
    "nat \<Rightarrow> clusterMsgDataGossip list \<Rightarrow> clusterNode \<Rightarrow> clusterMsgDataGossip list option" where
  "clusterSetGossipEntry room gossip n =
     (if length gossip < room then Some (gossip @
        [\<lparr>g_nodename = cn_name n, g_ping_sent = of_int (cn_ping_sent n div 1000), g_pong_received = of_int (cn_pong_received n div 1000),
          g_ip = cn_ip n, g_port = of_int (cn_port n), g_cport = of_int (cn_cport n), g_flags = ucast (cn_flags n)\<rparr>])
      else None)"

text \<open>\<open>dictGetRandomKey\<close> on the table of nodes, for a given random number.\<close>

definition random_node :: "nat \<Rightarrow> clusterState \<Rightarrow> nid option" where
  "random_node r s = (if c_nodes s = [] then None else Some (snd (c_nodes s ! (r mod length (c_nodes s)))))"

text \<open>The first loop of \<open>clusterSendPing\<close>; its first argument is \<open>maxiterations\<close>.\<close>

primrec gossip_random ::
    "nat \<Rightarrow> bus_env \<Rightarrow> int \<Rightarrow> nat \<Rightarrow> clusterState \<Rightarrow> int \<Rightarrow> clusterMsgDataGossip list \<Rightarrow> clusterMsgDataGossip list option" where
  "gossip_random 0 b wanted room s freshnodes gossip = Some gossip"
| "gossip_random (Suc k) b wanted room s freshnodes gossip =
     (if \<not> (freshnodes > 0 \<and> int (length gossip) < wanted) then Some gossip
      else do {
        n \<leftarrow> random_node (b_random b (length (c_out s)) k) s;
        x \<leftarrow> c_heap s n;
        if n = c_myself s then gossip_random k b wanted room s freshnodes gossip
        else if cn_flags x AND CLUSTER_NODE_PFAIL \<noteq> 0 then gossip_random k b wanted room s freshnodes gossip
        else if cn_flags x AND (CLUSTER_NODE_HANDSHAKE OR CLUSTER_NODE_NOADDR) \<noteq> 0 \<or> cn_link x = None \<and> cn_numslots x = 0
          then gossip_random k b wanted room s (freshnodes - 1) gossip
        else if clusterNodeIsInGossipSection gossip x then gossip_random k b wanted room s freshnodes gossip
        else do {
          gossip \<leftarrow> clusterSetGossipEntry room gossip x;
          gossip_random k b wanted room s (freshnodes - 1) gossip
        }
      })"

primrec gossip_pfail ::
    "(byte list \<times> nid) list \<Rightarrow> int \<Rightarrow> nat \<Rightarrow> clusterState \<Rightarrow> clusterMsgDataGossip list \<Rightarrow> clusterMsgDataGossip list option" where
  "gossip_pfail [] pfail_wanted room s gossip = Some gossip"
| "gossip_pfail (e # es) pfail_wanted room s gossip =
     (if \<not> pfail_wanted > 0 then Some gossip
      else do {
        x \<leftarrow> c_heap s (snd e);
        if cn_flags x AND CLUSTER_NODE_HANDSHAKE \<noteq> 0 then gossip_pfail es pfail_wanted room s gossip
        else if cn_flags x AND CLUSTER_NODE_NOADDR \<noteq> 0 then gossip_pfail es pfail_wanted room s gossip
        else if \<not> cn_flags x AND CLUSTER_NODE_PFAIL \<noteq> 0 then gossip_pfail es pfail_wanted room s gossip
        else do {
          gossip \<leftarrow> clusterSetGossipEntry room gossip x;
          gossip_pfail es (pfail_wanted - 1) room s gossip
        }
      })"

text \<open>How many random entries are wanted in a table of \<open>n\<close> nodes, and the entries that the buffer has room for.\<close>

definition gossip_wanted :: "nat \<Rightarrow> int" where
  "gossip_wanted n =
     (let freshnodes = int n - 2;
          wanted = int (n div 10);
          wanted = (if wanted < 3 then 3 else wanted)
      in if wanted > freshnodes then freshnodes else wanted)"

definition gossip_room :: "int \<Rightarrow> nat" where
  "gossip_room entries =
     (let totlen = int CLUSTERMSG_MIN_LEN + int sizeof_gossip * entries;
          totlen = (if totlen < int sizeof_clusterMsg then int sizeof_clusterMsg else totlen)
      in nat ((totlen - int CLUSTERMSG_MIN_LEN) div int sizeof_gossip))"

definition clusterSendPing :: "bus_env \<Rightarrow> nat \<Rightarrow> nid option \<Rightarrow> u16 \<Rightarrow> clusterState \<Rightarrow> clusterState option" where
  "clusterSendPing b link link_node type s = do {
     let freshnodes = int (length (c_nodes s)) - 2;
     let wanted = gossip_wanted (length (c_nodes s));
     let pfail_wanted = int (c_stats_pfail_nodes s);
     let room = gossip_room (wanted + pfail_wanted);
     s \<leftarrow> (case link_node of
        Some n \<Rightarrow> if type = CLUSTERMSG_TYPE_PING
          then (let (now, s) = mstime s in set_node n (\<lambda>x. x\<lparr>cn_ping_sent := now\<rparr>) s) else Some s
      | None \<Rightarrow> Some s);
     hdr \<leftarrow> clusterBuildMessageHdr b type s;
     gossip \<leftarrow> gossip_random (nat (wanted * 3)) b wanted room s freshnodes [];
     gossip \<leftarrow> (if pfail_wanted \<noteq> 0 then gossip_pfail (c_nodes s) pfail_wanted room s gossip else Some gossip);
     let totlen = CLUSTERMSG_MIN_LEN + sizeof_gossip * length gossip;
     Some (emit (Send_message link (hdr\<lparr>m_totlen := of_nat totlen, m_count := of_nat (length gossip), m_gossip := gossip\<rparr>)) s)
   }"

definition clusterSendPublish :: "bus_env \<Rightarrow> byte list \<Rightarrow> byte list \<Rightarrow> clusterState \<Rightarrow> clusterMsg option" where
  "clusterSendPublish b channel message s = do {
     hdr \<leftarrow> clusterBuildMessageHdr b CLUSTERMSG_TYPE_PUBLISH s;
     Some (hdr\<lparr>m_totlen := of_nat CLUSTERMSG_MIN_LEN + of_nat sizeof_publish - 8 + of_nat (length channel) + of_nat (length message),
       m_channel_len := of_nat (length channel), m_message_len := of_nat (length message),
       m_bulk_data := channel @ message\<rparr>)
   }"

text \<open>The checks at the start of \<open>clusterProcessPacket\<close>; lengths are computed with 32 bits.\<close>

definition clusterPacketLengthOk :: "clusterMsg \<Rightarrow> nat \<Rightarrow> bool" where
  "clusterPacketLengthOk hdr rcvlen =
     (let totlen = m_totlen hdr; type = m_type hdr; explen = of_nat CLUSTERMSG_MIN_LEN :: u32 in
      \<not> totlen < 16 \<and> \<not> unat totlen > rcvlen \<and> m_ver hdr = 1 \<and>
      (if type = CLUSTERMSG_TYPE_PING \<or> type = CLUSTERMSG_TYPE_PONG \<or> type = CLUSTERMSG_TYPE_MEET
       then totlen = explen + of_nat sizeof_gossip * ucast (m_count hdr)
       else if type = CLUSTERMSG_TYPE_FAIL then totlen = explen + of_nat sizeof_fail
       else if type = CLUSTERMSG_TYPE_PUBLISH
       then totlen = explen + (of_nat sizeof_publish - 8 + m_channel_len hdr + m_message_len hdr)
       else if type = CLUSTERMSG_TYPE_FAILOVER_AUTH_REQUEST \<or> type = CLUSTERMSG_TYPE_FAILOVER_AUTH_ACK \<or>
               type = CLUSTERMSG_TYPE_MFSTART then totlen = explen
       else if type = CLUSTERMSG_TYPE_UPDATE then totlen = explen + of_nat sizeof_update
       else True))"

text \<open>The channel and the message that \<open>clusterProcessPacket\<close> copies from a \<open>PUBLISH\<close>; reading past the received data is a failure.\<close>

definition publish_payload :: "clusterMsg \<Rightarrow> (byte list \<times> byte list) option" where
  "publish_payload hdr =
     (let channel_len = unat (m_channel_len hdr); message_len = unat (m_message_len hdr) in
      if channel_len + message_len \<le> length (m_bulk_data hdr)
      then Some (take channel_len (m_bulk_data hdr), take message_len (drop channel_len (m_bulk_data hdr))) else None)"

section \<open>A message fits its buffer and passes the check of the receiver\<close>

lemmas sizes = CLUSTERMSG_MIN_LEN_def sizeof_gossip_def sizeof_fail_def sizeof_publish_def sizeof_update_def sizeof_clusterMsg_def CLUSTER_SLOTS_def

lemma random_node_some:
  assumes "links_ok s"
  shows "\<exists>n x. random_node r s = Some n \<and> c_heap s n = Some x"
proof -
  have "c_nodes s \<noteq> []" using links_okD(2,3) [OF assms] by auto
  then have "c_nodes s ! (r mod length (c_nodes s)) \<in> set (c_nodes s)" by simp
  then have "snd (c_nodes s ! (r mod length (c_nodes s))) \<in> dom (c_heap s)" using links_okD(2) [OF assms] by auto
  with \<open>c_nodes s \<noteq> []\<close> show ?thesis by (auto simp: random_node_def)
qed

lemma gossip_random_some:
  assumes lk: "links_ok s" and room: "wanted \<le> int room" and g: "int (length gossip) \<le> max 0 wanted"
  shows "\<exists>gossip'. gossip_random k b wanted room s fresh gossip = Some gossip' \<and> int (length gossip') \<le> max 0 wanted"
  using g
proof (induction k arbitrary: fresh gossip)
  case (Suc k)
  obtain n x where n: "random_node (b_random b (length (c_out s)) k) s = Some n" "c_heap s n = Some x" using random_node_some [OF lk] by blast
  show ?case
  proof (cases "fresh > 0 \<and> int (length gossip) < wanted")
    case True
    then have "length gossip < room" using room by linarith
    then obtain e where e: "clusterSetGossipEntry room gossip x = Some (gossip @ [e])" by (simp add: clusterSetGossipEntry_def)
    have "int (length (gossip @ [e])) \<le> max 0 wanted" using True by simp
    with Suc n e True show ?thesis by simp
  next
    case False
    then show ?thesis using Suc by simp
  qed
qed simp

lemma gossip_pfail_some:
  assumes lk: "links_ok s" and es: "set es \<subseteq> set (c_nodes s)"
    and room: "int (length gossip) + min (max 0 pfail) (int (length es)) \<le> int room"
  shows "\<exists>gossip'. gossip_pfail es pfail room s gossip = Some gossip' \<and> length gossip' \<le> length gossip + length es"
  using es room
proof (induction es arbitrary: pfail gossip)
  case (Cons e es)
  have "snd e \<in> dom (c_heap s)" using Cons.prems(1) links_okD(2) [OF lk] by auto
  then obtain x where x: "c_heap s (snd e) = Some x" by blast
  show ?case
  proof (cases "pfail > 0")
    case True
    have "length gossip < room" using Cons.prems(2) True by simp
    then obtain g where g: "clusterSetGossipEntry room gossip x = Some (gossip @ [g])" by (simp add: clusterSetGossipEntry_def)
    have es: "set es \<subseteq> set (c_nodes s)" using Cons.prems(1) by simp
    have "\<exists>gossip'. gossip_pfail es (pfail - 1) room s (gossip @ [g]) = Some gossip' \<and> length gossip' \<le> length (gossip @ [g]) + length es"
      by (rule Cons.IH [OF es]) (use Cons.prems(2) True in simp)
    moreover have "\<exists>gossip'. gossip_pfail es pfail room s gossip = Some gossip' \<and> length gossip' \<le> length gossip + length es"
      by (rule Cons.IH [OF es]) (use Cons.prems(2) True in simp)
    ultimately show ?thesis using x g True by (auto intro: le_SucI)
  next
    case False
    then show ?thesis by simp
  qed
qed simp

lemma clusterBuildMessageHdr_some:
  assumes ok: "cluster_ok s"
  shows "\<exists>hdr. clusterBuildMessageHdr b type s = Some hdr \<and> m_type hdr = type \<and> m_ver hdr = 1 \<and>
    length (m_myslots hdr) = CLUSTER_SLOTS div 8"
proof -
  obtain me where me: "c_heap s (c_myself s) = Some me" using cluster_ok_me [OF ok] by blast
  have lk: "links_ok s" and sl: "slots_ok s" using ok by (simp_all add: cluster_ok_def)
  have len: "length (cn_slots x) = CLUSTER_SLOTS div 8" if "c_heap s n = Some x" for n x
    using sl that by (simp add: slots_ok_def)
  show ?thesis
  proof (cases "cn_slaveof me")
    case None
    then show ?thesis using me len [OF me] by (simp add: clusterBuildMessageHdr_def Let_def)
  next
    case (Some m)
    then obtain x where "c_heap s m = Some x" using links_okD(8) [OF lk me] by blast
    then show ?thesis using me Some len [OF me] len by (simp add: clusterBuildMessageHdr_def Let_def)
  qed
qed

lemma room_bound: "k \<le> int (gossip_room k)" "20 \<le> gossip_room k"
proof -
  have r: "gossip_room k = nat ((if 104 * k < 2096 then 2096 else 104 * k) div 104)"
    by (simp add: gossip_room_def sizes Let_def)
  then show "k \<le> int (gossip_room k)" "20 \<le> gossip_room k" unfolding r by auto
qed

lemma explen_gossip:
  assumes "n < 65536"
  shows "(of_nat (CLUSTERMSG_MIN_LEN + sizeof_gossip * n) :: u32) =
    of_nat CLUSTERMSG_MIN_LEN + of_nat sizeof_gossip * ucast (of_nat n :: u16)"
    "unat (of_nat (CLUSTERMSG_MIN_LEN + sizeof_gossip * n) :: u32) = CLUSTERMSG_MIN_LEN + sizeof_gossip * n"
proof -
  have "ucast (of_nat n :: u16) = (of_nat n :: u32)" using assms by (simp add: unsigned_of_nat take_bit_nat_eq_self)
  then show "(of_nat (CLUSTERMSG_MIN_LEN + sizeof_gossip * n) :: u32) =
    of_nat CLUSTERMSG_MIN_LEN + of_nat sizeof_gossip * ucast (of_nat n :: u16)" by simp
  show "unat (of_nat (CLUSTERMSG_MIN_LEN + sizeof_gossip * n) :: u32) = CLUSTERMSG_MIN_LEN + sizeof_gossip * n"
    unfolding unat_of_nat using assms by (simp add: sizes)
qed

lemma ping_sent_ok:
  assumes ok: "cluster_ok s" and ln: "case link_node of None \<Rightarrow> True | Some m \<Rightarrow> m \<in> dom (c_heap s)"
  shows "\<exists>s1. (case link_node of
        Some n \<Rightarrow> if type = CLUSTERMSG_TYPE_PING
          then (let (now, s) = mstime s in set_node n (\<lambda>x. x\<lparr>cn_ping_sent := now\<rparr>) s) else Some s
      | None \<Rightarrow> Some s) = Some s1 \<and> keeps s s1 \<and> c_nodes s1 = c_nodes s \<and> c_out s1 = c_out s"
proof (cases "\<exists>m. link_node = Some m \<and> type = CLUSTERMSG_TYPE_PING")
  case True
  then obtain m where m: "link_node = Some m" "type = CLUSTERMSG_TYPE_PING" by blast
  let ?s = "s\<lparr>c_tick := Suc (c_tick s)\<rparr>" and ?f = "\<lambda>x :: clusterNode. x\<lparr>cn_ping_sent := c_clock s (c_tick s)\<rparr>"
  have k: "keeps s ?s" by (rule keeps_cong) (use ok in simp_all)
  have md: "m \<in> dom (c_heap ?s)" using ln m by simp
  obtain u where u: "set_node m ?f ?s = Some u" "keeps ?s u"
    using keeps_set_node [OF keepsD(1) [OF k] md, of ?f] by (auto simp: links_of_def slots_of_def node_role_def flag_iff)
  moreover have "c_nodes u = c_nodes s" "c_out u = c_out s" using u(1) by (auto simp: set_node_def bind_eq_Some_conv)
  ultimately show ?thesis using m keeps_trans [OF k u(2)] by (simp add: mstime_def)
next
  case False
  then show ?thesis using keeps_refl [OF ok] by (auto split: option.splits)
qed

lemma clusterSendPing_runs:
  assumes ok: "cluster_ok s" and ln: "case link_node of None \<Rightarrow> True | Some m \<Rightarrow> m \<in> dom (c_heap s)"
  shows "\<exists>s1 hdr g. (case link_node of
        Some n \<Rightarrow> if type = CLUSTERMSG_TYPE_PING
          then (let (now, s) = mstime s in set_node n (\<lambda>x. x\<lparr>cn_ping_sent := now\<rparr>) s) else Some s
      | None \<Rightarrow> Some s) = Some s1 \<and> c_out s1 = c_out s \<and> clusterBuildMessageHdr b type s1 = Some hdr \<and>
    m_type hdr = type \<and> m_ver hdr = 1 \<and> length g \<le> max 3 (length (c_nodes s) div 10) + length (c_nodes s) \<and>
    clusterSendPing b link link_node type s = Some (emit (Send_message link
      (hdr\<lparr>m_totlen := of_nat (CLUSTERMSG_MIN_LEN + sizeof_gossip * length g), m_count := of_nat (length g), m_gossip := g\<rparr>)) s1)"
proof -
  let ?n = "length (c_nodes s)" and ?p = "int (c_stats_pfail_nodes s)"
  define wanted where "wanted = gossip_wanted ?n"
  let ?room = "gossip_room (wanted + ?p)"
  define t where "t = (case link_node of
        Some n \<Rightarrow> if type = CLUSTERMSG_TYPE_PING
          then (let (now, s) = mstime s in set_node n (\<lambda>x. x\<lparr>cn_ping_sent := now\<rparr>) s) else Some s
      | None \<Rightarrow> Some s)"
  obtain s1 where s1: "t = Some s1" "keeps s s1" "c_nodes s1 = c_nodes s" "c_out s1 = c_out s"
    using ping_sent_ok [OF ok, of link_node type] ln unfolding t_def by blast
  have ok1: "cluster_ok s1" using keepsD(1) [OF s1(2)] .
  then have lk1: "links_ok s1" by (simp add: cluster_ok_def)
  obtain hdr where hdr: "clusterBuildMessageHdr b type s1 = Some hdr" "m_type hdr = type" "m_ver hdr = 1"
    using clusterBuildMessageHdr_some [OF ok1] by blast
  have w: "wanted \<le> int ?room" using room_bound(1) [of "wanted + ?p"] by linarith
  obtain g1 where g1: "gossip_random (nat (wanted * 3)) b wanted ?room s1 (int ?n - 2) [] = Some g1" "int (length g1) \<le> max 0 wanted"
    using gossip_random_some [OF lk1 w, of "[]" "nat (wanted * 3)" b "int ?n - 2"] by auto
  have ne: "?n \<noteq> 0" using links_okD(2,3) [OF lk1] s1(3) by auto
  have "int (length g1) + min (max 0 ?p) (int (length (c_nodes s1))) \<le> int ?room"
  proof (cases "wanted \<ge> 0")
    case True
    then show ?thesis using g1(2) room_bound(1) [of "wanted + ?p"] by linarith
  next
    case False
    then have "?n < 2" by (auto simp: wanted_def gossip_wanted_def Let_def split: if_splits)
    then have "?n = 1" using ne by linarith
    then show ?thesis using False g1(2) room_bound(2) [of "wanted + ?p"] s1(3) by simp
  qed
  from gossip_pfail_some [OF lk1 subset_refl this]
  obtain g2 where g2: "gossip_pfail (c_nodes s1) ?p ?room s1 g1 = Some g2" "length g2 \<le> length g1 + ?n"
    using s1(3) by auto
  define g where "g = (if ?p \<noteq> 0 then g2 else g1)"
  have "wanted \<le> max 3 (int (?n div 10))" by (simp add: wanted_def gossip_wanted_def Let_def max_def)
  then have "length g1 \<le> max 3 (?n div 10)" using g1(2) by linarith
  then have len: "length g \<le> max 3 (?n div 10) + ?n" using g2(2) by (auto simp: g_def)
  have gi: "(if ?p \<noteq> 0 then gossip_pfail (c_nodes s1) ?p ?room s1 g1 else Some g1) = Some g"
    using g2(1) by (simp add: g_def)
  have "clusterSendPing b link link_node type s = Some (emit (Send_message link
      (hdr\<lparr>m_totlen := of_nat (CLUSTERMSG_MIN_LEN + sizeof_gossip * length g), m_count := of_nat (length g), m_gossip := g\<rparr>)) s1)"
    unfolding clusterSendPing_def Let_def wanted_def [symmetric] s1(1) [unfolded t_def Let_def] bind.simps hdr(1) g1(1) gi ..
  then show ?thesis using s1(1,4) hdr len unfolding t_def by blast
qed

text \<open>
  (C27) Sending a \<open>PING\<close>, \<open>PONG\<close> or \<open>MEET\<close> never writes past the buffer, which was allocated for the number of entries that were
  wanted and not for the number that are found; the lengths in the header are those of the message, and a receiver that got the whole message
  accepts its length.
\<close>

theorem clusterSendPing_accepted:
  assumes ok: "cluster_ok s" and n: "length (c_nodes s) < 50000"
    and ln: "case link_node of None \<Rightarrow> True | Some m \<Rightarrow> m \<in> dom (c_heap s)"
    and type: "type \<in> {CLUSTERMSG_TYPE_PING, CLUSTERMSG_TYPE_PONG, CLUSTERMSG_TYPE_MEET}"
  shows "\<exists>s' m. clusterSendPing b link link_node type s = Some s' \<and> c_out s' = c_out s @ [Send_message link m] \<and>
    unat (m_totlen m) = CLUSTERMSG_MIN_LEN + sizeof_gossip * length (m_gossip m) \<and> unat (m_count m) = length (m_gossip m) \<and>
    clusterPacketLengthOk m (unat (m_totlen m))"
proof -
  obtain s1 hdr g where s1: "c_out s1 = c_out s" "m_type hdr = type" "m_ver hdr = 1" "length g \<le> max 3 (length (c_nodes s) div 10) + length (c_nodes s)"
    "clusterSendPing b link link_node type s = Some (emit (Send_message link
      (hdr\<lparr>m_totlen := of_nat (CLUSTERMSG_MIN_LEN + sizeof_gossip * length g), m_count := of_nat (length g), m_gossip := g\<rparr>)) s1)"
    using clusterSendPing_runs [OF ok ln, of type b link] by blast
  have len: "length g < 65536" using s1(4) n by linarith
  let ?m = "hdr\<lparr>m_totlen := of_nat (CLUSTERMSG_MIN_LEN + sizeof_gossip * length g), m_count := of_nat (length g), m_gossip := g\<rparr>"
  have "c_out (emit (Send_message link ?m) s1) = c_out s @ [Send_message link ?m]" by (simp add: emit_def s1(1))
  moreover have "unat (m_totlen ?m) = CLUSTERMSG_MIN_LEN + sizeof_gossip * length g" using explen_gossip(2) [OF len] by simp
  moreover have "unat (m_count ?m) = length (m_gossip ?m)" using len by (simp add: unat_of_nat)
  moreover have "clusterPacketLengthOk ?m (unat (m_totlen ?m))"
    using type s1(2,3) explen_gossip [OF len] by (auto simp: clusterPacketLengthOk_def Let_def word_less_nat_alt sizes)
  ultimately show ?thesis using s1(5) by fastforce
qed

definition demo_bus :: bus_env where
  "demo_bus = \<lparr>b_env = demo_env, b_mstime = 0, b_announce_ip = None, b_announce_port = 0, b_announce_bus_port = 0, b_port = 6379,
     b_master_repl_offset = 0, b_random = \<lambda>_ k. k, b_alloc = \<lambda>h. LEAST n. h n = None, b_name = \<lambda>ns. concat (map fst ns) @ [0],
     b_inet = Some, b_peer_ip = [49], b_sock_ip = None, b_subscribers = True, b_connect = \<lambda>_. None, b_masterhost = False\<rparr>"

theorem clusterSendPing_accepted_witness:
  "\<exists>s' m. clusterSendPing demo_bus 5 (Some 1) CLUSTERMSG_TYPE_PING demo_pair = Some s' \<and> c_out s' = c_out demo_pair @ [Send_message 5 m] \<and>
    unat (m_totlen m) = CLUSTERMSG_MIN_LEN + sizeof_gossip * length (m_gossip m) \<and> unat (m_count m) = length (m_gossip m) \<and>
    clusterPacketLengthOk m (unat (m_totlen m))"
  using demo_pair_ok(6) by (intro clusterSendPing_accepted) (auto simp: demo_pair_ok)

section \<open>Published messages\<close>

lemma publish_len:
  assumes "2264 + length channel + length message < 2 ^ 32"
  shows "unat (of_nat (length channel) :: u32) = length channel" "unat (of_nat (length message) :: u32) = length message"
    "unat (of_nat CLUSTERMSG_MIN_LEN + of_nat sizeof_publish - 8 + of_nat (length channel) + of_nat (length message) :: u32) =
      2264 + length channel + length message"
proof -
  show "unat (of_nat (length channel) :: u32) = length channel" "unat (of_nat (length message) :: u32) = length message"
    unfolding unat_of_nat using assms by simp_all
  have "(of_nat CLUSTERMSG_MIN_LEN + of_nat sizeof_publish - 8 + of_nat (length channel) + of_nat (length message) :: u32) =
      of_nat (2264 + length channel + length message)" by (simp add: sizes)
  moreover have "unat (of_nat (2264 + length channel + length message) :: u32) = 2264 + length channel + length message"
    unfolding unat_of_nat using assms by simp
  ultimately show "unat (of_nat CLUSTERMSG_MIN_LEN + of_nat sizeof_publish - 8 + of_nat (length channel) + of_nat (length message) :: u32) =
      2264 + length channel + length message" by simp
qed

text \<open>
  (C28) A message that is published fits the 32-bit length of a packet, passes the check of its receiver, and the receiver reads back
  the same channel and message, as long as the whole packet is shorter than four gigabytes.
\<close>

theorem publish_roundtrip:
  assumes "cluster_ok s" "2264 + length channel + length message < 2 ^ 32"
  shows "\<exists>m. clusterSendPublish b channel message s = Some m \<and> unat (m_totlen m) = 2264 + length (m_bulk_data m) \<and>
    clusterPacketLengthOk m (unat (m_totlen m)) \<and> publish_payload m = Some (channel, message)"
proof -
  obtain hdr where hdr: "clusterBuildMessageHdr b CLUSTERMSG_TYPE_PUBLISH s = Some hdr" "m_type hdr = CLUSTERMSG_TYPE_PUBLISH" "m_ver hdr = 1"
    using clusterBuildMessageHdr_some [OF assms(1)] by blast
  note l = publish_len [OF assms(2)]
  let ?t = "of_nat CLUSTERMSG_MIN_LEN + of_nat sizeof_publish - 8 + of_nat (length channel) + of_nat (length message) :: u32"
  let ?m = "hdr\<lparr>m_totlen := ?t, m_channel_len := of_nat (length channel), m_message_len := of_nat (length message), m_bulk_data := channel @ message\<rparr>"
  have "clusterSendPublish b channel message s = Some ?m" by (simp add: clusterSendPublish_def hdr)
  moreover have "unat (m_totlen ?m) = 2264 + length (m_bulk_data ?m)" using l(3) by simp
  moreover have "\<not> ?t < 16" using l(3) by (simp add: word_less_nat_alt)
  then have "clusterPacketLengthOk ?m (unat (m_totlen ?m))"
    using hdr(2,3) by (simp add: clusterPacketLengthOk_def Let_def CLUSTERMSG_TYPE_PING_def CLUSTERMSG_TYPE_PONG_def CLUSTERMSG_TYPE_MEET_def
        CLUSTERMSG_TYPE_FAIL_def CLUSTERMSG_TYPE_PUBLISH_def)
  moreover have "publish_payload ?m = Some (channel, message)" using l(1,2) by (simp add: publish_payload_def)
  ultimately show ?thesis by blast
qed

theorem publish_roundtrip_witness:
  "\<exists>m. clusterSendPublish demo_bus [99, 104] [104, 105, 33] demo_pair = Some m \<and> unat (m_totlen m) = 2264 + length (m_bulk_data m) \<and>
    clusterPacketLengthOk m (unat (m_totlen m)) \<and> publish_payload m = Some ([99, 104], [104, 105, 33])"
  by (rule publish_roundtrip) (simp_all add: demo_pair_ok)

text \<open>
  (C34) The check of the length of a \<open>PUBLISH\<close> is computed with 32 bits and wraps: a packet without any data passes it although it claims a channel of four
  gigabytes, and the receiver reads past its end.
\<close>

theorem publish_length_wraps:
  "\<exists>m. m_type m = CLUSTERMSG_TYPE_PUBLISH \<and> unat (m_totlen m) = 2264 \<and> m_bulk_data m = [] \<and> clusterPacketLengthOk m 2264 \<and>
     unat (m_channel_len m) = 2 ^ 32 - 1 \<and> publish_payload m = None"
proof (intro exI conjI)
  let ?m = "\<lparr>m_totlen = 2264, m_ver = 1, m_port = 0, m_type = CLUSTERMSG_TYPE_PUBLISH, m_count = 0, m_currentEpoch = 0, m_configEpoch = 0,
    m_offset = 0, m_sender = [], m_myslots = [], m_slaveof = [], m_myip = [], m_cport = 0, m_flags = 0, m_state = CLUSTER_OK, m_mflags = 0,
    m_gossip = [], m_fail_nodename = [], m_channel_len = 4294967295, m_message_len = 1, m_bulk_data = [], m_update_configEpoch = 0,
    m_update_nodename = [], m_update_slots = []\<rparr>"
  show "m_type ?m = CLUSTERMSG_TYPE_PUBLISH" "unat (m_totlen ?m) = 2264" "m_bulk_data ?m = []" "unat (m_channel_len ?m) = 2 ^ 32 - 1"
    "publish_payload ?m = None" by (simp_all add: publish_payload_def)
  show "clusterPacketLengthOk ?m 2264"
    by (simp add: clusterPacketLengthOk_def Let_def sizes CLUSTERMSG_TYPE_PING_def CLUSTERMSG_TYPE_PONG_def CLUSTERMSG_TYPE_MEET_def
        CLUSTERMSG_TYPE_FAIL_def CLUSTERMSG_TYPE_PUBLISH_def)
qed

end
