(* ===== verification/Cluster_Bus.thy ===== *)
theory Cluster_Bus
  imports Cluster_Message
begin

text \<open>
  What a node does with a message of the cluster bus (\<open>clusterProcessPacket\<close> and the functions that it calls): handshakes, gossip, the address and the role
  of the sender, its slots, failures, votes and manual failovers. A link is a number; the node that a link belongs to, if any, is an argument.
\<close>

unbundle bit_operations_syntax

section \<open>Handshakes\<close>

definition clusterHandshakeInProgress :: "byte list \<Rightarrow> int \<Rightarrow> int \<Rightarrow> clusterState \<Rightarrow> bool option" where
  "clusterHandshakeInProgress ip port cport s = do {
     nodes \<leftarrow> those (map (\<lambda>e. c_heap s (snd e)) (c_nodes s));
     Some (\<exists>x \<in> set nodes. nodeInHandshake x \<and> strcaseeq (cn_ip x) ip \<and> cn_port x = port \<and> cn_cport x = cport)
   }"

datatype handshake = Handshake_started | Handshake_EAGAIN | Handshake_EINVAL

definition clusterStartHandshake :: "bus_env \<Rightarrow> byte list \<Rightarrow> int \<Rightarrow> int \<Rightarrow> clusterState \<Rightarrow> (clusterState \<times> handshake) option" where
  "clusterStartHandshake b ip port cport s = (case b_inet b ip of
     None \<Rightarrow> Some (s, Handshake_EINVAL)
   | Some norm_ip \<Rightarrow>
       if port \<le> 0 \<or> port > 65535 \<or> cport \<le> 0 \<or> cport > 65535 then Some (s, Handshake_EINVAL)
       else do {
         busy \<leftarrow> clusterHandshakeInProgress norm_ip port cport s;
         if busy then Some (s, Handshake_EAGAIN)
         else do {
           let n = b_alloc b (c_heap s);
           let s = createClusterNode n (b_name b (c_nodes s)) (CLUSTER_NODE_HANDSHAKE OR CLUSTER_NODE_MEET) s;
           s \<leftarrow> set_node n (\<lambda>x. x\<lparr>cn_ip := norm_ip, cn_port := port, cn_cport := cport\<rparr>) s;
           (s, _) \<leftarrow> clusterAddNode n s;
           Some (s, Handshake_started)
         }
       })"

text \<open>\<open>freeClusterLink\<close> on the link of a node: a link that belongs to a node refers back to it.\<close>

definition freeNodeLink :: "nid \<Rightarrow> clusterState \<Rightarrow> clusterState option" where
  "freeNodeLink n s = do {
     x \<leftarrow> c_heap s n;
     case cn_link x of
       None \<Rightarrow> Some s
     | Some k \<Rightarrow> set_node n (\<lambda>x. x\<lparr>cn_link := None\<rparr>) (emit (Free_link k) s)
   }"

section \<open>Gossip\<close>

definition gossip_report :: "nid option \<Rightarrow> nid \<Rightarrow> u16 \<Rightarrow> clusterState \<Rightarrow> clusterState option" where
  "gossip_report sender node flags s = (case sender of
     None \<Rightarrow> Some s
   | Some sn \<Rightarrow> do {
       x \<leftarrow> c_heap s sn;
       if nodeIsMaster x \<and> node \<noteq> c_myself s then
         if ucast flags AND (CLUSTER_NODE_FAIL OR CLUSTER_NODE_PFAIL) \<noteq> 0 then do {
           (s, _) \<leftarrow> clusterNodeAddFailureReport node sn s;
           markNodeAsFailingIfNeeded node s
         } else map_option fst (clusterNodeDelFailureReport node sn s)
       else Some s
     })"

definition gossip_pong :: "bus_env \<Rightarrow> nid \<Rightarrow> clusterMsgDataGossip \<Rightarrow> clusterState \<Rightarrow> clusterState option" where
  "gossip_pong b node g s = do {
     x \<leftarrow> c_heap s node;
     if ucast (g_flags g) AND (CLUSTER_NODE_FAIL OR CLUSTER_NODE_PFAIL) = 0 \<and> cn_ping_sent x = 0 then do {
       (s, count) \<leftarrow> clusterNodeFailureReportsCount node s;
       x \<leftarrow> c_heap s node;
       let pongtime = uint (g_pong_received g) * 1000;
       if count = 0 \<and> pongtime \<le> b_mstime b + 500 \<and> pongtime > cn_pong_received x
       then set_node node (\<lambda>x. x\<lparr>cn_pong_received := pongtime\<rparr>) s else Some s
     } else Some s
   }"

definition gossip_address :: "nid \<Rightarrow> clusterMsgDataGossip \<Rightarrow> clusterState \<Rightarrow> clusterState option" where
  "gossip_address node g s = do {
     x \<leftarrow> c_heap s node;
     if cn_flags x AND (CLUSTER_NODE_FAIL OR CLUSTER_NODE_PFAIL) \<noteq> 0 \<and>
        ucast (g_flags g) AND CLUSTER_NODE_NOADDR = 0 \<and>
        ucast (g_flags g) AND (CLUSTER_NODE_FAIL OR CLUSTER_NODE_PFAIL) = 0 \<and>
        (\<not> strcaseeq (cn_ip x) (g_ip g) \<or> cn_port x \<noteq> uint (g_port g) \<or> cn_cport x \<noteq> uint (g_cport g))
     then do {
       s \<leftarrow> freeNodeLink node s;
       set_node node (\<lambda>x. x\<lparr>cn_ip := g_ip g, cn_port := uint (g_port g), cn_cport := uint (g_cport g),
         cn_flags := cn_flags x AND NOT CLUSTER_NODE_NOADDR\<rparr>) s
     } else Some s
   }"

definition gossip_entry :: "bus_env \<Rightarrow> nid option \<Rightarrow> clusterMsgDataGossip \<Rightarrow> clusterState \<Rightarrow> clusterState option" where
  "gossip_entry b sender g s = (case clusterLookupNode (g_nodename g) s of
     Some node \<Rightarrow> do {
       s \<leftarrow> gossip_report sender node (g_flags g) s;
       s \<leftarrow> gossip_pong b node g s;
       gossip_address node g s
     }
   | None \<Rightarrow>
       if sender \<noteq> None \<and> ucast (g_flags g) AND CLUSTER_NODE_NOADDR = 0 then
         (let (s, listed) = clusterBlacklistExists (b_env b) (g_nodename g) s in
          if listed then Some s
          else map_option fst (clusterStartHandshake b (g_ip g) (uint (g_port g)) (uint (g_cport g)) s))
       else Some s)"

definition clusterProcessGossipSection :: "bus_env \<Rightarrow> clusterMsg \<Rightarrow> nid option \<Rightarrow> clusterState \<Rightarrow> clusterState option" where
  "clusterProcessGossipSection b hdr link_node s =
     (let sender = (case link_node of Some n \<Rightarrow> Some n | None \<Rightarrow> clusterLookupNode (m_sender hdr) s) in
      if unat (m_count hdr) \<le> length (m_gossip hdr)
      then foldM (gossip_entry b sender) (take (unat (m_count hdr)) (m_gossip hdr)) s
      else None)"

section \<open>Addresses\<close>

definition nodeIp2String :: "bus_env \<Rightarrow> byte list \<Rightarrow> byte list" where
  "nodeIp2String b announced_ip = (if announced_ip \<noteq> [] then take 45 announced_ip else b_peer_ip b)"

definition nodeUpdateAddressIfNeeded ::
    "bus_env \<Rightarrow> nid \<Rightarrow> nat \<Rightarrow> clusterMsg \<Rightarrow> clusterState \<Rightarrow> (clusterState \<times> bool) option" where
  "nodeUpdateAddressIfNeeded b node link hdr s = do {
     x \<leftarrow> c_heap s node;
     let port = uint (m_port hdr);
     let cport = uint (m_cport hdr);
     if cn_link x = Some link then Some (s, False)
     else do {
       let ip = nodeIp2String b (m_myip hdr);
       if cn_port x = port \<and> cn_cport x = cport \<and> ip = cn_ip x then Some (s, False)
       else do {
         s \<leftarrow> set_node node (\<lambda>x. x\<lparr>cn_ip := ip, cn_port := port, cn_cport := cport\<rparr>) s;
         s \<leftarrow> freeNodeLink node s;
         s \<leftarrow> set_node node (\<lambda>x. x\<lparr>cn_flags := cn_flags x AND NOT CLUSTER_NODE_NOADDR\<rparr>) s;
         me \<leftarrow> c_heap s (c_myself s);
         Some (if nodeIsSlave me \<and> cn_slaveof me = Some node then emit (Replication_set_master ip port) s else s, True)
       }
     }
   }"

section \<open>Packets\<close>

text \<open>What any message of a known sender tells: newer epochs and its replication offset.\<close>

definition packet_epochs :: "clusterMsg \<Rightarrow> nid \<Rightarrow> clusterState \<Rightarrow> clusterState option" where
  "packet_epochs hdr sn s = do {
     x \<leftarrow> c_heap s sn;
     me \<leftarrow> c_heap s (c_myself s);
     let s = (if m_currentEpoch hdr > c_currentEpoch s then s\<lparr>c_currentEpoch := m_currentEpoch hdr\<rparr> else s);
     s \<leftarrow> (if m_configEpoch hdr > cn_configEpoch x
       then map_option (clusterDoBeforeSleep (CLUSTER_TODO_SAVE_CONFIG OR CLUSTER_TODO_FSYNC_CONFIG))
         (set_node sn (\<lambda>x. x\<lparr>cn_configEpoch := m_configEpoch hdr\<rparr>) s)
       else Some s);
     let (now, s) = mstime s;
     s \<leftarrow> set_node sn (\<lambda>x. x\<lparr>cn_repl_offset := sint (m_offset hdr), cn_repl_offset_time := now\<rparr>) s;
     Some (if c_mf_end s \<noteq> 0 \<and> nodeIsSlave me \<and> cn_slaveof me = Some sn \<and>
              m_mflags hdr AND CLUSTERMSG_FLAG0_PAUSED \<noteq> 0 \<and> c_mf_master_offset s = 0
           then s\<lparr>c_mf_master_offset := sint (m_offset hdr)\<rparr> else s)
   }"

text \<open>\<open>PING\<close> and \<open>MEET\<close>: learn the own address, add an unknown sender that wants to meet, and reply.\<close>

definition packet_ping :: "bus_env \<Rightarrow> nat \<Rightarrow> nid option \<Rightarrow> clusterMsg \<Rightarrow> nid option \<Rightarrow> clusterState \<Rightarrow> clusterState option" where
  "packet_ping b link link_node hdr sender s = do {
     me \<leftarrow> c_heap s (c_myself s);
     s \<leftarrow> (if (m_type hdr = CLUSTERMSG_TYPE_MEET \<or> cn_ip me = []) \<and> b_announce_ip b = None
       then (case b_sock_ip b of
           Some ip \<Rightarrow> if ip \<noteq> cn_ip me
             then map_option (clusterDoBeforeSleep CLUSTER_TODO_SAVE_CONFIG) (set_node (c_myself s) (\<lambda>x. x\<lparr>cn_ip := ip\<rparr>) s)
             else Some s
         | None \<Rightarrow> Some s)
       else Some s);
     s \<leftarrow> (if sender = None \<and> m_type hdr = CLUSTERMSG_TYPE_MEET then do {
         let n = b_alloc b (c_heap s);
         let s = createClusterNode n (b_name b (c_nodes s)) CLUSTER_NODE_HANDSHAKE s;
         s \<leftarrow> set_node n (\<lambda>x. x\<lparr>cn_ip := nodeIp2String b (m_myip hdr), cn_port := uint (m_port hdr), cn_cport := uint (m_cport hdr)\<rparr>) s;
         (s, _) \<leftarrow> clusterAddNode n s;
         let s = clusterDoBeforeSleep CLUSTER_TODO_SAVE_CONFIG s;
         clusterProcessGossipSection b hdr link_node s
       } else Some s);
     clusterSendPing b link link_node CLUSTERMSG_TYPE_PONG s
   }"

text \<open>The node of the link: end of a handshake, or a sender with another name. The result says whether the link still exists.\<close>

definition packet_link_node ::
    "bus_env \<Rightarrow> nat \<Rightarrow> nid \<Rightarrow> clusterMsg \<Rightarrow> nid option \<Rightarrow> clusterState \<Rightarrow> (clusterState \<times> bool) option" where
  "packet_link_node b link n hdr sender s = do {
     x \<leftarrow> c_heap s n;
     if nodeInHandshake x then
       (case sender of
          Some sn \<Rightarrow> do {
            (s, updated) \<leftarrow> nodeUpdateAddressIfNeeded b sn link hdr s;
            let s = (if updated then clusterDoBeforeSleep (CLUSTER_TODO_SAVE_CONFIG OR CLUSTER_TODO_UPDATE_STATE) s else s);
            s \<leftarrow> clusterDelNode n s;
            Some (s, False)
          }
        | None \<Rightarrow> do {
            s \<leftarrow> clusterRenameNode n (m_sender hdr) s;
            s \<leftarrow> set_node n (\<lambda>x. x\<lparr>cn_flags := cn_flags x AND NOT CLUSTER_NODE_HANDSHAKE\<rparr>) s;
            s \<leftarrow> set_node n (\<lambda>x. x\<lparr>cn_flags := cn_flags x OR
              (ucast (m_flags hdr) AND (CLUSTER_NODE_MASTER OR CLUSTER_NODE_SLAVE))\<rparr>) s;
            Some (clusterDoBeforeSleep CLUSTER_TODO_SAVE_CONFIG s, True)
          })
     else if cn_name x \<noteq> m_sender hdr then do {
       s \<leftarrow> set_node n (\<lambda>x. x\<lparr>cn_flags := cn_flags x OR CLUSTER_NODE_NOADDR, cn_ip := [], cn_port := 0, cn_cport := 0\<rparr>) s;
       s \<leftarrow> set_node n (\<lambda>x. x\<lparr>cn_link := None\<rparr>) (emit (Free_link link) s);
       Some (clusterDoBeforeSleep CLUSTER_TODO_SAVE_CONFIG s, False)
     } else Some (s, True)
   }"

definition packet_pong :: "nid \<Rightarrow> clusterState \<Rightarrow> clusterState option" where
  "packet_pong n s = do {
     let (now, s) = mstime s;
     s \<leftarrow> set_node n (\<lambda>x. x\<lparr>cn_pong_received := now, cn_ping_sent := 0\<rparr>) s;
     x \<leftarrow> c_heap s n;
     if nodeTimedOut x
     then map_option (clusterDoBeforeSleep (CLUSTER_TODO_SAVE_CONFIG OR CLUSTER_TODO_UPDATE_STATE))
       (set_node n (\<lambda>x. x\<lparr>cn_flags := cn_flags x AND NOT CLUSTER_NODE_PFAIL\<rparr>) s)
     else if nodeFailed x then clearNodeFailureIfNeeded n s
     else Some s
   }"

definition packet_role :: "clusterMsg \<Rightarrow> nid \<Rightarrow> clusterState \<Rightarrow> clusterState option" where
  "packet_role hdr sn s =
     (if m_slaveof hdr = replicate 40 0 then clusterSetNodeAsMaster sn s
      else do {
        let master = clusterLookupNode (m_slaveof hdr) s;
        x \<leftarrow> c_heap s sn;
        s \<leftarrow> (if nodeIsMaster x then do {
            (s, _) \<leftarrow> clusterDelNodeSlots sn s;
            s \<leftarrow> set_node sn (\<lambda>x. x\<lparr>cn_flags :=
              (cn_flags x AND NOT (CLUSTER_NODE_MASTER OR CLUSTER_NODE_MIGRATE_TO)) OR CLUSTER_NODE_SLAVE\<rparr>) s;
            Some (clusterDoBeforeSleep (CLUSTER_TODO_SAVE_CONFIG OR CLUSTER_TODO_UPDATE_STATE) s)
          } else Some s);
        x \<leftarrow> c_heap s sn;
        case master of
          None \<Rightarrow> Some s
        | Some m \<Rightarrow>
            if cn_slaveof x = Some m then Some s
            else do {
              s \<leftarrow> (case cn_slaveof x of Some old \<Rightarrow> map_option fst (clusterNodeRemoveSlave old sn s) | None \<Rightarrow> Some s);
              (s, _) \<leftarrow> clusterNodeAddSlave m sn s;
              s \<leftarrow> set_node sn (\<lambda>x. x\<lparr>cn_slaveof := Some m\<rparr>) s;
              Some (clusterDoBeforeSleep CLUSTER_TODO_SAVE_CONFIG s)
            }
      })"

text \<open>The first slot that the sender claims and that another node serves with a greater epoch.\<close>

primrec stale_claim :: "nat list \<Rightarrow> clusterMsg \<Rightarrow> nid \<Rightarrow> u64 \<Rightarrow> clusterState \<Rightarrow> nid option option" where
  "stale_claim [] hdr sn epoch s = Some None"
| "stale_claim (j # js) hdr sn epoch s = do {
     claimed \<leftarrow> bitmapTestBit (m_myslots hdr) j;
     if \<not> claimed \<or> c_slots s j = Some sn then stale_claim js hdr sn epoch s
     else case c_slots s j of
       None \<Rightarrow> stale_claim js hdr sn epoch s
     | Some n \<Rightarrow> do {
         x \<leftarrow> c_heap s n;
         if cn_configEpoch x > epoch then Some (Some n) else stale_claim js hdr sn epoch s
       }
   }"

definition packet_slots :: "bus_env \<Rightarrow> clusterMsg \<Rightarrow> nid \<Rightarrow> u64 \<Rightarrow> clusterState \<Rightarrow> clusterState option" where
  "packet_slots b hdr sn senderConfigEpoch s = do {
     x \<leftarrow> c_heap s sn;
     dirty_slots \<leftarrow> (case (if nodeIsMaster x then Some sn else cn_slaveof x) of
        None \<Rightarrow> Some False
      | Some m \<Rightarrow> do { y \<leftarrow> c_heap s m; Some (cn_slots y \<noteq> m_myslots hdr) });
     s \<leftarrow> (if nodeIsMaster x \<and> dirty_slots
           then clusterUpdateSlotsConfigWith (b_env b) sn senderConfigEpoch (m_myslots hdr) s else Some s);
     if \<not> dirty_slots then Some s
     else do {
       stale \<leftarrow> stale_claim [0..<CLUSTER_SLOTS] hdr sn senderConfigEpoch s;
       x \<leftarrow> c_heap s sn;
       Some (case (stale, cn_link x) of (Some n, Some k) \<Rightarrow> emit (Send_update k n) s | _ \<Rightarrow> s)
     }
   }"

definition packet_collision :: "nid \<Rightarrow> u64 \<Rightarrow> clusterState \<Rightarrow> clusterState option" where
  "packet_collision sn senderConfigEpoch s = do {
     me \<leftarrow> c_heap s (c_myself s);
     x \<leftarrow> c_heap s sn;
     if nodeIsMaster me \<and> nodeIsMaster x \<and> senderConfigEpoch = cn_configEpoch me
     then clusterHandleConfigEpochCollision sn s else Some s
   }"

text \<open>\<open>PING\<close>, \<open>PONG\<close> and \<open>MEET\<close>.\<close>

definition packet_config ::
    "bus_env \<Rightarrow> nat \<Rightarrow> nid option \<Rightarrow> clusterMsg \<Rightarrow> nid option \<Rightarrow> u64 \<Rightarrow> clusterState \<Rightarrow> (clusterState \<times> bool) option" where
  "packet_config b link link_node hdr sender senderConfigEpoch s = do {
     (s, alive) \<leftarrow> (case link_node of None \<Rightarrow> Some (s, True) | Some n \<Rightarrow> packet_link_node b link n hdr sender s);
     if \<not> alive then Some (s, False)
     else do {
       s \<leftarrow> (case sender of
          None \<Rightarrow> Some s
        | Some sn \<Rightarrow> do {
            x \<leftarrow> c_heap s sn;
            if m_type hdr = CLUSTERMSG_TYPE_PING \<and> \<not> nodeInHandshake x then do {
              (s, updated) \<leftarrow> nodeUpdateAddressIfNeeded b sn link hdr s;
              Some (if updated then clusterDoBeforeSleep (CLUSTER_TODO_SAVE_CONFIG OR CLUSTER_TODO_UPDATE_STATE) s else s)
            } else Some s
          });
       s \<leftarrow> (case link_node of
          Some n \<Rightarrow> if m_type hdr = CLUSTERMSG_TYPE_PONG then packet_pong n s else Some s
        | None \<Rightarrow> Some s);
       s \<leftarrow> (case sender of
          None \<Rightarrow> Some s
        | Some sn \<Rightarrow> do {
            s \<leftarrow> packet_role hdr sn s;
            s \<leftarrow> packet_slots b hdr sn senderConfigEpoch s;
            s \<leftarrow> packet_collision sn senderConfigEpoch s;
            clusterProcessGossipSection b hdr link_node s
          });
       Some (s, True)
     }
   }"

definition packet_fail :: "clusterMsg \<Rightarrow> clusterState \<Rightarrow> clusterState option" where
  "packet_fail hdr s = (case clusterLookupNode (m_fail_nodename hdr) s of
     None \<Rightarrow> Some s
   | Some n \<Rightarrow> do {
       x \<leftarrow> c_heap s n;
       if cn_flags x AND (CLUSTER_NODE_FAIL OR CLUSTER_NODE_MYSELF) = 0 then do {
         s \<leftarrow> set_node n (\<lambda>x. x\<lparr>cn_flags := cn_flags x OR CLUSTER_NODE_FAIL\<rparr>) s;
         let (now, s) = mstime s;
         s \<leftarrow> set_node n (\<lambda>x. x\<lparr>cn_fail_time := now, cn_flags := cn_flags x AND NOT CLUSTER_NODE_PFAIL\<rparr>) s;
         Some (clusterDoBeforeSleep (CLUSTER_TODO_SAVE_CONFIG OR CLUSTER_TODO_UPDATE_STATE) s)
       } else Some s
     })"

definition packet_auth_ack :: "nid \<Rightarrow> u64 \<Rightarrow> clusterState \<Rightarrow> clusterState option" where
  "packet_auth_ack sn senderCurrentEpoch s = do {
     x \<leftarrow> c_heap s sn;
     Some (if nodeIsMaster x \<and> cn_numslots x > 0 \<and> senderCurrentEpoch \<ge> c_failover_auth_epoch s
       then clusterDoBeforeSleep CLUSTER_TODO_HANDLE_FAILOVER (s\<lparr>c_failover_auth_count := c_failover_auth_count s + 1\<rparr>) else s)
   }"

definition packet_mfstart :: "bus_env \<Rightarrow> nid \<Rightarrow> clusterState \<Rightarrow> clusterState option" where
  "packet_mfstart b sn s = do {
     x \<leftarrow> c_heap s sn;
     if cn_slaveof x \<noteq> Some (c_myself s) then Some s
     else do {
       let s = resetManualFailover (e_paused (b_env b)) s;
       let (now, s) = mstime s;
       s \<leftarrow> Some (s\<lparr>c_mf_end := now + 5000, c_mf_slave := Some sn\<rparr>);
       let (now, s) = mstime s;
       Some (emit (Pause_clients (now + 5000 * 2)) s)
     }
   }"

definition packet_update :: "bus_env \<Rightarrow> clusterMsg \<Rightarrow> clusterState \<Rightarrow> clusterState option" where
  "packet_update b hdr s = (case clusterLookupNode (m_update_nodename hdr) s of
     None \<Rightarrow> Some s
   | Some n \<Rightarrow> do {
       x \<leftarrow> c_heap s n;
       if cn_configEpoch x \<ge> m_update_configEpoch hdr then Some s
       else do {
         s \<leftarrow> (if nodeIsSlave x then clusterSetNodeAsMaster n s else Some s);
         s \<leftarrow> set_node n (\<lambda>x. x\<lparr>cn_configEpoch := m_update_configEpoch hdr\<rparr>) s;
         let s = clusterDoBeforeSleep (CLUSTER_TODO_SAVE_CONFIG OR CLUSTER_TODO_FSYNC_CONFIG) s;
         clusterUpdateSlotsConfigWith (b_env b) n (m_update_configEpoch hdr) (m_update_slots hdr) s
       }
     })"

definition clusterProcessPacket ::
    "bus_env \<Rightarrow> nat \<Rightarrow> nid option \<Rightarrow> nat \<Rightarrow> clusterMsg \<Rightarrow> clusterState \<Rightarrow> (clusterState \<times> bool) option" where
  "clusterProcessPacket b link link_node rcvlen hdr s =
     (if \<not> clusterPacketLengthOk hdr rcvlen then Some (s, True)
      else do {
        let type = m_type hdr;
        let sender = clusterLookupNode (m_sender hdr) s;
        known \<leftarrow> (case sender of None \<Rightarrow> Some False | Some sn \<Rightarrow> do { x \<leftarrow> c_heap s sn; Some (\<not> nodeInHandshake x) });
        let senderCurrentEpoch = (if known then m_currentEpoch hdr else 0);
        let senderConfigEpoch = (if known then m_configEpoch hdr else 0);
        s \<leftarrow> (case sender of Some sn \<Rightarrow> if known then packet_epochs hdr sn s else Some s | None \<Rightarrow> Some s);
        s \<leftarrow> (if type = CLUSTERMSG_TYPE_PING \<or> type = CLUSTERMSG_TYPE_MEET then packet_ping b link link_node hdr sender s else Some s);
        if type = CLUSTERMSG_TYPE_PING \<or> type = CLUSTERMSG_TYPE_PONG \<or> type = CLUSTERMSG_TYPE_MEET
        then packet_config b link link_node hdr sender senderConfigEpoch s
        else if type = CLUSTERMSG_TYPE_PUBLISH then
          (if b_subscribers b then do { (channel, message) \<leftarrow> publish_payload hdr; Some (emit (Pubsub_publish channel message) s, True) }
           else Some (s, True))
        else map_option (\<lambda>s. (s, True)) (case sender of
            None \<Rightarrow> Some s
          | Some sn \<Rightarrow>
              if type = CLUSTERMSG_TYPE_FAIL then packet_fail hdr s
              else if type = CLUSTERMSG_TYPE_FAILOVER_AUTH_REQUEST then
                clusterSendFailoverAuthIfNeeded sn \<lparr>rq_currentEpoch = m_currentEpoch hdr, rq_configEpoch = m_configEpoch hdr,
                  rq_myslots = m_myslots hdr, rq_force_ack = (m_mflags hdr AND CLUSTERMSG_FLAG0_FORCEACK \<noteq> 0)\<rparr> s
              else if type = CLUSTERMSG_TYPE_FAILOVER_AUTH_ACK then packet_auth_ack sn senderCurrentEpoch s
              else if type = CLUSTERMSG_TYPE_MFSTART then packet_mfstart b sn s
              else if type = CLUSTERMSG_TYPE_UPDATE then packet_update b hdr s
              else Some s)
      })"

end
