(* ===== verification/Cluster_Cron.thy ===== *)
theory Cluster_Cron
  imports Cluster_Bus
begin

text \<open>
  The periodic work of a node (\<open>clusterCron\<close>) and what it does before it waits for events (\<open>clusterBeforeSleep\<close>). The loops over the nodes are
  given by their bodies.
\<close>

unbundle bit_operations_syntax

section \<open>Definitions\<close>

text \<open>The address of this node follows the configuration.\<close>

definition cron_announce_ip :: "bus_env \<Rightarrow> clusterState \<Rightarrow> clusterState option" where
  "cron_announce_ip b s =
     (let curr_ip = b_announce_ip b in
      if c_prev_ip s \<noteq> curr_ip
      then set_node (c_myself s) (\<lambda>x. x\<lparr>cn_ip := (case curr_ip of Some ip \<Rightarrow> take 45 ip | None \<Rightarrow> [])\<rparr>) (s\<lparr>c_prev_ip := curr_ip\<rparr>)
      else Some s)"

text \<open>The first loop: counts the nodes in \<open>PFAIL\<close> state, removes old handshakes and connects.\<close>

definition cron_connect :: "bus_env \<Rightarrow> int \<Rightarrow> int \<Rightarrow> nid \<Rightarrow> clusterState \<Rightarrow> clusterState option" where
  "cron_connect b now handshake_timeout node s = do {
     x \<leftarrow> c_heap s node;
     if cn_flags x AND (CLUSTER_NODE_MYSELF OR CLUSTER_NODE_NOADDR) \<noteq> 0 then Some s
     else do {
       let s = (if cn_flags x AND CLUSTER_NODE_PFAIL \<noteq> 0 then s\<lparr>c_stats_pfail_nodes := Suc (c_stats_pfail_nodes s)\<rparr> else s);
       if nodeInHandshake x \<and> now - cn_ctime x > handshake_timeout then clusterDelNode node s
       else if cn_link x \<noteq> None then Some s
       else case b_connect b node of
         None \<Rightarrow>
           if cn_ping_sent x = 0 then (let (now, s) = mstime s in set_node node (\<lambda>x. x\<lparr>cn_ping_sent := now\<rparr>) s) else Some s
       | Some link \<Rightarrow> do {
           let (ctime, s) = mstime s;
           s \<leftarrow> set_node node (\<lambda>x. x\<lparr>cn_link := Some link\<rparr>) (s\<lparr>c_link_ctime := (c_link_ctime s)(link := ctime)\<rparr>);
           let old_ping_sent = cn_ping_sent x;
           s \<leftarrow> clusterSendPing b link (Some node)
             (if cn_flags x AND CLUSTER_NODE_MEET \<noteq> 0 then CLUSTERMSG_TYPE_MEET else CLUSTERMSG_TYPE_PING) s;
           s \<leftarrow> (if old_ping_sent \<noteq> 0 then set_node node (\<lambda>x. x\<lparr>cn_ping_sent := old_ping_sent\<rparr>) s else Some s);
           set_node node (\<lambda>x. x\<lparr>cn_flags := cn_flags x AND NOT CLUSTER_NODE_MEET\<rparr>) s
         }
     }
   }"

text \<open>One of the random nodes of which the one with the oldest \<open>PONG\<close> is pinged.\<close>

definition cron_min_pong :: "bus_env \<Rightarrow> clusterState \<Rightarrow> nat \<Rightarrow> (nid \<times> int) option \<Rightarrow> (nid \<times> int) option option" where
  "cron_min_pong b s j min_pong = do {
     n \<leftarrow> random_node (b_random b (length (c_out s)) j) s;
     x \<leftarrow> c_heap s n;
     Some (if cn_link x = None \<or> cn_ping_sent x \<noteq> 0 then min_pong
       else if cn_flags x AND (CLUSTER_NODE_MYSELF OR CLUSTER_NODE_HANDSHAKE) \<noteq> 0 then min_pong
       else case min_pong of
         None \<Rightarrow> Some (n, cn_pong_received x)
       | Some (_, pong) \<Rightarrow> if pong > cn_pong_received x then Some (n, cn_pong_received x) else min_pong)
   }"

definition cron_ping_random :: "bus_env \<Rightarrow> clusterState \<Rightarrow> clusterState option" where
  "cron_ping_random b s =
     (if c_iteration s mod 10 = 0 then do {
        min_pong \<leftarrow> foldM (cron_min_pong b s) [0..<5] None;
        case min_pong of
          None \<Rightarrow> Some s
        | Some (n, _) \<Rightarrow> do {
            x \<leftarrow> c_heap s n;
            link \<leftarrow> cn_link x;
            clusterSendPing b link (Some n) CLUSTERMSG_TYPE_PING s
          }
      } else Some s)"

record cron_counts =
  k_orphaned_masters :: int
  k_max_slaves :: int
  k_this_slaves :: int
  k_update_state :: bool

text \<open>The counts of slaves that the migration of slaves depends on.\<close>

definition cron_count :: "nid \<Rightarrow> clusterState \<Rightarrow> cron_counts \<Rightarrow> cron_counts option" where
  "cron_count node s k = do {
     x \<leftarrow> c_heap s node;
     me \<leftarrow> c_heap s (c_myself s);
     if nodeIsSlave me \<and> nodeIsMaster x \<and> \<not> nodeFailed x then do {
       okslaves \<leftarrow> clusterCountNonFailingSlaves node s;
       let k = (if okslaves = 0 \<and> cn_numslots x > 0 \<and> cn_flags x AND CLUSTER_NODE_MIGRATE_TO \<noteq> 0
                then k\<lparr>k_orphaned_masters := k_orphaned_masters k + 1\<rparr> else k);
       let k = (if okslaves > k_max_slaves k then k\<lparr>k_max_slaves := okslaves\<rparr> else k);
       Some (if nodeIsSlave me \<and> cn_slaveof me = Some node then k\<lparr>k_this_slaves := okslaves\<rparr> else k)
     } else Some k
   }"

definition cron_delay :: "nid \<Rightarrow> int \<Rightarrow> cron_counts \<Rightarrow> clusterState \<Rightarrow> (clusterState \<times> cron_counts) option" where
  "cron_delay node now k s = do {
     x \<leftarrow> c_heap s node;
     if cn_ping_sent x = 0 then Some (s, k)
     else if now - cn_ping_sent x > c_node_timeout s \<and> cn_flags x AND (CLUSTER_NODE_PFAIL OR CLUSTER_NODE_FAIL) = 0
     then map_option (\<lambda>s. (s, k\<lparr>k_update_state := True\<rparr>))
       (set_node node (\<lambda>x. x\<lparr>cn_flags := cn_flags x OR CLUSTER_NODE_PFAIL\<rparr>) s)
     else Some (s, k)
   }"

text \<open>The second loop: links without an answer are closed, nodes are pinged, and a node that has not answered for too long is possibly failing.\<close>

definition cron_check :: "bus_env \<Rightarrow> nid \<Rightarrow> clusterState \<times> cron_counts \<Rightarrow> (clusterState \<times> cron_counts) option" where
  "cron_check b node st = (case st of (s, k) \<Rightarrow> do {
     let (now, s) = mstime s;
     x \<leftarrow> c_heap s node;
     if cn_flags x AND (CLUSTER_NODE_MYSELF OR CLUSTER_NODE_NOADDR OR CLUSTER_NODE_HANDSHAKE) \<noteq> 0 then Some (s, k)
     else do {
       k \<leftarrow> cron_count node s k;
       s \<leftarrow> (case cn_link x of
          Some link \<Rightarrow>
            if now - c_link_ctime s link > c_node_timeout s \<and> cn_ping_sent x \<noteq> 0 \<and> cn_pong_received x < cn_ping_sent x \<and>
               now - cn_ping_sent x > c_node_timeout s div 2
            then freeNodeLink node s else Some s
        | None \<Rightarrow> Some s);
       x \<leftarrow> c_heap s node;
       me \<leftarrow> c_heap s (c_myself s);
       case cn_link x of
         Some link \<Rightarrow>
           if cn_ping_sent x = 0 \<and> now - cn_pong_received x > c_node_timeout s div 2
           then map_option (\<lambda>s. (s, k)) (clusterSendPing b link (Some node) CLUSTERMSG_TYPE_PING s)
           else if c_mf_end s \<noteq> 0 \<and> nodeIsMaster me \<and> c_mf_slave s = Some node
           then map_option (\<lambda>s. (s, k)) (clusterSendPing b link (Some node) CLUSTERMSG_TYPE_PING s)
           else cron_delay node now k s
       | None \<Rightarrow> cron_delay node now k s
     }
   })"

definition nodeHasAddr :: "clusterNode \<Rightarrow> bool" where
  "nodeHasAddr n \<longleftrightarrow> cn_flags n AND CLUSTER_NODE_NOADDR = 0"

text \<open>The end of \<open>clusterCron\<close>: the work of a slave, and the state of the cluster.\<close>

definition cron_slave :: "bus_env \<Rightarrow> cron_counts \<Rightarrow> clusterState \<Rightarrow> clusterState option" where
  "cron_slave b k s = do {
     me \<leftarrow> c_heap s (c_myself s);
     s \<leftarrow> (case cn_slaveof me of
        Some m \<Rightarrow> do {
          x \<leftarrow> c_heap s m;
          Some (if nodeIsSlave me \<and> \<not> b_masterhost b \<and> nodeHasAddr x
                then emit (Replication_set_master (cn_ip x) (cn_port x)) s else s)
        }
      | None \<Rightarrow> Some s);
     let s = manualFailoverCheckTimeout (b_env b) s;
     me \<leftarrow> c_heap s (c_myself s);
     if nodeIsSlave me then do {
       let s = clusterHandleManualFailover (b_env b) s;
       s \<leftarrow> clusterHandleSlaveFailover (b_env b) s;
       if k_orphaned_masters k \<noteq> 0 \<and> k_max_slaves k \<ge> 2 \<and> k_this_slaves k = k_max_slaves k
       then clusterHandleSlaveMigration (b_env b) (k_max_slaves k) s else Some s
     } else Some s
   }"

definition clusterCron :: "bus_env \<Rightarrow> clusterState \<Rightarrow> clusterState option" where
  "clusterCron b s = do {
     let (now, s) = mstime s;
     s \<leftarrow> Some (s\<lparr>c_iteration := Suc (c_iteration s)\<rparr>);
     s \<leftarrow> cron_announce_ip b s;
     let handshake_timeout = (if c_node_timeout s < 1000 then 1000 else c_node_timeout s);
     s \<leftarrow> foldM (\<lambda>e. cron_connect b now handshake_timeout (snd e)) (c_nodes s) (s\<lparr>c_stats_pfail_nodes := 0\<rparr>);
     s \<leftarrow> cron_ping_random b s;
     (s, k) \<leftarrow> foldM (\<lambda>e. cron_check b (snd e)) (c_nodes s)
       (s, \<lparr>k_orphaned_masters = 0, k_max_slaves = 0, k_this_slaves = 0, k_update_state = False\<rparr>);
     s \<leftarrow> cron_slave b k s;
     if k_update_state k \<or> c_state s = CLUSTER_FAIL then clusterUpdateState (b_env b) s else Some s
   }"

definition clusterBeforeSleep :: "bus_env \<Rightarrow> clusterState \<Rightarrow> clusterState option" where
  "clusterBeforeSleep b s = do {
     s \<leftarrow> (if c_todo_before_sleep s AND CLUSTER_TODO_HANDLE_FAILOVER \<noteq> 0 then clusterHandleSlaveFailover (b_env b) s else Some s);
     s \<leftarrow> (if c_todo_before_sleep s AND CLUSTER_TODO_UPDATE_STATE \<noteq> 0 then clusterUpdateState (b_env b) s else Some s);
     let s = (if c_todo_before_sleep s AND CLUSTER_TODO_SAVE_CONFIG \<noteq> 0 then emit Save_config s else s);
     Some (s\<lparr>c_todo_before_sleep := 0\<rparr>)
   }"

end
