(* ===== verification/Cluster_Steps.thy ===== *)
theory Cluster_Steps
  imports Cluster_Keep
begin

text \<open>
  Rules for programs that may fail: \<open>succ m P\<close> says that \<open>m\<close> succeeds with a result that satisfies \<open>P\<close>. With them, the functions of
  \<open>Cluster_Failover\<close> are shown to keep the invariant. \<open>grows\<close> relates two consistent states of a node between which nodes were only added
  and roles may have changed.
\<close>

unbundle bit_operations_syntax

section \<open>Success\<close>

definition succ :: "'a option \<Rightarrow> ('a \<Rightarrow> bool) \<Rightarrow> bool" where
  "succ m P \<longleftrightarrow> (\<exists>y. m = Some y \<and> P y)"

lemma succ_Some [simp]: "succ (Some y) P \<longleftrightarrow> P y"
  by (simp add: succ_def)

lemma succ_None [simp]: "\<not> succ None P"
  by (simp add: succ_def)

lemma succ_bind: "succ m Q \<Longrightarrow> (\<And>y. Q y \<Longrightarrow> succ (f y) P) \<Longrightarrow> succ (Option.bind m f) P"
  by (auto simp: succ_def)

lemma succ_map: "succ m (\<lambda>y. P (g y)) \<Longrightarrow> succ (map_option g m) P"
  by (auto simp: succ_def)

lemma succ_weaken: "succ m Q \<Longrightarrow> (\<And>y. Q y \<Longrightarrow> P y) \<Longrightarrow> succ m P"
  by (auto simp: succ_def)

lemma succ_foldM:
  assumes "P s" "\<And>x t. x \<in> set xs \<Longrightarrow> P t \<Longrightarrow> succ (f x t) P"
  shows "succ (foldM f xs s) P"
  using foldM_total [of xs P f s] assms unfolding succ_def by blast

lemma succ_heap: "n \<in> dom h \<Longrightarrow> (\<And>x. h n = Some x \<Longrightarrow> succ (f x) P) \<Longrightarrow> succ (Option.bind (h n) f) P"
  by (auto simp: succ_def)

lemma succI: "m = Some y \<Longrightarrow> P y \<Longrightarrow> succ m P"
  by (simp add: succ_def)

section \<open>Calm steps\<close>

text \<open>What the danger of a failed assertion depends on: masters and slots. A calm step keeps the invariant and changes neither these nor any role.\<close>

definition calm :: "clusterState \<Rightarrow> clusterState \<Rightarrow> bool" where
  "calm s t \<longleftrightarrow> keeps s t \<and> masters t = masters s \<and> c_slots t = c_slots s"

lemma calm_refl: "cluster_ok s \<Longrightarrow> calm s s"
  by (simp add: calm_def keeps_refl)

lemma calm_trans: "calm s t \<Longrightarrow> calm t u \<Longrightarrow> calm s u"
  using keeps_trans by (auto simp: calm_def)

lemma calm_keeps: "calm s t \<Longrightarrow> keeps s t"
  by (simp add: calm_def)

lemmas calmD = keepsD [OF calm_keeps]

lemma calm_frame [simp]:
  "calm s (emit e t) = calm s t" "calm s (clusterDoBeforeSleep w t) = calm s t" "calm s (resetManualFailover p t) = calm s t"
  using keeps_emit [of s e t] keeps_todo [of s w t] keeps_reset [of s p t]
  by (simp_all add: calm_def masters_def) (simp_all add: emit_def clusterDoBeforeSleep_def resetManualFailover_def Let_def)

lemma keeps_fields:
  "keeps s (t\<lparr>c_currentEpoch := a\<rparr>) = keeps s t" "keeps s (t\<lparr>c_state := st\<rparr>) = keeps s t" "keeps s (t\<lparr>c_size := i\<rparr>) = keeps s t"
  "keeps s (t\<lparr>c_nodes_black_list := bl\<rparr>) = keeps s t" "keeps s (t\<lparr>c_failover_auth_time := i\<rparr>) = keeps s t"
  "keeps s (t\<lparr>c_failover_auth_count := i\<rparr>) = keeps s t" "keeps s (t\<lparr>c_failover_auth_sent := p\<rparr>) = keeps s t"
  "keeps s (t\<lparr>c_failover_auth_rank := i\<rparr>) = keeps s t" "keeps s (t\<lparr>c_failover_auth_epoch := a\<rparr>) = keeps s t"
  "keeps s (t\<lparr>c_cant_failover_reason := k\<rparr>) = keeps s t" "keeps s (t\<lparr>c_lastlog_time := i\<rparr>) = keeps s t"
  "keeps s (t\<lparr>c_mf_end := i\<rparr>) = keeps s t" "keeps s (t\<lparr>c_mf_slave := q\<rparr>) = keeps s t" "keeps s (t\<lparr>c_mf_master_offset := i\<rparr>) = keeps s t"
  "keeps s (t\<lparr>c_mf_can_start := p\<rparr>) = keeps s t" "keeps s (t\<lparr>c_lastVoteEpoch := a\<rparr>) = keeps s t"
  "keeps s (t\<lparr>c_todo_before_sleep := w\<rparr>) = keeps s t" "keeps s (t\<lparr>c_tick := k\<rparr>) = keeps s t"
  "keeps s (t\<lparr>c_stats_pfail_nodes := pf\<rparr>) = keeps s t" "keeps s (t\<lparr>c_iteration := k\<rparr>) = keeps s t"
  "keeps s (t\<lparr>c_prev_ip := ip\<rparr>) = keeps s t" "keeps s (t\<lparr>c_link_ctime := lc\<rparr>) = keeps s t"
  by (simp_all add: keeps_def roles_def cluster_ok_def slots_ok_def links_ok_def)

lemma calm_fields [simp]:
  "calm s (t\<lparr>c_currentEpoch := a\<rparr>) = calm s t" "calm s (t\<lparr>c_state := st\<rparr>) = calm s t" "calm s (t\<lparr>c_size := i\<rparr>) = calm s t"
  "calm s (t\<lparr>c_nodes_black_list := bl\<rparr>) = calm s t" "calm s (t\<lparr>c_failover_auth_time := i\<rparr>) = calm s t"
  "calm s (t\<lparr>c_failover_auth_count := i\<rparr>) = calm s t" "calm s (t\<lparr>c_failover_auth_sent := p\<rparr>) = calm s t"
  "calm s (t\<lparr>c_failover_auth_rank := i\<rparr>) = calm s t" "calm s (t\<lparr>c_failover_auth_epoch := a\<rparr>) = calm s t"
  "calm s (t\<lparr>c_cant_failover_reason := k\<rparr>) = calm s t" "calm s (t\<lparr>c_lastlog_time := i\<rparr>) = calm s t"
  "calm s (t\<lparr>c_mf_end := i\<rparr>) = calm s t" "calm s (t\<lparr>c_mf_slave := q\<rparr>) = calm s t" "calm s (t\<lparr>c_mf_master_offset := i\<rparr>) = calm s t"
  "calm s (t\<lparr>c_mf_can_start := p\<rparr>) = calm s t" "calm s (t\<lparr>c_lastVoteEpoch := a\<rparr>) = calm s t"
  "calm s (t\<lparr>c_todo_before_sleep := w\<rparr>) = calm s t" "calm s (t\<lparr>c_tick := k\<rparr>) = calm s t"
  "calm s (t\<lparr>c_stats_pfail_nodes := pf\<rparr>) = calm s t" "calm s (t\<lparr>c_iteration := k\<rparr>) = calm s t"
  "calm s (t\<lparr>c_prev_ip := ip\<rparr>) = calm s t" "calm s (t\<lparr>c_link_ctime := lc\<rparr>) = calm s t"
  by (simp_all add: calm_def keeps_fields masters_def)

lemma calm_mem: "calm s t \<Longrightarrow> n \<in> dom (c_heap s) \<Longrightarrow> n \<in> dom (c_heap t)"
  using calmD(2) by blast

lemma calm_me: "calm s t \<Longrightarrow> c_myself t \<in> dom (c_heap t)"
  using cluster_ok_me [OF calmD(1)] by blast

lemmas role_simps = links_of_def slots_of_def node_role_def flag_iff

lemma succ_set_node:
  assumes "calm s t" "n \<in> dom (c_heap s)"
    "\<And>x. links_of (f x) = links_of x" "\<And>x. slots_of (f x) = slots_of x" "\<And>x. node_role (f x) = node_role x"
  shows "succ (set_node n f t) (calm s)"
proof -
  obtain x where x: "c_heap t n = Some x" using calm_mem [OF assms(1,2)] by blast
  have nd: "n \<in> dom (c_heap t)" using x by blast
  obtain u where u: "set_node n f t = Some u" "keeps t u"
    using keeps_set_node [OF calmD(1) [OF assms(1)] nd assms(3-5)] by blast
  have e: "u = t\<lparr>c_heap := (c_heap t)(n \<mapsto> f x)\<rparr>" using u(1) x by (simp add: set_node_def)
  have "cn_slaveof (f x) = cn_slaveof x" using assms(3) [of x] by (simp add: links_of_def)
  then have "masters u = masters t" using x by (auto simp: masters_def e fun_eq_iff)
  then have "calm t u" using u(2) by (simp add: calm_def e)
  then show ?thesis using u(1) calm_trans [OF assms(1)] by (simp add: succ_def)
qed

lemma keepsI: "cluster_ok t \<Longrightarrow> same_tables s t \<Longrightarrow> roles t = roles s \<Longrightarrow> keeps s t"
  by (simp add: keeps_def same_tables_def)

lemma succ_reports_count:
  assumes "calm s t" "n \<in> dom (c_heap s)"
  shows "succ (clusterNodeFailureReportsCount n t) (\<lambda>(t', c). calm s t')"
proof -
  obtain t' c where t': "clusterNodeFailureReportsCount n t = Some (t', c)" "cluster_ok t'" "same_tables t t'" "roles t' = roles t"
    using clusterNodeFailureReportsCount_ok [OF calmD(1) [OF assms(1)] calm_mem [OF assms]] by blast
  have "calm t t'" using keepsI [OF t'(2-4)] reports_masters(2) [OF t'(1)] by (simp add: calm_def)
  then show ?thesis using t'(1) calm_trans [OF assms(1)] by (simp add: succ_def)
qed

lemma succ_add_report:
  assumes "calm s t" "n \<in> dom (c_heap s)" "m \<in> dom (c_heap s)"
  shows "succ (clusterNodeAddFailureReport n m t) (\<lambda>(t', c). calm s t')"
proof -
  obtain t' c where t': "clusterNodeAddFailureReport n m t = Some (t', c)" "cluster_ok t'" "same_tables t t'" "roles t' = roles t"
    using clusterNodeAddFailureReport_ok [OF calmD(1) [OF assms(1)] calm_mem [OF assms(1,2)] calm_mem [OF assms(1,3)]] by blast
  have "calm t t'" using keepsI [OF t'(2-4)] reports_masters(3) [OF t'(1)] by (simp add: calm_def)
  then show ?thesis using t'(1) calm_trans [OF assms(1)] by (simp add: succ_def)
qed

lemma succ_del_report:
  assumes "calm s t" "n \<in> dom (c_heap s)"
  shows "succ (clusterNodeDelFailureReport n m t) (\<lambda>(t', c). calm s t')"
proof -
  obtain x where x: "c_heap t n = Some x" using calm_mem [OF assms] by blast
  obtain t' b frs where t': "clusterNodeDelFailureReport n m t = Some (t', b)" "cluster_ok t'" "same_tables t t'"
    "c_heap t' = (c_heap t)(n \<mapsto> x\<lparr>cn_fail_reports := frs\<rparr>)"
    using clusterNodeDelFailureReport_ok [OF calmD(1) [OF assms(1)] x, of m] by blast
  have "roles t' = roles t" by (rule roles_upd [OF x t'(4)]) (simp add: role_simps)
  then have "calm t t'" using keepsI [OF t'(2,3)] reports_masters(4) [OF t'(1)] by (simp add: calm_def)
  then show ?thesis using t'(1) calm_trans [OF assms(1)] by (simp add: succ_def)
qed

section \<open>Failure detection and votes\<close>

lemma succ_mark:
  assumes k: "calm s t" and n: "n \<in> dom (c_heap s)"
  shows "succ (markNodeAsFailingIfNeeded n t) (calm s)"
proof -
  have me: "c_myself t' \<in> dom (c_heap t')" and nd: "n \<in> dom (c_heap t')" if "calm s t'" for t'
    using calm_me [OF that] calm_mem [OF that n] .
  show ?thesis
    unfolding markNodeAsFailingIfNeeded_def Let_def mstime_def prod.case
    by (auto simp: k intro!: succ_heap [OF nd [OF k]] succ_bind [OF succ_reports_count [OF k n]] succ_heap [OF me] succ_heap [OF nd]
        succ_bind [OF succ_set_node [OF _ n]] simp: role_simps bit_simps flag_defs)
qed

lemma succ_clear:
  assumes k: "calm s t" and n: "n \<in> dom (c_heap s)" and x: "c_heap t n = Some x" "nodeFailed x"
  shows "succ (clearNodeFailureIfNeeded n t) (calm s)"
proof -
  have nd: "n \<in> dom (c_heap t')" if "calm s t'" for t' using calm_mem [OF that n] .
  show ?thesis
    using x(2) unfolding clearNodeFailureIfNeeded_def Let_def mstime_def prod.case
    by (auto simp: k x(1) intro!: succ_bind [where Q = "calm s"] succ_map succ_heap [OF nd] succ_set_node [OF _ n] simp: role_simps bit_simps flag_defs)
qed

lemma claimed_slots_some:
  assumes "slots_ok s" "length (rq_myslots rq) = CLUSTER_SLOTS div 8" "\<And>j. j \<in> set js \<Longrightarrow> j < CLUSTER_SLOTS"
  shows "claimed_slots_ok js rq s \<noteq> None"
  using assms(3)
proof (induction js)
  case (Cons j js)
  have j: "j < CLUSTER_SLOTS" and IH: "claimed_slots_ok js rq s \<noteq> None" using Cons by simp_all
  obtain b where b: "bitmapTestBit (rq_myslots rq) j = Some b" using bitmapTestBit_iff [OF slot_in_bitmap [OF assms(2) j]] by blast
  show ?case
  proof (cases "c_slots s j")
    case None
    then show ?thesis using b IH by (simp del: not_None_eq)
  next
    case (Some n)
    then obtain x where "c_heap s n = Some x" using slot_owner [OF assms(1) j] by blast
    then show ?thesis using Some b IH by (simp del: not_None_eq)
  qed
qed simp

lemma claimed_slots_cong: "c_heap s' = c_heap s \<Longrightarrow> c_slots s' = c_slots s \<Longrightarrow> claimed_slots_ok js rq s' = claimed_slots_ok js rq s"
  by (induction js) (auto split: option.splits cong: if_cong)

lemma succ_vote:
  assumes k: "calm s t" and n: "n \<in> dom (c_heap s)" and len: "length (rq_myslots rq) = CLUSTER_SLOTS div 8"
  shows "succ (clusterSendFailoverAuthIfNeeded n rq t) (calm s)"
proof -
  note tok = calmD(1) [OF k]
  have lk: "links_ok t" and sl: "slots_ok t" using tok by (simp_all add: cluster_ok_def)
  obtain x me where x: "c_heap t n = Some x" and me: "c_heap t (c_myself t) = Some me" using calm_mem [OF k n] cluster_ok_me [OF tok] by blast
  show ?thesis
  proof (cases "cn_slaveof x")
    case None
    then show ?thesis using x me k by (simp add: clusterSendFailoverAuthIfNeeded_def)
  next
    case (Some m)
    obtain y where y: "c_heap t m = Some y" using links_okD(8) [OF lk x Some] by blast
    have md: "m \<in> dom (c_heap s)" using y calmD(2) [OF k] by blast
    have c: "claimed_slots_ok [0..<CLUSTER_SLOTS] rq (t\<lparr>c_tick := i\<rparr>) = claimed_slots_ok [0..<CLUSTER_SLOTS] rq t" for i
      by (rule claimed_slots_cong) simp_all
    obtain b where b: "claimed_slots_ok [0..<CLUSTER_SLOTS] rq t = Some b" using claimed_slots_some [OF sl len, of "[0..<CLUSTER_SLOTS]"] by auto
    show ?thesis using x me Some y k
      by (auto simp: clusterSendFailoverAuthIfNeeded_def mstime_def Let_def c b clusterSendFailoverAuth_def role_simps
          intro!: succ_set_node [OF _ md])
  qed
qed

end
