(* ===== verification/Cluster_Packet.thy ===== *)
theory Cluster_Packet
  imports Cluster_Bus Cluster_Steps
begin

text \<open>
  Processing a message of the cluster bus keeps the state consistent. Most steps are calm; handshakes add nodes, and a change of roles or of slots
  is tracked by \<open>stays\<close>: no node disappears and none goes back to a handshake.
\<close>

unbundle bit_operations_syntax

section \<open>Calm steps of the bus\<close>

lemma lookup_heap:
  assumes "cluster_ok s" "clusterLookupNode nm s = Some n"
  shows "n \<in> dom (c_heap s)"
proof -
  have "links_ok s" using assms(1) by (simp add: cluster_ok_def)
  moreover have "(nm, n) \<in> set (c_nodes s)" using assms(2) map_of_SomeD by (simp add: clusterLookupNode_def)
  ultimately show ?thesis using links_okD(2) by blast
qed

lemma calm_setting:
  assumes "calm s t" "n \<in> dom (c_heap s)" "\<And>x. links_of (f x) = links_of x" "\<And>x. slots_of (f x) = slots_of x" "\<And>x. node_role (f x) = node_role x"
    "\<And>u. calm s u \<Longrightarrow> succ (g u) P"
  shows "succ (Option.bind (set_node n f t) g) P"
  using succ_bind [OF succ_set_node [OF assms(1-5)]] assms(6) by blast

lemmas role_bits = role_simps bit_simps flag_defs

lemma succ_freeNodeLink:
  assumes "calm s t" "n \<in> dom (c_heap s)"
  shows "succ (freeNodeLink n t) (calm s)"
  unfolding freeNodeLink_def
  by (rule succ_heap [OF calm_mem [OF assms]]) (use assms in \<open>auto simp: role_bits intro!: succ_set_node split: option.split\<close>)

lemma succ_gossip_report:
  assumes k: "calm s t" and n: "n \<in> dom (c_heap s)" and sn: "\<And>m. sender = Some m \<Longrightarrow> m \<in> dom (c_heap s)"
  shows "succ (gossip_report sender n flags t) (calm s)"
proof (cases sender)
  case (Some m)
  then have m: "m \<in> dom (c_heap s)" using sn by simp
  show ?thesis
    unfolding gossip_report_def Some option.case
    by (rule succ_heap [OF calm_mem [OF k m]])
      (auto simp: k intro!: succ_bind [OF succ_add_report [OF k n m]] succ_mark [OF _ n] succ_map succ_weaken [OF succ_del_report [OF k n]])
qed (simp add: gossip_report_def k)

lemma succ_gossip_pong:
  assumes k: "calm s t" and n: "n \<in> dom (c_heap s)"
  shows "succ (gossip_pong b n g t) (calm s)"
  unfolding gossip_pong_def Let_def
  by (rule succ_heap [OF calm_mem [OF k n]])
    (auto simp: k intro!: succ_bind [OF succ_reports_count [OF k n]] succ_heap [OF calm_mem [OF _ n]] succ_set_node [OF _ n] simp: role_bits)

lemma succ_gossip_address:
  assumes k: "calm s t" and n: "n \<in> dom (c_heap s)"
  shows "succ (gossip_address n g t) (calm s)"
  unfolding gossip_address_def
  by (rule succ_heap [OF calm_mem [OF k n]])
    (auto simp: k intro!: succ_bind [OF succ_freeNodeLink [OF k n]] succ_set_node [OF _ n] simp: role_bits)

lemma succ_address:
  assumes k: "calm s t" and n: "n \<in> dom (c_heap s)"
  shows "succ (nodeUpdateAddressIfNeeded b n link hdr t) (\<lambda>(t', u). calm s t')"
  unfolding nodeUpdateAddressIfNeeded_def Let_def
  by (rule succ_heap [OF calm_mem [OF k n]])
    (auto simp: k role_bits intro!: calm_setting [OF _ n] succ_bind [OF succ_freeNodeLink [OF _ n]] succ_heap [OF calm_me])

lemma succ_packet_epochs:
  assumes k: "calm s t" and n: "n \<in> dom (c_heap s)"
  shows "succ (packet_epochs hdr n t) (calm s)"
  unfolding packet_epochs_def Let_def mstime_def prod.case
  by (rule succ_heap [OF calm_mem [OF k n]], rule succ_heap [OF calm_me [OF k]])
    (auto simp: k role_bits intro!: succ_bind [where Q = "calm s"] succ_map succ_set_node [OF _ n])

lemma succ_clear_all:
  assumes k: "calm s t" and n: "n \<in> dom (c_heap s)" and f: "\<forall>x. c_heap t n = Some x \<longrightarrow> nodeFailed x"
  shows "succ (clearNodeFailureIfNeeded n t) (calm s)"
  using calm_mem [OF k n] f succ_clear [OF k n] by blast

lemma succ_packet_pong:
  assumes k: "calm s t" and n: "n \<in> dom (c_heap s)"
  shows "succ (packet_pong n t) (calm s)"
  unfolding packet_pong_def Let_def mstime_def prod.case
  by (auto simp: k role_bits intro!: calm_setting [OF _ n] succ_heap [OF calm_mem [OF _ n]] succ_map succ_set_node [OF _ n]
      succ_clear_all [OF _ n])

lemma succ_packet_fail:
  assumes k: "calm s t"
  shows "succ (packet_fail hdr t) (calm s)"
proof (cases "clusterLookupNode (m_fail_nodename hdr) t")
  case (Some n)
  then have n: "n \<in> dom (c_heap s)" using lookup_heap [OF calmD(1) [OF k] Some] calmD(2) [OF k] by simp
  show ?thesis
    unfolding packet_fail_def Some option.case Let_def mstime_def prod.case
    by (rule succ_heap [OF calm_mem [OF k n]]) (auto simp: k role_bits intro!: calm_setting [OF _ n])
qed (simp add: packet_fail_def k)

lemma succ_packet_auth_ack:
  assumes k: "calm s t" and n: "n \<in> dom (c_heap s)"
  shows "succ (packet_auth_ack n epoch t) (calm s)"
  unfolding packet_auth_ack_def by (rule succ_heap [OF calm_mem [OF k n]]) (simp add: k)

lemma succ_packet_mfstart:
  assumes k: "calm s t" and n: "n \<in> dom (c_heap s)"
  shows "succ (packet_mfstart b n t) (calm s)"
  unfolding packet_mfstart_def Let_def mstime_def prod.case by (rule succ_heap [OF calm_mem [OF k n]]) (simp add: k)

lemma succ_collision:
  assumes k: "calm s t" and n: "n \<in> dom (c_heap s)"
  shows "succ (packet_collision n epoch t) (calm s)"
proof -
  have me: "c_myself t = c_myself s" "c_myself s \<in> dom (c_heap s)" using calmD(2,3) [OF k] calm_me [OF k] by simp_all
  show ?thesis
    unfolding packet_collision_def clusterHandleConfigEpochCollision_def
    by (rule succ_heap [OF calm_me [OF k]], rule succ_heap [OF calm_mem [OF k n]])
      (auto simp: k me(1) role_bits intro!: succ_heap [OF calm_mem [OF k n]] succ_heap [OF calm_me [OF k], unfolded me(1)] calm_setting [OF _ me(2)])
qed

lemma succ_ping:
  assumes k: "calm s t" and n: "\<And>m. link_node = Some m \<Longrightarrow> m \<in> dom (c_heap s)"
  shows "succ (clusterSendPing b link link_node type t) (calm s)"
proof -
  have ln: "case link_node of None \<Rightarrow> True | Some m \<Rightarrow> m \<in> dom (c_heap t)" using n calm_mem [OF k] by (auto split: option.split)
  obtain t1 m where t1: "(case link_node of
        Some n \<Rightarrow> if type = CLUSTERMSG_TYPE_PING
          then (let (now, s) = mstime t in set_node n (\<lambda>x. x\<lparr>cn_ping_sent := now\<rparr>) s) else Some t
      | None \<Rightarrow> Some t) = Some t1" "clusterSendPing b link link_node type t = Some (emit (Send_message link m) t1)"
    using clusterSendPing_runs [OF calmD(1) [OF k] ln, of type b link] by blast
  have "succ (case link_node of
        Some n \<Rightarrow> if type = CLUSTERMSG_TYPE_PING
          then (let (now, s) = mstime t in set_node n (\<lambda>x. x\<lparr>cn_ping_sent := now\<rparr>) s) else Some t
      | None \<Rightarrow> Some t) (calm s)"
    using n by (cases link_node) (simp_all add: k mstime_def role_bits succ_set_node)
  then show ?thesis unfolding t1 by simp
qed

section \<open>Slaves\<close>

text \<open>
  A slave knows its master, which is not in a handshake, and serves no slots. With an unknown master, or with slots of its own, the rebinding of slots can
  fail (theorem \<open>update_slots_crash\<close>).
\<close>

definition slave_ok :: "clusterState \<Rightarrow> bool" where
  "slave_ok s \<longleftrightarrow> (\<forall>a h. roles s (c_myself s) = Some (a, True, h) \<longrightarrow>
     (\<exists>m r1 r2. masters s (c_myself s) = Some (Some m) \<and> roles s m = Some (r1, r2, False)) \<and>
     (\<forall>j < CLUSTER_SLOTS. c_slots s j \<noteq> Some (c_myself s)))"

text \<open>A node in a handshake serves no slots.\<close>

definition hands_ok :: "clusterState \<Rightarrow> bool" where
  "hands_ok s \<longleftrightarrow> (\<forall>n a b j. roles s n = Some (a, b, True) \<longrightarrow> j < CLUSTER_SLOTS \<longrightarrow> c_slots s j \<noteq> Some n)"

definition bus_ok :: "clusterState \<Rightarrow> bool" where
  "bus_ok s \<longleftrightarrow> cluster_ok s \<and> role_ok s \<and> slave_ok s \<and> hands_ok s"

lemma hands_ok_mono:
  assumes "hands_ok s" "\<And>n a b. roles t n = Some (a, b, True) \<Longrightarrow> \<exists>a b. roles s n = Some (a, b, True)"
    "\<And>n a b j. j < CLUSTER_SLOTS \<Longrightarrow> roles t n = Some (a, b, True) \<Longrightarrow> c_slots t j = Some n \<Longrightarrow> c_slots s j = Some n"
  shows "hands_ok t"
  using assms unfolding hands_ok_def by metis

definition stays :: "clusterState \<Rightarrow> clusterState \<Rightarrow> bool" where
  "stays s t \<longleftrightarrow> bus_ok t \<and> c_myself t = c_myself s \<and> dom (c_heap s) \<subseteq> dom (c_heap t) \<and>
     (\<forall>n. (\<exists>a b. roles s n = Some (a, b, False)) \<longrightarrow> (\<exists>a b. roles t n = Some (a, b, False)))"

lemma staysD:
  assumes "stays s t"
  shows "bus_ok t" "cluster_ok t" "role_ok t" "slave_ok t" "c_myself t = c_myself s" "n \<in> dom (c_heap s) \<Longrightarrow> n \<in> dom (c_heap t)"
    "roles s n = Some (a, b, False) \<Longrightarrow> \<exists>a b. roles t n = Some (a, b, False)" "hands_ok t"
  using assms by (auto simp: stays_def bus_ok_def)

lemma stays_refl: "bus_ok s \<Longrightarrow> stays s s"
  by (auto simp: stays_def)

lemma stays_trans: "stays s t \<Longrightarrow> stays t u \<Longrightarrow> stays s u"
  unfolding stays_def by fastforce

lemma slave_ok_cong:
  "roles t = roles s \<Longrightarrow> masters t = masters s \<Longrightarrow> c_slots t = c_slots s \<Longrightarrow> c_myself t = c_myself s \<Longrightarrow> slave_ok t = slave_ok s"
  by (simp add: slave_ok_def)

lemma calm_stays:
  assumes b: "bus_ok s" and k: "calm s t"
  shows "stays s t"
proof -
  have r: "roles t = roles s" and m: "c_myself t = c_myself s" using calmD(3,5) [OF k] by simp_all
  have "slave_ok t" using b slave_ok_cong [OF r _ _ m] k by (simp add: bus_ok_def calm_def)
  moreover have "hands_ok t" using b k by (simp add: bus_ok_def hands_ok_def calm_def keeps_def)
  ultimately show ?thesis using b calmD(1,2) [OF k] role_ok_keeps [OF calm_keeps [OF k]] r m by (auto simp: stays_def bus_ok_def)
qed

lemma succ_calm:
  assumes "stays s t" "succ m (calm t)"
  shows "succ m (stays s)"
  using assms(2) by (rule succ_weaken) (rule stays_trans [OF assms(1) calm_stays [OF staysD(1) [OF assms(1)]]])

lemma calm_refl_stays: "stays s t \<Longrightarrow> calm t t"
  by (simp add: calm_refl staysD(2))

lemma stays_frame: "calm t t' \<Longrightarrow> stays s t \<Longrightarrow> stays s t'"
  using calm_stays staysD(1) stays_trans by blast

section \<open>New nodes\<close>

text \<open>What is asked of the allocator and of the random names: a new address is not in use, and neither is a new name.\<close>

definition bus_env_ok :: "bus_env \<Rightarrow> bool" where
  "bus_env_ok b \<longleftrightarrow> (\<forall>h. finite (dom h) \<longrightarrow> h (b_alloc b h) = None) \<and> (\<forall>ns. b_name b ns \<notin> fst ` set ns)"

lemma heap_finite:
  assumes "cluster_ok s"
  shows "finite (dom (c_heap s))"
proof -
  have "dom (c_heap s) = snd ` set (c_nodes s)"
    using links_okD(2) [of s] assms by (fastforce simp: cluster_ok_def image_iff)
  then show ?thesis by simp
qed

lemma new_node:
  assumes k: "stays s t" and b: "bus_env_ok b" and n: "n = b_alloc b (c_heap t)" and hs: "bit flags 5"
    and f: "\<And>x. links_of (f x) = links_of x" "\<And>x. slots_of (f x) = slots_of x" "\<And>x. node_role (f x) = node_role x"
  shows "\<exists>u v. set_node n f (createClusterNode n (b_name b (c_nodes t)) flags t) = Some u \<and> clusterAddNode n u = Some (v, True) \<and> stays s v \<and>
    c_nodes v = c_nodes t @ [(b_name b (c_nodes t), n)]"
proof -
  let ?nm = "b_name b (c_nodes t)"
  let ?c = "createClusterNode n ?nm flags t"
  have ok: "cluster_ok t" using staysD(2) [OF k] .
  have free: "c_heap t n = None" using b heap_finite [OF ok] by (simp add: n bus_env_ok_def)
  have nm: "clusterLookupNode ?nm t = None" using b by (simp add: clusterLookupNode_def map_of_eq_None_iff bus_env_ok_def)
  obtain x where x: "c_heap ?c = (c_heap t)(n \<mapsto> x)" "fresh_node x" "cn_name x = ?nm" "cn_flags x = flags" "cn_slaveof x = None"
    by (simp add: createClusterNode_def mstime_def Let_def fresh_node_def)
  have frame: "c_nodes ?c = c_nodes t" "c_myself ?c = c_myself t" "c_slots ?c = c_slots t"
      "c_importing_slots_from ?c = c_importing_slots_from t" "c_migrating_slots_to ?c = c_migrating_slots_to t"
    by (simp_all add: createClusterNode_def mstime_def Let_def)
  define u where "u = ?c\<lparr>c_heap := (c_heap t)(n \<mapsto> f x)\<rparr>"
  define v where "v = u\<lparr>c_nodes := c_nodes t @ [(?nm, n)]\<rparr>"
  have nmf: "cn_name (f x) = ?nm" using f(1) [of x] x(3) by (simp add: links_of_def)
  have 1: "set_node n f ?c = Some u" using x(1) by (simp add: set_node_def u_def)
  have 2: "clusterAddNode n u = Some (v, True)" using nm frame(1) nmf by (simp add: clusterAddNode_def clusterLookupNode_def u_def v_def)
  have fr: "fresh_node (f x)" using x(2) f(1) [of x] f(2) [of x] by (simp add: fresh_node_def links_of_def slots_of_def)
  have h: "c_heap v = (c_heap t)(n \<mapsto> f x)" "c_myself v = c_myself t" "c_slots v = c_slots t" using frame by (simp_all add: u_def v_def)
  have okv: "cluster_ok v" by (rule cluster_ok_new [OF ok free fr]) (use nm frame nmf in \<open>simp_all add: u_def v_def\<close>)
  have r: "roles v = (roles t)(n \<mapsto> node_role x)" using f(3) [of x] h by (auto simp: roles_def fun_eq_iff)
  have m: "masters v = (masters t)(n \<mapsto> cn_slaveof (f x))" using h by (auto simp: masters_def fun_eq_iff)
  have me: "n \<noteq> c_myself t" using cluster_ok_me [OF ok] free by auto
  have rx: "node_role x = (bit flags 0, bit flags 1, True)" using hs x(4) by (simp add: node_role_def flag_iff)
  have "role_ok v" using staysD(3) [OF k] me h(2) by (auto simp: role_ok_def r rx)
  moreover have nf: "roles t n = None" using free by (simp add: roles_def)
  have "slave_ok v" using staysD(4) [OF k] me h(2,3) nf by (auto simp: slave_ok_def r m)
  moreover have "hands_ok v"
  proof -
    have "c_slots t j \<noteq> Some n" if "j < CLUSTER_SLOTS" for j using slot_owner [of t j n] ok that free by (auto simp: cluster_ok_def)
    then show ?thesis using staysD(8) [OF k] by (auto simp: hands_ok_def r h(3))
  qed
  ultimately have "stays t v" using okv h me nf by (auto simp: stays_def bus_ok_def r)
  moreover have "c_nodes v = c_nodes t @ [(b_name b (c_nodes t), n)]" by (simp add: v_def)
  ultimately show ?thesis using 1 2 stays_trans [OF k] by blast
qed

text \<open>\<open>grows nm\<close>: moreover, no node got the name \<open>nm\<close>.\<close>

definition grows :: "byte list \<Rightarrow> clusterState \<Rightarrow> clusterState \<Rightarrow> bool" where
  "grows nm s t \<longleftrightarrow> stays s t \<and> (clusterLookupNode nm s = None \<longrightarrow> clusterLookupNode nm t = None)"

lemma growsD: "grows nm s t \<Longrightarrow> stays s t"
  by (simp add: grows_def)

lemma grows_refl: "bus_ok s \<Longrightarrow> grows nm s s"
  by (simp add: grows_def stays_refl)

lemma grows_trans: "grows nm s t \<Longrightarrow> grows nm t u \<Longrightarrow> grows nm s u"
  using stays_trans by (auto simp: grows_def)

lemma grows_frame: "calm t t' \<Longrightarrow> grows nm s t \<Longrightarrow> grows nm s t'"
  using stays_frame [of t t' s] calmD(6) [of t t'] by (auto simp: grows_def clusterLookupNode_def)

lemma succ_grows:
  assumes "grows nm s t" "succ m (calm t)"
  shows "succ m (grows nm s)"
  using assms(2) by (rule succ_weaken) (rule grows_frame [OF _ assms(1)])

lemma succ_handshake:
  assumes g: "grows nm s t" and b: "bus_env_ok b" and nm: "b_name b (c_nodes t) \<noteq> nm"
  shows "succ (clusterStartHandshake b ip port cport t) (\<lambda>(t', r). grows nm s t')"
proof -
  note k = growsD [OF g]
  have "links_ok t" using staysD(2) [OF k] by (simp add: cluster_ok_def)
  then obtain nodes where nodes: "those (map (\<lambda>e. c_heap t (snd e)) (c_nodes t)) = Some nodes" using nodes_those by blast
  let ?n = "b_alloc b (c_heap t)"
  have "\<exists>u v. set_node ?n (\<lambda>x. x\<lparr>cn_ip := ip', cn_port := port, cn_cport := cport\<rparr>)
      (createClusterNode ?n (b_name b (c_nodes t)) (CLUSTER_NODE_HANDSHAKE OR CLUSTER_NODE_MEET) t) = Some u \<and>
      clusterAddNode ?n u = Some (v, True) \<and> stays s v \<and> c_nodes v = c_nodes t @ [(b_name b (c_nodes t), ?n)]" for ip'
    by (rule new_node [OF k b refl]) (simp_all add: role_bits)
  then obtain u v where uv: "\<And>ip'. set_node ?n (\<lambda>x. x\<lparr>cn_ip := ip', cn_port := port, cn_cport := cport\<rparr>)
      (createClusterNode ?n (b_name b (c_nodes t)) (CLUSTER_NODE_HANDSHAKE OR CLUSTER_NODE_MEET) t) = Some (u ip')"
      "\<And>ip'. clusterAddNode ?n (u ip') = Some (v ip', True)" "\<And>ip'. stays s (v ip')"
      "\<And>ip'. c_nodes (v ip') = c_nodes t @ [(b_name b (c_nodes t), ?n)]" by metis
  have "grows nm s (v ip')" for ip' using g uv(3,4) nm by (auto simp: grows_def clusterLookupNode_def)
  then show ?thesis using g uv(1,2) by (auto simp: clusterStartHandshake_def clusterHandshakeInProgress_def nodes Let_def split: option.split)
qed

lemma succ_gossip_entry:
  assumes g: "grows nm s t" and b: "bus_env_ok b" "\<And>ns. b_name b ns \<noteq> nm" and sn: "\<And>m. sender = Some m \<Longrightarrow> m \<in> dom (c_heap s)"
  shows "succ (gossip_entry b sender e t) (grows nm s)"
proof (cases "clusterLookupNode (g_nodename e) t")
  note k = growsD [OF g]
  case (Some n)
  have n: "n \<in> dom (c_heap t)" using lookup_heap [OF staysD(2) [OF k] Some] .
  have sn': "\<And>m. sender = Some m \<Longrightarrow> m \<in> dom (c_heap t)" using sn staysD(6) [OF k] by blast
  note c = calm_refl_stays [OF k]
  have "succ (gossip_entry b sender e t) (calm t)"
    unfolding gossip_entry_def Some option.case
    by (intro succ_bind [OF succ_gossip_report [OF c n sn']] succ_bind [OF succ_gossip_pong [OF _ n]] succ_gossip_address [OF _ n])
  then show ?thesis by (rule succ_grows [OF g])
next
  note k = growsD [OF g]
  case None
  have g': "grows nm s (fst (clusterBlacklistExists (b_env b) (g_nodename e) t))"
    by (rule grows_frame [OF _ g])
      (simp add: clusterBlacklistExists_def clusterBlacklistCleanup_def Let_def calm_refl_stays [OF k])
  show ?thesis
    unfolding gossip_entry_def None option.case Let_def
    using g g' by (auto split: prod.split intro!: succ_map succ_weaken [OF succ_handshake [OF _ b]])
qed

lemma succ_gossip:
  assumes g: "grows nm s t" and b: "bus_env_ok b" "\<And>ns. b_name b ns \<noteq> nm" and ln: "\<And>m. link_node = Some m \<Longrightarrow> m \<in> dom (c_heap t)"
    and len: "unat (m_count hdr) \<le> length (m_gossip hdr)"
  shows "succ (clusterProcessGossipSection b hdr link_node t) (grows nm s)"
proof -
  note k = growsD [OF g]
  have "succ (clusterProcessGossipSection b hdr link_node t) (grows nm t)"
    unfolding clusterProcessGossipSection_def Let_def if_P [OF len]
  proof (rule succ_foldM)
    show "grows nm t t" by (rule grows_refl [OF staysD(1) [OF k]])
    fix e u assume u: "grows nm t u"
    show "succ (gossip_entry b (case link_node of Some n \<Rightarrow> Some n | None \<Rightarrow> clusterLookupNode (m_sender hdr) t) e u) (grows nm t)"
      by (rule succ_gossip_entry [OF u b])
        (use ln staysD(6) [OF k] lookup_heap [OF staysD(2) [OF k]] in \<open>auto split: option.splits\<close>)
  qed
  then show ?thesis by (rule succ_weaken) (rule grows_trans [OF g])
qed

section \<open>Rebinding of slots\<close>

text \<open>The slots that change hands when a node claims them with an epoch: those claimed whose owner, if any, has an older epoch, unless they are being imported.\<close>

definition rebinds :: "clusterState \<Rightarrow> nid \<Rightarrow> u64 \<Rightarrow> byte list \<Rightarrow> nat \<Rightarrow> bool" where
  "rebinds s sender epoch bm j \<longleftrightarrow> bitmapTestBit bm j = Some True \<and> c_slots s j \<noteq> Some sender \<and> c_importing_slots_from s j = None \<and>
     (\<forall>n x. c_slots s j = Some n \<longrightarrow> c_heap s n = Some x \<longrightarrow> cn_configEpoch x < epoch)"

definition epochs :: "clusterState \<Rightarrow> nid \<Rightarrow> u64 option" where
  "epochs s = map_option cn_configEpoch \<circ> c_heap s"

definition same_nodes :: "clusterState \<Rightarrow> clusterState \<Rightarrow> bool" where
  "same_nodes s t \<longleftrightarrow> keeps s t \<and> masters t = masters s \<and> epochs t = epochs s \<and> c_importing_slots_from t = c_importing_slots_from s"

lemma same_nodes_trans: "same_nodes s t \<Longrightarrow> same_nodes t u \<Longrightarrow> same_nodes s u"
  using keeps_trans by (auto simp: same_nodes_def)

lemma slot_frame_nodes:
  assumes "cluster_ok t" "slot_frame s t"
  shows "same_nodes s t"
proof -
  have c: "map_option node_core (c_heap t n) = map_option node_core (c_heap s n)" for n using assms(2) by (auto simp: slot_frame_def fun_eq_iff)
  have "masters t n = masters s n \<and> epochs t n = epochs s n" for n
  proof (cases "c_heap s n")
    case (Some x)
    then obtain y where y: "c_heap t n = Some y" "node_core y = node_core x" using c [of n] by auto
    show ?thesis using Some y(1) node_core_eqD(1,2) [OF y(2)] by (simp add: masters_def epochs_def links_of_def)
  qed (use c [of n] in \<open>simp add: masters_def epochs_def\<close>)
  moreover have "c_importing_slots_from t = c_importing_slots_from s" using assms(2) by (auto simp: slot_frame_def)
  ultimately show ?thesis using keeps_slot_frame [OF assms] by (simp add: same_nodes_def fun_eq_iff)
qed

lemma rebind_round:
  assumes ok: "cluster_ok s" and n: "sender \<in> dom (c_heap s)" and len: "length bm = CLUSTER_SLOTS div 8" and j: "j < CLUSTER_SLOTS"
  shows "\<exists>t. rebind_slot env sender e bm cur j (s, nm, dirty) =
      Some (t, nm \<or> rebinds s sender e bm j \<and> c_slots s j = cur,
        if rebinds s sender e bm j \<and> c_slots s j = Some (c_myself s) \<and> e_keys_in_slot env j \<noteq> 0 \<and> sender \<noteq> c_myself s then dirty @ [j] else dirty) \<and>
    same_nodes s t \<and> c_slots t = (if rebinds s sender e bm j then (c_slots s)(j \<mapsto> sender) else c_slots s)"
proof -
  obtain b where b: "bitmapTestBit bm j = Some b" using bitmapTestBit_iff [OF slot_in_bitmap [OF len j]] by blast
  define older where "older \<longleftrightarrow> (\<forall>n x. c_slots s j = Some n \<longrightarrow> c_heap s n = Some x \<longrightarrow> cn_configEpoch x < e)"
  have o: "(case c_slots s j of None \<Rightarrow> Some True | Some n \<Rightarrow> do { x \<leftarrow> c_heap s n; Some (cn_configEpoch x < e) }) = Some older"
    using slot_owner [of s j] ok j by (auto simp: older_def cluster_ok_def split: option.split)
  have r: "rebinds s sender e bm j \<longleftrightarrow> b \<and> c_slots s j \<noteq> Some sender \<and> c_importing_slots_from s j = None \<and> older"
    by (auto simp: rebinds_def b older_def)
  show ?thesis
  proof (cases "rebinds s sender e bm j")
    case False
    have "rebind_slot env sender e bm cur j (s, nm, dirty) = Some (s, nm, dirty)"
      unfolding rebind_slot_def prod.case b bind.simps o using False r by auto
    then show ?thesis using False keeps_refl [OF ok] by (simp add: same_nodes_def)
  next
    case True
    obtain s1 s2 c where s2: "clusterDelSlot j s = Some (s1, c)" "clusterAddSlot sender j s1 = Some (s2, True)"
      "keeps s s2" "slot_frame s s1" "slot_frame s s2" "c_slots s2 = (c_slots s)(j \<mapsto> sender)"
      using keeps_move [OF ok n j] by metis
    let ?w = "CLUSTER_TODO_SAVE_CONFIG OR CLUSTER_TODO_UPDATE_STATE OR CLUSTER_TODO_FSYNC_CONFIG"
    have "rebind_slot env sender e bm cur j (s, nm, dirty) =
      Some (clusterDoBeforeSleep ?w s2, nm \<or> c_slots s j = cur,
        if c_slots s j = Some (c_myself s) \<and> e_keys_in_slot env j \<noteq> 0 \<and> sender \<noteq> c_myself s then dirty @ [j] else dirty)"
      unfolding rebind_slot_def prod.case b bind.simps o using True r s2(1,2) by (auto simp: Let_def)
    moreover have "same_nodes s (clusterDoBeforeSleep ?w s2)"
      using slot_frame_nodes [OF keepsD(1) [OF s2(3)] s2(5)]
      by (simp add: same_nodes_def masters_def epochs_def) (simp add: clusterDoBeforeSleep_def)
    moreover have "c_slots (clusterDoBeforeSleep ?w s2) = (c_slots s)(j \<mapsto> sender)" by (simp add: clusterDoBeforeSleep_def s2(6))
    ultimately show ?thesis using True by simp
  qed
qed

lemma rebinds_same:
  assumes "same_nodes s t" "c_slots t j = c_slots s j"
  shows "rebinds t sender e bm j = rebinds s sender e bm j"
proof -
  have ep: "map_option cn_configEpoch (c_heap t n) = map_option cn_configEpoch (c_heap s n)" for n
    using assms(1) by (simp add: same_nodes_def epochs_def fun_eq_iff)
  have "(\<forall>x. c_heap t n = Some x \<longrightarrow> cn_configEpoch x < e) = (\<forall>x. c_heap s n = Some x \<longrightarrow> cn_configEpoch x < e)" for n
    using ep [of n] by (cases "c_heap s n") auto
  then show ?thesis using assms by (simp add: rebinds_def same_nodes_def)
qed

lemma rebind_fold:
  assumes ok: "cluster_ok s" and n: "sender \<in> dom (c_heap s)" and me: "sender \<noteq> c_myself s" and len: "length bm = CLUSTER_SLOTS div 8"
  shows "\<exists>t. foldM (rebind_slot env sender e bm cur) [0..<CLUSTER_SLOTS] (s, False, []) =
      Some (t, \<exists>j < CLUSTER_SLOTS. rebinds s sender e bm j \<and> c_slots s j = cur,
        filter (\<lambda>j. rebinds s sender e bm j \<and> c_slots s j = Some (c_myself s) \<and> e_keys_in_slot env j \<noteq> 0) [0..<CLUSTER_SLOTS]) \<and>
    same_nodes s t \<and> (\<forall>j < CLUSTER_SLOTS. c_slots t j = (if rebinds s sender e bm j then Some sender else c_slots s j))"
proof -
  let ?D = "\<lambda>j. rebinds s sender e bm j \<and> c_slots s j = Some (c_myself s) \<and> e_keys_in_slot env j \<noteq> 0"
  let ?P = "\<lambda>k (t, nm, dirty). nm = (\<exists>j < k. rebinds s sender e bm j \<and> c_slots s j = cur) \<and> dirty = filter ?D [0..<k] \<and>
    same_nodes s t \<and> (\<forall>j. c_slots t j = (if j < k \<and> rebinds s sender e bm j then Some sender else c_slots s j))"
  have "\<exists>r. foldM (rebind_slot env sender e bm cur) [0..<CLUSTER_SLOTS] (s, False, []) = Some r \<and> ?P CLUSTER_SLOTS r"
  proof (rule foldM_upt_total)
    fix k r assume k: "k < CLUSTER_SLOTS" and P: "?P k r"
    obtain t nm dirty where r: "r = (t, nm, dirty)" by (cases r)
    have t: "same_nodes s t" "\<And>j. c_slots t j = (if j < k \<and> rebinds s sender e bm j then Some sender else c_slots s j)"
      and nm: "nm = (\<exists>j < k. rebinds s sender e bm j \<and> c_slots s j = cur)" "dirty = filter ?D [0..<k]" using P by (simp_all add: r)
    have kp: "keeps s t" using t(1) by (simp add: same_nodes_def)
    have tk: "c_slots t k = c_slots s k" using t(2) by simp
    have rb: "rebinds t sender e bm k = rebinds s sender e bm k" using rebinds_same [OF t(1) tk] .
    have nt: "sender \<in> dom (c_heap t)" using n keepsD(2) [OF kp] by simp
    obtain u where u: "rebind_slot env sender e bm cur k (t, nm, dirty) =
      Some (u, nm \<or> rebinds t sender e bm k \<and> c_slots t k = cur,
        if rebinds t sender e bm k \<and> c_slots t k = Some (c_myself t) \<and> e_keys_in_slot env k \<noteq> 0 \<and> sender \<noteq> c_myself t then dirty @ [k] else dirty)"
      "same_nodes t u" "c_slots u = (if rebinds t sender e bm k then (c_slots t)(k \<mapsto> sender) else c_slots t)"
      using rebind_round [OF keepsD(1) [OF kp] nt len k] by blast
    have 1: "(nm \<or> rebinds t sender e bm k \<and> c_slots t k = cur) = (\<exists>j < Suc k. rebinds s sender e bm j \<and> c_slots s j = cur)"
      unfolding nm rb tk less_Suc_eq by blast
    have 2: "(if rebinds t sender e bm k \<and> c_slots t k = Some (c_myself t) \<and> e_keys_in_slot env k \<noteq> 0 \<and> sender \<noteq> c_myself t then dirty @ [k] else dirty) =
      filter ?D [0..<Suc k]" using me keepsD(3) [OF kp] by (simp add: nm(2) rb tk)
    have 3: "c_slots u j = (if j < Suc k \<and> rebinds s sender e bm j then Some sender else c_slots s j)" for j
      unfolding u(3) rb using t(2) by (cases "j = k") auto
    show "\<exists>r'. rebind_slot env sender e bm cur k r = Some r' \<and> ?P (Suc k) r'"
      unfolding r u(1) 1 2 using same_nodes_trans [OF t(1) u(2)] 3 by auto
  qed (use keeps_refl [OF ok] in \<open>simp_all add: same_nodes_def\<close>)
  then obtain r where r: "foldM (rebind_slot env sender e bm cur) [0..<CLUSTER_SLOTS] (s, False, []) = Some r" "?P CLUSTER_SLOTS r" by blast
  obtain t nm dirty where "r = (t, nm, dirty)" by (cases r)
  with r show ?thesis by simp
qed

section \<open>Changes of roles\<close>

lemma masters_set_other: "set_node n f t = Some t' \<Longrightarrow> k \<noteq> n \<Longrightarrow> masters t' k = masters t k"
  by (auto simp: set_node_def bind_eq_Some_conv masters_def)

lemma masters_remove: "clusterNodeRemoveSlave m n t = Some (t', b) \<Longrightarrow> masters t' = masters t"
  by (auto simp: clusterNodeRemoveSlave_def bind_eq_Some_conv dest!: masters_set_node split: if_splits)

lemma masters_add: "clusterNodeAddSlave m n t = Some (t', b) \<Longrightarrow> masters t' = masters t"
  by (auto simp: clusterNodeAddSlave_def bind_eq_Some_conv dest!: masters_set_node split: if_splits)

lemma masters_frame [simp]:
  "masters (emit e t) = masters t" "masters (clusterDoBeforeSleep w t) = masters t" "masters (resetManualFailover p t) = masters t"
  "masters (clusterCloseAllSlots t) = masters t"
  by (simp_all add: masters_def emit_def clusterDoBeforeSleep_def resetManualFailover_def clusterCloseAllSlots_def Let_def)

lemma masters_setNodeAsMaster:
  assumes "clusterSetNodeAsMaster n t = Some t'" "k \<noteq> n"
  shows "masters t' k = masters t k"
  using assms(1)
  by (auto simp: clusterSetNodeAsMaster_def bind_eq_Some_conv dest!: masters_remove masters_set_other [OF _ assms(2)] split: if_splits option.splits)

lemma myself_remove: "clusterNodeRemoveSlave m n t = Some (t', b) \<Longrightarrow> c_myself t' = c_myself t"
  by (auto simp: clusterNodeRemoveSlave_def set_node_def bind_eq_Some_conv split: if_splits)

lemma masters_set_me: "set_node n (\<lambda>x. x\<lparr>cn_slaveof := p\<rparr>) t = Some t' \<Longrightarrow> masters t' n = Some p"
  by (auto simp: set_node_def bind_eq_Some_conv masters_def)

lemma setMaster_steps:
  assumes "clusterSetMaster p n t = Some t'"
  obtains me u v w c and x :: clusterNode where "c_heap t (c_myself t) = Some me" "(if nodeIsMaster me
         then map_option clusterCloseAllSlots (set_node (c_myself t) (\<lambda>x. x\<lparr>cn_flags :=
           (cn_flags x AND NOT (CLUSTER_NODE_MASTER OR CLUSTER_NODE_MIGRATE_TO)) OR CLUSTER_NODE_SLAVE\<rparr>) t)
         else case cn_slaveof me of
           None \<Rightarrow> Some t
         | Some m \<Rightarrow> map_option fst (clusterNodeRemoveSlave m (c_myself t) t)) = Some u"
    "set_node (c_myself u) (\<lambda>x. x\<lparr>cn_slaveof := Some n\<rparr>) u = Some v" "clusterNodeAddSlave n (c_myself v) v = Some (w, c)"
    "t' = resetManualFailover p (emit (Replication_set_master (cn_ip x) (cn_port x)) w)"
proof -
  obtain me u where me: "c_heap t (c_myself t) = Some me" "(if nodeIsMaster me
         then map_option clusterCloseAllSlots (set_node (c_myself t) (\<lambda>x. x\<lparr>cn_flags :=
           (cn_flags x AND NOT (CLUSTER_NODE_MASTER OR CLUSTER_NODE_MIGRATE_TO)) OR CLUSTER_NODE_SLAVE\<rparr>) t)
         else case cn_slaveof me of
           None \<Rightarrow> Some t
         | Some m \<Rightarrow> map_option fst (clusterNodeRemoveSlave m (c_myself t) t)) = Some u"
    and rest: "(do {
       s \<leftarrow> set_node (c_myself u) (\<lambda>x. x\<lparr>cn_slaveof := Some n\<rparr>) u;
       (s, _) \<leftarrow> clusterNodeAddSlave n (c_myself s) s;
       x \<leftarrow> c_heap s n;
       Some (resetManualFailover p (emit (Replication_set_master (cn_ip x) (cn_port x)) s))
     }) = Some t'"
    using assms unfolding clusterSetMaster_def bind_eq_Some_conv by (auto split: if_split_asm simp: bind_eq_Some_conv)
  obtain v w c and x :: clusterNode where "set_node (c_myself u) (\<lambda>x. x\<lparr>cn_slaveof := Some n\<rparr>) u = Some v" "clusterNodeAddSlave n (c_myself v) v = Some (w, c)"
    "t' = resetManualFailover p (emit (Replication_set_master (cn_ip x) (cn_port x)) w)"
    using rest by (auto simp: bind_eq_Some_conv)
  with me show ?thesis by (rule that)
qed

lemma masters_setMaster:
  assumes "clusterSetMaster p n t = Some t'"
  shows "masters t' (c_myself t) = Some (Some n)"
  using assms
proof (rule setMaster_steps)
  fix me u v w c and x :: clusterNode
  assume me: "(if nodeIsMaster me
         then map_option clusterCloseAllSlots (set_node (c_myself t) (\<lambda>x. x\<lparr>cn_flags :=
           (cn_flags x AND NOT (CLUSTER_NODE_MASTER OR CLUSTER_NODE_MIGRATE_TO)) OR CLUSTER_NODE_SLAVE\<rparr>) t)
         else case cn_slaveof me of
           None \<Rightarrow> Some t
         | Some m \<Rightarrow> map_option fst (clusterNodeRemoveSlave m (c_myself t) t)) = Some u"
    and v: "set_node (c_myself u) (\<lambda>x. x\<lparr>cn_slaveof := Some n\<rparr>) u = Some v" "clusterNodeAddSlave n (c_myself v) v = Some (w, c)"
      "t' = resetManualFailover p (emit (Replication_set_master (cn_ip x) (cn_port x)) w)"
  have my: "c_myself u = c_myself t"
    using me by (auto simp: set_node_def clusterCloseAllSlots_def bind_eq_Some_conv dest!: myself_remove split: if_splits option.splits)
  show ?thesis using masters_set_me [OF v(1)] masters_add [OF v(2)] my unfolding v(3) by simp
qed

lemma slots_remove: "clusterNodeRemoveSlave m n t = Some (t', b) \<Longrightarrow> c_slots t' = c_slots t"
  by (auto simp: clusterNodeRemoveSlave_def set_node_def bind_eq_Some_conv split: if_splits)

lemma slots_add: "clusterNodeAddSlave m n t = Some (t', b) \<Longrightarrow> c_slots t' = c_slots t"
  by (auto simp: clusterNodeAddSlave_def set_node_def bind_eq_Some_conv split: if_splits)

lemma slots_set_node: "set_node n f t = Some t' \<Longrightarrow> c_slots t' = c_slots t"
  by (auto simp: set_node_def bind_eq_Some_conv)

lemma slots_setMaster:
  assumes "clusterSetMaster p n t = Some t'"
  shows "c_slots t' = c_slots t"
  using assms
proof (rule setMaster_steps)
  fix me u v w c and x :: clusterNode
  assume me: "(if nodeIsMaster me
         then map_option clusterCloseAllSlots (set_node (c_myself t) (\<lambda>x. x\<lparr>cn_flags :=
           (cn_flags x AND NOT (CLUSTER_NODE_MASTER OR CLUSTER_NODE_MIGRATE_TO)) OR CLUSTER_NODE_SLAVE\<rparr>) t)
         else case cn_slaveof me of
           None \<Rightarrow> Some t
         | Some m \<Rightarrow> map_option fst (clusterNodeRemoveSlave m (c_myself t) t)) = Some u"
    and v: "set_node (c_myself u) (\<lambda>x. x\<lparr>cn_slaveof := Some n\<rparr>) u = Some v" "clusterNodeAddSlave n (c_myself v) v = Some (w, c)"
      "t' = resetManualFailover p (emit (Replication_set_master (cn_ip x) (cn_port x)) w)"
  have "c_slots u = c_slots t"
    using me by (auto simp: set_node_def clusterCloseAllSlots_def bind_eq_Some_conv dest!: slots_remove split: if_splits option.splits)
  moreover have "c_slots t' = c_slots w" unfolding v(3) by (simp add: resetManualFailover_def emit_def Let_def)
  ultimately show ?thesis using slots_set_node [OF v(1)] slots_add [OF v(2)] by simp
qed

lemma me_role_bus:
  assumes "role_ok s"
  obtains a where "roles s (c_myself s) = Some (a, \<not> a, False)"
  using assms by (auto simp: role_ok_def)

lemma succ_setNodeAsMaster:
  assumes k: "stays s t" and n: "n \<in> dom (c_heap t)"
  shows "succ (clusterSetNodeAsMaster n t) (stays s)"
proof -
  obtain u where u: "clusterSetNodeAsMaster n t = Some u" "cluster_ok u" "c_slots u = c_slots t" "dom (c_heap u) = dom (c_heap t)"
    "c_myself u = c_myself t" "roles u = (roles t)(n := map_option (\<lambda>(m, sl, h). (True, m \<and> sl, h)) (roles t n))"
    using clusterSetNodeAsMaster_ok [OF staysD(2) [OF k] n] by blast
  obtain a where a: "roles t (c_myself t) = Some (a, \<not> a, False)" using me_role_bus [OF staysD(3) [OF k]] .
  have r: "role_ok u" using role_ok_master [OF staysD(3) [OF k] u(6,5)] .
  have sl: "slave_ok u"
  proof (cases "n = c_myself t")
    case True
    then show ?thesis using a by (simp add: slave_ok_def u(5,6))
  next
    case False
    then have "masters u (c_myself t) = masters t (c_myself t)" using masters_setNodeAsMaster [OF u(1)] by simp
    then show ?thesis using staysD(4) [OF k] False unfolding slave_ok_def u(3,5,6) by fastforce
  qed
  have ho: "hands_ok u" by (rule hands_ok_mono [OF staysD(8) [OF k]]) (auto simp: u(3,6) split: if_splits)
  have "stays t u" using u(2,4,5) r sl ho by (auto simp: stays_def bus_ok_def u(6))
  then show ?thesis using u(1) stays_trans [OF k] by (simp add: succ_def)
qed

lemma succ_setMaster:
  assumes k: "stays s t" and n: "roles t n = Some (a, b, False)" "n \<noteq> c_myself t"
    and none: "\<And>j. j < CLUSTER_SLOTS \<Longrightarrow> c_slots t j \<noteq> Some (c_myself t)"
  shows "succ (clusterSetMaster p n t) (stays s)"
proof -
  obtain me where me: "c_heap t (c_myself t) = Some me" using cluster_ok_me [OF staysD(2) [OF k]] by blast
  have nd: "n \<in> dom (c_heap t)" using n(1) by (auto simp: roles_def)
  obtain u where u: "clusterSetMaster p n t = Some u" "cluster_ok u" "c_slots u = c_slots t" "dom (c_heap u) = dom (c_heap t)"
    "c_myself u = c_myself t" "roles u = (roles t)(c_myself t \<mapsto> (False, True, nodeInHandshake me))"
    using clusterSetMaster_ok [OF staysD(2) [OF k] nd n(2) me role_ok_me(1) [OF staysD(3) [OF k] me] none] by blast
  have hs: "\<not> nodeInHandshake me" using role_ok_me(2) [OF staysD(3) [OF k] me] .
  have r: "role_ok u" using role_ok_slave [OF staysD(3) [OF k] me u(6,5)] .
  have "slave_ok u" using masters_setMaster [OF u(1)] n none by (auto simp: slave_ok_def u(3,5,6))
  moreover have "hands_ok u" by (rule hands_ok_mono [OF staysD(8) [OF k]]) (auto simp: u(3,6) hs split: if_splits)
  ultimately have "stays t u" using u(2,4,5) r hs by (auto simp: stays_def bus_ok_def u(6))
  then show ?thesis using u(1) stays_trans [OF k] by (simp add: succ_def)
qed

lemma no_slots:
  assumes "slots_ok s" "c_heap s n = Some x" "cn_numslots x = 0" "j < CLUSTER_SLOTS"
  shows "c_slots s j \<noteq> Some n"
proof -
  have "card {j. j < CLUSTER_SLOTS \<and> c_slots s j = Some n} = 0" using assms(1-3) by (simp add: slots_ok_def)
  then show ?thesis using assms(4) by auto
qed

lemma stays_same_nodes:
  assumes b: "bus_ok s" and k: "same_nodes s t" and sl: "\<And>j. j < CLUSTER_SLOTS \<Longrightarrow> c_slots t j = Some (c_myself s) \<Longrightarrow> c_slots s j = Some (c_myself s)"
    and hs: "\<And>n a b j. j < CLUSTER_SLOTS \<Longrightarrow> roles s n = Some (a, b, True) \<Longrightarrow> c_slots t j = Some n \<Longrightarrow> c_slots s j = Some n"
  shows "stays s t"
proof -
  have kp: "keeps s t" and m: "masters t = masters s" using k by (simp_all add: same_nodes_def)
  have r: "roles t = roles s" and my: "c_myself t = c_myself s" using keepsD(3,5) [OF kp] by simp_all
  have "slave_ok s" using b by (simp add: bus_ok_def)
  then have "slave_ok t" unfolding slave_ok_def r m my using sl by blast
  moreover have "hands_ok t" by (rule hands_ok_mono [of s]) (use b hs in \<open>auto simp: r bus_ok_def\<close>)
  ultimately show ?thesis using b keepsD(1,2) [OF kp] role_ok_keeps [OF kp] r my by (auto simp: stays_def bus_ok_def)
qed

lemma fold_emit_calm: "calm s t \<Longrightarrow> calm s (fold (\<lambda>j. emit (Del_keys_in_slot j)) js t)"
  by (induction js arbitrary: t) simp_all

lemma succ_update_slots:
  assumes k: "stays s t" and n: "roles t n = Some (a, b, False)" and len: "length bm = CLUSTER_SLOTS div 8"
  shows "succ (clusterUpdateSlotsConfigWith env n e bm t) (stays s)"
proof -
  obtain me where me: "c_heap t (c_myself t) = Some me" using cluster_ok_me [OF staysD(2) [OF k]] by blast
  have nd: "n \<in> dom (c_heap t)" using n by (auto simp: roles_def)
  let ?cur = "if nodeIsMaster me then Some (c_myself t) else cn_slaveof me"
  show ?thesis
  proof (cases "n = c_myself t")
    case True
    then show ?thesis using me k by (simp add: clusterUpdateSlotsConfigWith_def)
  next
    case False
    obtain u nm dirty where u: "foldM (rebind_slot env n e bm ?cur) [0..<CLUSTER_SLOTS] (t, False, []) = Some (u, nm, dirty)"
      "same_nodes t u" "\<And>j. j < CLUSTER_SLOTS \<Longrightarrow> c_slots u j = (if rebinds t n e bm j then Some n else c_slots t j)"
      using rebind_fold [OF staysD(2) [OF k] nd False len, of env e ?cur] by blast
    have kp: "keeps t u" using u(2) by (simp add: same_nodes_def)
    have tu: "stays t u"
      by (rule stays_same_nodes [OF staysD(1) [OF k] u(2)]) (use u(3) n False in \<open>auto split: if_splits\<close>)
    have su: "stays s u" using stays_trans [OF k tu] .
    have slave: "\<exists>m. cn_slaveof me = Some m \<and> m \<in> dom (c_heap t)" "\<And>j. j < CLUSTER_SLOTS \<Longrightarrow> c_slots t j \<noteq> Some (c_myself t)"
      if "\<not> nodeIsMaster me"
    proof -
      have "nodeIsSlave me" using role_ok_me(1) [OF staysD(3) [OF k] me] that by simp
      then have "roles t (c_myself t) = Some (nodeIsMaster me, True, nodeInHandshake me)" using me by (simp add: roles_def node_role_def)
      then show "\<exists>m. cn_slaveof me = Some m \<and> m \<in> dom (c_heap t)" "\<And>j. j < CLUSTER_SLOTS \<Longrightarrow> c_slots t j \<noteq> Some (c_myself t)"
        using staysD(4) [OF k] me unfolding slave_ok_def by (auto simp: masters_def roles_def)
    qed
    obtain c where c: "?cur = Some c" "c \<in> dom (c_heap u)" using slave(1) me keepsD(2) [OF kp] by (cases "nodeIsMaster me") auto
    obtain y where y: "c_heap u c = Some y" using c(2) by blast
    have sl: "slots_ok u" using keepsD(1) [OF kp] by (simp add: cluster_ok_def)
    have none: "c_slots u j \<noteq> Some (c_myself u)" if "cn_numslots y = 0" "j < CLUSTER_SLOTS" for j
    proof (cases "nodeIsMaster me")
      case True
      then have "c = c_myself u" using c(1) keepsD(3) [OF kp] by simp
      then show ?thesis using no_slots [OF sl y that] by simp
    next
      case M: False
      show ?thesis using slave(2) [OF M that(2)] u(3) [OF that(2)] False keepsD(3) [OF kp] by auto
    qed
    have run: "clusterUpdateSlotsConfigWith env n e bm t =
      (if nm \<and> cn_numslots y = 0 then do {
         s \<leftarrow> clusterSetMaster (e_paused env) n u;
         Some (clusterDoBeforeSleep (CLUSTER_TODO_SAVE_CONFIG OR CLUSTER_TODO_UPDATE_STATE OR CLUSTER_TODO_FSYNC_CONFIG) s)
       } else Some (fold (\<lambda>j. emit (Del_keys_in_slot j)) dirty u))"
      using me False u(1) c(1) y by (simp add: clusterUpdateSlotsConfigWith_def Let_def)
    have nu: "roles u n = Some (a, b, False)" "n \<noteq> c_myself u" using n keepsD(3,5) [OF kp] False by simp_all
    have "stays s (clusterDoBeforeSleep w v)" if "stays s v" for v w using stays_frame [OF _ that] calm_refl_stays [OF that] by simp
    then have "succ (clusterUpdateSlotsConfigWith env n e bm t) (stays s)" if "nm \<and> cn_numslots y = 0"
      unfolding run using that none by (auto intro!: succ_bind [OF succ_setMaster [OF su nu]])
    moreover have "stays s (fold (\<lambda>j. emit (Del_keys_in_slot j)) dirty u)"
      by (rule stays_frame [OF fold_emit_calm [OF calm_refl_stays [OF su]] su])
    ultimately show ?thesis using run by auto
  qed
qed

end
