(* ===== verification/Cluster_Process.thy ===== *)
theory Cluster_Process
  imports Cluster_Packet
begin

text \<open>
  \<open>clusterProcessPacket\<close> on a consistent state: every message of another node is processed without a failure and leaves the state consistent.
\<close>

unbundle bit_operations_syntax

section \<open>The role of the sender\<close>

lemma succ_reslave:
  assumes k: "stays s t" and x: "c_heap t n = Some x" "nodeIsSlave x" and n: "n \<noteq> c_myself t" and m: "m \<in> dom (c_heap t)"
  shows "succ (do {
      s \<leftarrow> (case cn_slaveof x of Some old \<Rightarrow> map_option fst (clusterNodeRemoveSlave old n t) | None \<Rightarrow> Some t);
      (s, _) \<leftarrow> clusterNodeAddSlave m n s;
      s \<leftarrow> set_node n (\<lambda>x. x\<lparr>cn_slaveof := Some m\<rparr>) s;
      Some (clusterDoBeforeSleep todo s)
    }) (\<lambda>u. stays s u \<and> roles u = roles t)"
proof -
  have ok: "cluster_ok t" using staysD(2) [OF k] .
  then have lk: "links_ok t" by (simp add: cluster_ok_def)
  obtain h where h: "unslaved n (c_heap t) h"
    "(case cn_slaveof x of Some old \<Rightarrow> map_option fst (clusterNodeRemoveSlave old n t) | None \<Rightarrow> Some t) = Some (t\<lparr>c_heap := h\<rparr>)"
    using unslaved_remove [OF lk x(1)] unslaved_none [OF lk x(1)] by (cases "cn_slaveof x") auto
  obtain z where z: "h n = Some z" using unslaved_dom [OF h(1)] x(1) by blast
  obtain y where y: "h m = Some y" using unslaved_dom [OF h(1)] m by blast
  obtain y0 where y0: "c_heap t m = Some y0" using m by blast
  have fresh: "n \<notin> set (cn_slaves y)" using unslavedD [OF h(1) y0 y] links_okD(4) [OF lk y0] by simp
  define g where "g = (\<lambda>k y :: clusterNode. if k = m then y\<lparr>cn_slaves := cn_slaves y @ [n], cn_flags := cn_flags y OR CLUSTER_NODE_MIGRATE_TO\<rparr> else y)"
  define F where "F = (\<lambda>k y. if k = n then (g k y)\<lparr>cn_slaveof := Some m\<rparr> else g k y)"
  define h' where "h' = (\<lambda>k. map_option (F k) (h k))"
  let ?u = "clusterDoBeforeSleep todo (t\<lparr>c_heap := h'\<rparr>)"
  have "h' = (h(m \<mapsto> g m y))(n \<mapsto> F n z)" using y z by (auto simp: h'_def F_def g_def fun_eq_iff option.map_id [unfolded id_def])
  then have run: "(do {
      s \<leftarrow> (case cn_slaveof x of Some old \<Rightarrow> map_option fst (clusterNodeRemoveSlave old n t) | None \<Rightarrow> Some t);
      (s, _) \<leftarrow> clusterNodeAddSlave m n s;
      s \<leftarrow> set_node n (\<lambda>x. x\<lparr>cn_slaveof := Some m\<rparr>) s;
      Some (clusterDoBeforeSleep todo s)
    }) = Some ?u"
    unfolding h(2) using y z fresh by (auto simp: clusterNodeAddSlave_def set_node_def F_def g_def)
  have f: "c_heap ?u = h'" "c_nodes ?u = c_nodes t" "c_myself ?u = c_myself t" "c_slots ?u = c_slots t"
    "c_importing_slots_from ?u = c_importing_slots_from t" "c_migrating_slots_to ?u = c_migrating_slots_to t"
    by (simp_all add: clusterDoBeforeSleep_def)
  have "dom h' = dom h" by (auto simp: h'_def)
  then have d: "dom h' = dom (c_heap t)" using unslaved_dom [OF h(1)] by simp
  have role: "node_role (F k v) = node_role v" for k v by (simp add: F_def g_def node_role_def flag_iff bit_simps flag_defs)
  have rep: "reparent n (Some m) k w0 w" if kw: "c_heap t k = Some w0" "c_heap ?u k = Some w" for k w0 w
  proof -
    obtain v where v: "h k = Some v" "w = F k v" using kw(2) unfolding f by (auto simp: h'_def)
    note un = unslavedD [OF h(1) kw(1) v(1)]
    have slv: "nodeIsSlave v" if "cn_slaveof w0 \<noteq> None \<or> k = n" using that links_okD(8) [OF lk kw(1)] un x kw(1) by auto
    have sf: "nodeIsSlave w = nodeIsSlave v" using role [of k v] v(2) by (simp add: node_role_def)
    have "cn_slaves w = (if k = m then cn_slaves v @ [n] else cn_slaves v)" "cn_slaveof w = (if k = n then Some m else cn_slaveof v)"
      "cn_name w = cn_name v" "cn_fail_reports w = cn_fail_reports v" "cn_configEpoch w = cn_configEpoch v" "slots_of w = slots_of v"
      by (simp_all add: v(2) F_def g_def slots_of_def)
    then show ?thesis using un slv sf links_okD(4) [OF lk kw(1)] unfolding reparent_def by (cases "k = n") auto
  qed
  have "cluster_ok ?u"
    by (rule cluster_ok_reparent [OF ok, of n "Some m"]) (use x(1) m d f rep in auto)
  moreover have r: "roles ?u = roles t"
  proof (rule ext)
    fix k
    show "roles ?u k = roles t k"
    proof (cases "c_heap t k")
      case None
      then have "h' k = None" using d by blast
      then show ?thesis using None f by (simp add: roles_def)
    next
      case (Some w0)
      then obtain v where v: "h k = Some v" using unslaved_dom [OF h(1)] by blast
      then show ?thesis using unslavedD [OF h(1) Some v] Some role unfolding roles_def f by (simp add: h'_def)
    qed
  qed
  moreover have "masters ?u (c_myself t) = masters t (c_myself t)"
  proof -
    obtain me where me: "c_heap t (c_myself t) = Some me" using cluster_ok_me [OF ok] by blast
    then obtain v where v: "h (c_myself t) = Some v" using unslaved_dom [OF h(1)] by blast
    then show ?thesis using unslavedD [OF h(1) me v] me n unfolding masters_def f by (auto simp: h'_def F_def g_def)
  qed
  then have "slave_ok ?u" using staysD(4) [OF k] by (simp add: slave_ok_def r f)
  moreover have "role_ok ?u" using staysD(3) [OF k] by (simp add: role_ok_def r f)
  moreover have "hands_ok ?u" using staysD(8) [OF k] by (simp add: hands_ok_def r f)
  ultimately have "stays t ?u" using d f by (auto simp: stays_def bus_ok_def)
  then show ?thesis unfolding run using stays_trans [OF k] r by simp
qed

lemma succ_demote:
  assumes k: "stays s t" and n: "n \<noteq> c_myself t" "roles t n = Some (a, b, False)"
  shows "succ (do {
      (s, _) \<leftarrow> clusterDelNodeSlots n t;
      s \<leftarrow> set_node n (\<lambda>x. x\<lparr>cn_flags :=
        (cn_flags x AND NOT (CLUSTER_NODE_MASTER OR CLUSTER_NODE_MIGRATE_TO)) OR CLUSTER_NODE_SLAVE\<rparr>) s;
      Some (clusterDoBeforeSleep todo s)
    }) (\<lambda>u. stays s u \<and> roles u n = Some (False, True, False) \<and> c_nodes u = c_nodes t)"
proof -
  have ok: "cluster_ok t" using staysD(2) [OF k] .
  have nd: "n \<in> dom (c_heap t)" using n(2) by (auto simp: roles_def)
  obtain v where v: "clusterDelNodeSlots n t = Some (v, int CLUSTER_SLOTS)" "cluster_ok v" "slot_frame t v"
    "\<forall>j < CLUSTER_SLOTS. c_slots v j = (if c_slots t j = Some n then None else c_slots t j)"
    using clusterDelNodeSlots_ok [OF ok nd] by blast
  have sn: "same_nodes t v" using slot_frame_nodes [OF v(2,3)] .
  have tv: "stays t v" by (rule stays_same_nodes [OF staysD(1) [OF k] sn]) (use v(4) in \<open>auto split: if_splits\<close>)
  have kp: "keeps t v" using sn by (simp add: same_nodes_def)
  obtain x where x: "c_heap v n = Some x" using nd keepsD(2) [OF kp] by blast
  define x' where "x' = x\<lparr>cn_flags := (cn_flags x AND NOT (CLUSTER_NODE_MASTER OR CLUSTER_NODE_MIGRATE_TO)) OR CLUSTER_NODE_SLAVE\<rparr>"
  let ?u = "clusterDoBeforeSleep todo (v\<lparr>c_heap := (c_heap v)(n \<mapsto> x')\<rparr>)"
  have lk: "links_ok v" using v(2) by (simp add: cluster_ok_def)
  have "cluster_ok ?u"
    by (rule cluster_ok_upd [OF v(2) x, where x' = x'])
      (use links_okD(6,7) [OF lk x] in \<open>simp_all add: x'_def same_tables_def clusterDoBeforeSleep_def slots_of_def flag_iff bit_simps flag_defs\<close>)
  moreover have hs: "\<not> nodeInHandshake x" using n(2) keepsD(5) [OF kp] x by (metis map_option_eq_Some node_role_def option.inject prod.inject roles_def comp_apply)
  have r: "roles ?u = (roles t)(n \<mapsto> (False, True, False))"
    using keepsD(5) [OF kp] hs by (auto simp: roles_def clusterDoBeforeSleep_def fun_eq_iff node_role_def x'_def flag_iff bit_simps flag_defs)
  have my: "c_myself ?u = c_myself t" using keepsD(3) [OF kp] by (simp add: clusterDoBeforeSleep_def)
  have "masters ?u = masters v" using x by (auto simp: masters_def clusterDoBeforeSleep_def x'_def fun_eq_iff)
  then have ms: "masters ?u = masters t" using sn by (simp add: same_nodes_def)
  have sl: "c_slots ?u = c_slots v" by (simp add: clusterDoBeforeSleep_def)
  have "role_ok ?u" using staysD(3) [OF k] n(1) by (simp add: role_ok_def r my)
  moreover have "slave_ok ?u"
    unfolding slave_ok_def r my ms sl
  proof (intro allI impI, goal_cases)
    case (1 a' h)
    then have "roles t (c_myself t) = Some (a', True, h)" using n(1) by simp
    then obtain m r1 r2 where m: "masters t (c_myself t) = Some (Some m)" "roles t m = Some (r1, r2, False)"
      and none: "\<And>j. j < CLUSTER_SLOTS \<Longrightarrow> c_slots t j \<noteq> Some (c_myself t)" using staysD(4) [OF k] unfolding slave_ok_def by blast
    have "\<exists>r1 r2. ((roles t)(n \<mapsto> (False, True, False))) m = Some (r1, r2, False)" using m(2) by (cases "m = n") auto
    moreover have "c_slots v j \<noteq> Some (c_myself t)" if "j < CLUSTER_SLOTS" for j using v(4) none that by simp
    ultimately show ?case using m(1) by blast
  qed
  moreover have "dom (c_heap ?u) = dom (c_heap t)" using keepsD(2) [OF kp] x by (auto simp: clusterDoBeforeSleep_def)
  moreover have "hands_ok ?u"
    by (rule hands_ok_mono [OF staysD(8) [OF k]]) (use v(4) in \<open>auto simp: r sl split: if_splits\<close>)
  ultimately have "stays t ?u" using my by (auto simp: stays_def bus_ok_def r)
  moreover have "c_nodes ?u = c_nodes t" using keepsD(6) [OF kp] by (simp add: clusterDoBeforeSleep_def)
  ultimately show ?thesis using v(1) x stays_trans [OF k] r by (simp add: set_node_def x'_def)
qed

lemma stays_todo: "stays s t \<Longrightarrow> stays s (clusterDoBeforeSleep w t)"
  using stays_frame [of t "clusterDoBeforeSleep w t" s] calm_refl_stays [of s t] by simp

lemma stays_emit: "stays s t \<Longrightarrow> stays s (emit e t)"
  using stays_frame [of t "emit e t" s] calm_refl_stays [of s t] by simp

lemma succ_packet_role:
  assumes k: "stays s t" and n: "n \<noteq> c_myself t" "roles t n = Some (a, b, False)"
  shows "succ (packet_role hdr n t) (stays s)"
proof (cases "m_slaveof hdr = replicate 40 0")
  case True
  have "n \<in> dom (c_heap t)" using n(2) by (auto simp: roles_def)
  then show ?thesis unfolding packet_role_def if_P [OF True] by (rule succ_setNodeAsMaster [OF k])
next
  case False
  obtain x where x: "c_heap t n = Some x" using n(2) by (auto simp: roles_def)
  have role: "node_role x = (a, b, False)" using n(2) x by (simp add: roles_def)
  have slv: "b" if "\<not> nodeIsMaster x"
    using role_ok_node [OF staysD(3) [OF k] x] that role by (simp add: node_role_def)
  let ?Q = "\<lambda>u. stays s u \<and> (\<exists>a'. roles u n = Some (a', True, False)) \<and> c_nodes u = c_nodes t"
  have rest: "succ (do {
        x \<leftarrow> c_heap u n;
        case clusterLookupNode (m_slaveof hdr) t of
          None \<Rightarrow> Some u
        | Some m \<Rightarrow>
            if cn_slaveof x = Some m then Some u
            else do {
              s \<leftarrow> (case cn_slaveof x of Some old \<Rightarrow> map_option fst (clusterNodeRemoveSlave old n u) | None \<Rightarrow> Some u);
              (s, _) \<leftarrow> clusterNodeAddSlave m n s;
              s \<leftarrow> set_node n (\<lambda>x. x\<lparr>cn_slaveof := Some m\<rparr>) s;
              Some (clusterDoBeforeSleep CLUSTER_TODO_SAVE_CONFIG s)
            }
      }) (stays s)" if u: "?Q u" for u
  proof -
    have su: "stays s u" using u by simp
    have nu: "n \<noteq> c_myself u" using n(1) staysD(5) [OF su] staysD(5) [OF k] by simp
    obtain y where y: "c_heap u n = Some y" "nodeIsSlave y" using u by (auto simp: roles_def node_role_def)
    show ?thesis
    proof (cases "clusterLookupNode (m_slaveof hdr) t")
      case (Some m)
      then have "clusterLookupNode (m_slaveof hdr) u = Some m" using u by (simp add: clusterLookupNode_def)
      then have m: "m \<in> dom (c_heap u)" by (rule lookup_heap [OF staysD(2) [OF su]])
      show ?thesis using su y Some succ_weaken [OF succ_reslave [OF su y nu m], of "stays s"] by simp
    qed (use su y in simp)
  qed
  show ?thesis
    unfolding packet_role_def if_not_P [OF False] Let_def x bind.simps
  proof (rule succ_bind [OF _ rest])
    show "succ (if nodeIsMaster x then do {
            (s, _) \<leftarrow> clusterDelNodeSlots n t;
            s \<leftarrow> set_node n (\<lambda>x. x\<lparr>cn_flags :=
              (cn_flags x AND NOT (CLUSTER_NODE_MASTER OR CLUSTER_NODE_MIGRATE_TO)) OR CLUSTER_NODE_SLAVE\<rparr>) s;
            Some (clusterDoBeforeSleep (CLUSTER_TODO_SAVE_CONFIG OR CLUSTER_TODO_UPDATE_STATE) s)
          } else Some t) ?Q"
      using k n(2) slv succ_weaken [OF succ_demote [OF k n], of ?Q] by auto
  qed
qed

lemma stale_claim_some:
  assumes "slots_ok s" "length (m_myslots hdr) = CLUSTER_SLOTS div 8" "\<And>j. j \<in> set js \<Longrightarrow> j < CLUSTER_SLOTS"
  shows "stale_claim js hdr n e s \<noteq> None"
  using assms(3)
proof (induction js)
  case (Cons j js)
  have j: "j < CLUSTER_SLOTS" and IH: "stale_claim js hdr n e s \<noteq> None" using Cons by simp_all
  obtain b where b: "bitmapTestBit (m_myslots hdr) j = Some b" using bitmapTestBit_iff [OF slot_in_bitmap [OF assms(2) j]] by blast
  show ?case
  proof (cases "c_slots s j")
    case None
    then show ?thesis using b IH by (simp del: not_None_eq)
  next
    case (Some m)
    then obtain x where "c_heap s m = Some x" using slot_owner [OF assms(1) j] by blast
    then show ?thesis using Some b IH by (simp del: not_None_eq)
  qed
qed simp

lemma succ_packet_slots:
  assumes k: "stays s t" and n: "roles t n = Some (a, b, False)" and len: "length (m_myslots hdr) = CLUSTER_SLOTS div 8"
  shows "succ (packet_slots b' hdr n e t) (stays s)"
proof -
  obtain x where x: "c_heap t n = Some x" using n by (auto simp: roles_def)
  have lk: "links_ok t" using staysD(2) [OF k] by (simp add: cluster_ok_def)
  have q: "m \<in> dom (c_heap t)" if "(if nodeIsMaster x then Some n else cn_slaveof x) = Some m" for m
    using that x links_okD(8) [OF lk x] by (auto split: if_splits)
  obtain dirty where d: "(case (if nodeIsMaster x then Some n else cn_slaveof x) of
        None \<Rightarrow> Some False
      | Some m \<Rightarrow> do { y \<leftarrow> c_heap t m; Some (cn_slots y \<noteq> m_myslots hdr) }) = Some dirty"
  proof (cases "if nodeIsMaster x then Some n else cn_slaveof x")
    case None
    show ?thesis by (rule that [of False]) (simp add: None)
  next
    case (Some m)
    then obtain y where "c_heap t m = Some y" using q by blast
    then show ?thesis by (intro that [of "cn_slots y \<noteq> m_myslots hdr"]) (simp add: Some)
  qed
  have "succ (if \<not> dirty then Some u else do {
       stale \<leftarrow> stale_claim [0..<CLUSTER_SLOTS] hdr n e u;
       x \<leftarrow> c_heap u n;
       Some (case (stale, cn_link x) of (Some n, Some k) \<Rightarrow> emit (Send_update k n) u | _ \<Rightarrow> u)
     }) (stays s)" if u: "stays t u" for u
  proof -
    have su: "stays s u" using stays_trans [OF k u] .
    have "slots_ok u" using staysD(2) [OF u] by (simp add: cluster_ok_def)
    then obtain st where "stale_claim [0..<CLUSTER_SLOTS] hdr n e u = Some st" using stale_claim_some [OF _ len, of u "[0..<CLUSTER_SLOTS]"] by fastforce
    moreover obtain y where "c_heap u n = Some y" using staysD(6) [OF u, of n] x by blast
    ultimately show ?thesis using su stays_emit [OF su] by (auto split: option.splits)
  qed
  then show ?thesis
    unfolding packet_slots_def x bind.simps d
    by (rule succ_bind [rotated]) (use stays_refl [OF staysD(1) [OF k]] succ_update_slots [OF _ n len] in auto)
qed

section \<open>The node of the link\<close>

lemma masters_rename:
  assumes "clusterRenameNode n nm t = Some t'"
  shows "masters t' = masters t"
proof -
  obtain x :: clusterNode and u v b where u: "dictDelete_node (cn_name x) t = Some u" "set_node n (\<lambda>x. x\<lparr>cn_name := nm\<rparr>) u = Some v" "clusterAddNode n v = Some (t', b)"
    using assms by (auto simp: clusterRenameNode_def bind_eq_Some_conv)
  have "masters u = masters t" by (rule masters_heap) (use u(1) in \<open>auto simp: dictDelete_node_def split: if_splits option.splits\<close>)
  moreover have "masters t' = masters v" by (rule masters_heap) (use u(3) in \<open>auto simp: clusterAddNode_def bind_eq_Some_conv split: if_splits\<close>)
  ultimately show ?thesis using masters_set_node [OF u(2)] by simp
qed

lemma role_flags:
  assumes "ucast w AND (CLUSTER_NODE_MASTER OR CLUSTER_NODE_SLAVE) \<noteq> (0 :: u32)"
  shows "bit w 0 \<or> bit w 1"
proof -
  have "CLUSTER_NODE_MASTER OR CLUSTER_NODE_SLAVE = (mask 2 :: u32)" by (simp add: flag_defs mask_eq_exp_minus_1)
  then have "\<exists>i. bit (ucast w AND mask 2 :: u32) i" using assms by (metis bit_eq_iff bit_0_eq bot_apply bot_bool_def)
  then obtain i where "i < 2" "bit w i" by (auto simp: bit_simps)
  then show ?thesis by (cases i) auto
qed

lemma succ_end_handshake:
  assumes k: "stays s t" and x: "c_heap t n = Some x" "nodeInHandshake x" and nm: "clusterLookupNode nm t = None"
    and w: "ucast w AND (CLUSTER_NODE_MASTER OR CLUSTER_NODE_SLAVE) \<noteq> (0 :: u32)"
  shows "succ (do {
            s \<leftarrow> clusterRenameNode n nm t;
            s \<leftarrow> set_node n (\<lambda>x. x\<lparr>cn_flags := cn_flags x AND NOT CLUSTER_NODE_HANDSHAKE\<rparr>) s;
            s \<leftarrow> set_node n (\<lambda>x. x\<lparr>cn_flags := cn_flags x OR
              (ucast w AND (CLUSTER_NODE_MASTER OR CLUSTER_NODE_SLAVE))\<rparr>) s;
            Some (clusterDoBeforeSleep todo s, True)
          }) (\<lambda>(u, alive). stays s u)"
proof -
  have ok: "cluster_ok t" using staysD(2) [OF k] .
  obtain v where v: "clusterRenameNode n nm t = Some v" "cluster_ok v" "dom (c_heap v) = dom (c_heap t)" "c_myself v = c_myself t"
    "c_slots v = c_slots t" "roles v = roles t"
    using clusterRenameNode_ok [OF ok x(1) nm] by blast
  obtain y where y: "c_heap v n = Some y" using v(3) x(1) by blast
  define y' where "y' = y\<lparr>cn_flags := (cn_flags y AND NOT CLUSTER_NODE_HANDSHAKE) OR (ucast w AND (CLUSTER_NODE_MASTER OR CLUSTER_NODE_SLAVE))\<rparr>"
  let ?u = "clusterDoBeforeSleep todo (v\<lparr>c_heap := (c_heap v)(n \<mapsto> y')\<rparr>)"
  have lk: "links_ok v" using v(2) by (simp add: cluster_ok_def)
  have me: "n \<noteq> c_myself t" using x role_ok_me(2) [OF staysD(3) [OF k]] by blast
  have "cluster_ok ?u"
    by (rule cluster_ok_upd [OF v(2) y, where x' = y'])
      (use links_okD(6,7) [OF lk y] in \<open>simp_all add: y'_def same_tables_def clusterDoBeforeSleep_def slots_of_def flag_iff bit_simps flag_defs\<close>)
  moreover obtain a b where ab: "node_role y' = (a, b, False)" "a \<or> b"
    using role_flags [OF w] by (auto simp: y'_def node_role_def flag_iff bit_simps flag_defs)
  have r: "roles ?u = (roles t)(n \<mapsto> (a, b, False))" using v(6) ab(1) by (auto simp: roles_def clusterDoBeforeSleep_def fun_eq_iff)
  have my: "c_myself ?u = c_myself t" "c_slots ?u = c_slots t" using v(4,5) by (simp_all add: clusterDoBeforeSleep_def)
  have "masters ?u = masters v" using y by (auto simp: masters_def clusterDoBeforeSleep_def y'_def fun_eq_iff)
  then have ms: "masters ?u = masters t" using masters_rename [OF v(1)] by simp
  have "role_ok ?u" using staysD(3) [OF k] me ab(2) by (auto simp: role_ok_def r my)
  moreover have "slave_ok ?u"
    unfolding slave_ok_def r my ms
  proof (intro allI impI, goal_cases)
    case (1 a' h)
    then have "roles t (c_myself t) = Some (a', True, h)" using me by simp
    then obtain m r1 r2 where m: "masters t (c_myself t) = Some (Some m)" "roles t m = Some (r1, r2, False)"
      and none: "\<And>j. j < CLUSTER_SLOTS \<Longrightarrow> c_slots t j \<noteq> Some (c_myself t)" using staysD(4) [OF k] unfolding slave_ok_def by blast
    have "\<exists>r1 r2. ((roles t)(n \<mapsto> (a, b, False))) m = Some (r1, r2, False)" using m(2) by (cases "m = n") auto
    then show ?case using m(1) none by blast
  qed
  moreover have "dom (c_heap ?u) = dom (c_heap t)" using v(3) y by (auto simp: clusterDoBeforeSleep_def)
  moreover have "hands_ok ?u" by (rule hands_ok_mono [OF staysD(8) [OF k]]) (auto simp: r my split: if_splits)
  ultimately have "stays t ?u" using my by (auto simp: stays_def bus_ok_def r)
  then show ?thesis using v(1) y stays_trans [OF k] by (simp add: set_node_def y'_def)
qed

text \<open>The end of a message: the state is consistent, and as long as the link exists no node has disappeared.\<close>

definition processed :: "clusterState \<Rightarrow> clusterState \<times> bool \<Rightarrow> bool" where
  "processed s r \<longleftrightarrow> bus_ok (fst r) \<and> c_myself (fst r) = c_myself s \<and> (snd r \<longrightarrow> stays s (fst r))"

lemma processed_stays: "stays s t \<Longrightarrow> processed s (t, alive)"
  by (simp add: processed_def staysD)

lemma succ_del_handshake:
  assumes k: "stays s t" and x: "c_heap t n = Some x" "nodeInHandshake x"
  shows "succ (clusterDelNode n t) (\<lambda>u. processed s (u, False) \<and> dom (c_heap u) = dom (c_heap t) - {n})"
proof -
  have me: "n \<noteq> c_myself t" using x role_ok_me(2) [OF staysD(3) [OF k]] by blast
  have nd: "n \<in> dom (c_heap t)" using x by blast
  obtain u where u: "clusterDelNode n t = Some u" "cluster_ok u" "dom (c_heap u) = dom (c_heap t) - {n}" "c_myself u = c_myself t" "roles u = (roles t)(n := None)"
    and sl: "\<forall>j < CLUSTER_SLOTS. c_slots u j = (if c_slots t j = Some n then None else c_slots t j)"
    and ms: "\<forall>k. k \<noteq> n \<longrightarrow> masters t k \<noteq> Some (Some n) \<longrightarrow> masters u k = masters t k"
    using clusterDelNode_ok [OF staysD(2) [OF k] nd me] by blast
  have "role_ok u" using role_ok_del [OF staysD(3) [OF k] u(5) me u(4)] .
  moreover have "slave_ok u"
    unfolding slave_ok_def u(4,5)
  proof (intro allI impI, goal_cases)
    case (1 a h)
    then have "roles t (c_myself t) = Some (a, True, h)" using me by simp
    then obtain m r1 r2 where m: "masters t (c_myself t) = Some (Some m)" "roles t m = Some (r1, r2, False)"
      and none: "\<And>j. j < CLUSTER_SLOTS \<Longrightarrow> c_slots t j \<noteq> Some (c_myself t)" using staysD(4) [OF k] unfolding slave_ok_def by blast
    have mn: "m \<noteq> n" using m(2) x by (auto simp: roles_def node_role_def)
    then have "masters u (c_myself t) = Some (Some m)" using ms m(1) me by simp
    moreover have "c_slots u j \<noteq> Some (c_myself t)" if "j < CLUSTER_SLOTS" for j using sl none that by simp
    ultimately show ?case using m(2) mn by auto
  qed
  moreover have "hands_ok u"
    by (rule hands_ok_mono [OF staysD(8) [OF k]]) (use sl in \<open>auto simp: u(5) split: if_splits\<close>)
  ultimately show ?thesis using u staysD(5) [OF k] by (simp add: processed_def bus_ok_def)
qed

lemma succ_packet_link_node:
  assumes k: "stays s t" and n: "n \<in> dom (c_heap t)" and sn: "\<And>m. sender = Some m \<Longrightarrow> m \<in> dom (c_heap t)"
    and new: "sender = None \<Longrightarrow> clusterLookupNode (m_sender hdr) t = None"
    and w: "ucast (m_flags hdr) AND (CLUSTER_NODE_MASTER OR CLUSTER_NODE_SLAVE) \<noteq> (0 :: u32)"
  shows "succ (packet_link_node b link n hdr sender t) (processed s)"
proof -
  obtain x where x: "c_heap t n = Some x" using n by blast
  note c = calm_refl_stays [OF k]
  consider m where "nodeInHandshake x" "sender = Some m" | "nodeInHandshake x" "sender = None" |
    "\<not> nodeInHandshake x" "cn_name x \<noteq> m_sender hdr" | "\<not> nodeInHandshake x" "cn_name x = m_sender hdr" by blast
  then show ?thesis
  proof cases
    case (1 m)
    have del: "succ (clusterDelNode n u) (\<lambda>v. processed s (v, False))" if u: "calm t u" for u
    proof -
      obtain y where y: "c_heap u n = Some y" using calm_mem [OF u n] by blast
      have "node_role y = node_role x" using calmD(5) [OF u] x y by (metis comp_apply option.inject option.simps(9) roles_def)
      then show ?thesis using succ_weaken [OF succ_del_handshake [OF stays_frame [OF u k] y]] 1(1) by (simp add: node_role_def)
    qed
    show ?thesis
      unfolding packet_link_node_def x bind.simps if_P [OF 1(1)] 1(2) option.case Let_def
      by (rule succ_bind [OF succ_address [OF c sn [OF 1(2)]]]) (auto intro!: succ_bind [OF del])
  next
    case 2
    show ?thesis
      unfolding packet_link_node_def x bind.simps if_P [OF 2(1)] 2(2) option.case
      by (rule succ_weaken [OF succ_end_handshake [OF k x 2(1) new [OF 2(2)] w]]) (auto intro: processed_stays)
  next
    case 3
    have "succ (packet_link_node b link n hdr sender t) (\<lambda>(u, alive). calm t u)"
      unfolding packet_link_node_def x bind.simps if_not_P [OF 3(1)] if_P [OF 3(2)]
      by (auto simp: c role_bits intro!: calm_setting [OF _ n])
    then show ?thesis by (rule succ_weaken) (auto intro: processed_stays stays_frame [OF _ k])
  next
    case 4
    then show ?thesis using x k by (simp add: packet_link_node_def processed_stays)
  qed
qed

section \<open>Packets\<close>

lemma grows_todo: "grows nm s t \<Longrightarrow> grows nm s (clusterDoBeforeSleep w t)"
  using grows_frame [of t "clusterDoBeforeSleep w t" nm s] calm_refl_stays [OF growsD, of nm s t] by simp

lemma succ_packet_meet:
  assumes g: "grows nm s t" and b: "bus_env_ok b" "\<And>ns. b_name b ns \<noteq> nm" and ln: "\<And>m. link_node = Some m \<Longrightarrow> m \<in> dom (c_heap s)"
    and len: "unat (m_count hdr) \<le> length (m_gossip hdr)"
  shows "succ (do {
         let n = b_alloc b (c_heap t);
         let s = createClusterNode n (b_name b (c_nodes t)) CLUSTER_NODE_HANDSHAKE t;
         s \<leftarrow> set_node n (\<lambda>x. x\<lparr>cn_ip := ip, cn_port := port, cn_cport := cport\<rparr>) s;
         (s, _) \<leftarrow> clusterAddNode n s;
         let s = clusterDoBeforeSleep todo s;
         clusterProcessGossipSection b hdr link_node s
       }) (grows nm s)"
proof -
  let ?n = "b_alloc b (c_heap t)"
  have "\<exists>u v. set_node ?n (\<lambda>x. x\<lparr>cn_ip := ip, cn_port := port, cn_cport := cport\<rparr>)
      (createClusterNode ?n (b_name b (c_nodes t)) CLUSTER_NODE_HANDSHAKE t) = Some u \<and>
      clusterAddNode ?n u = Some (v, True) \<and> stays s v \<and> c_nodes v = c_nodes t @ [(b_name b (c_nodes t), ?n)]"
    by (rule new_node [OF growsD [OF g] b(1) refl]) (simp_all add: role_bits)
  then obtain u v where uv: "set_node ?n (\<lambda>x. x\<lparr>cn_ip := ip, cn_port := port, cn_cport := cport\<rparr>)
      (createClusterNode ?n (b_name b (c_nodes t)) CLUSTER_NODE_HANDSHAKE t) = Some u"
      "clusterAddNode ?n u = Some (v, True)" "stays s v" "c_nodes v = c_nodes t @ [(b_name b (c_nodes t), ?n)]" by blast
  have "grows nm s v" using g uv(3,4) b(2) by (auto simp: grows_def clusterLookupNode_def)
  then have gv: "grows nm s (clusterDoBeforeSleep todo v)" by (rule grows_todo)
  have "succ (clusterProcessGossipSection b hdr link_node (clusterDoBeforeSleep todo v)) (grows nm s)"
    by (rule succ_gossip [OF gv b _ len]) (use ln staysD(6) [OF growsD [OF gv]] in blast)
  then show ?thesis using uv(1,2) by (simp add: Let_def)
qed

lemma succ_packet_ping:
  assumes g: "grows (m_sender hdr) s t" and b: "bus_env_ok b" "\<And>ns. b_name b ns \<noteq> m_sender hdr" and ln: "\<And>m. link_node = Some m \<Longrightarrow> m \<in> dom (c_heap s)"
    and len: "unat (m_count hdr) \<le> length (m_gossip hdr)"
  shows "succ (packet_ping b link link_node hdr sender t) (grows (m_sender hdr) s)"
proof -
  note k = growsD [OF g]
  note c = calm_refl_stays [OF k]
  obtain me where me: "c_heap t (c_myself t) = Some me" using cluster_ok_me [OF staysD(2) [OF k]] by blast
  have myd: "c_myself t \<in> dom (c_heap t)" using me by blast
  have 1: "succ (if (m_type hdr = CLUSTERMSG_TYPE_MEET \<or> cn_ip me = []) \<and> b_announce_ip b = None
       then (case b_sock_ip b of
           Some ip \<Rightarrow> if ip \<noteq> cn_ip me
             then map_option (clusterDoBeforeSleep CLUSTER_TODO_SAVE_CONFIG) (set_node (c_myself t) (\<lambda>x. x\<lparr>cn_ip := ip\<rparr>) t)
             else Some t
         | None \<Rightarrow> Some t)
       else Some t) (grows (m_sender hdr) s)"
    by (rule succ_grows [OF g]) (auto simp: c role_bits intro!: succ_map succ_set_node [OF c myd] split: option.split)
  have ping: "succ (clusterSendPing b link link_node CLUSTERMSG_TYPE_PONG u) (grows (m_sender hdr) s)" if u: "grows (m_sender hdr) s u" for u
    by (rule succ_grows [OF u]) (rule succ_ping [OF calm_refl_stays [OF growsD [OF u]]], use ln staysD(6) [OF growsD [OF u]] in blast)
  have if_succ: "succ (if P then m else Some u) Q" if "Q u" "succ m Q" for P m and u :: clusterState and Q using that by simp
  show ?thesis
    unfolding packet_ping_def me bind.simps
    by (rule succ_bind [OF 1], rule succ_bind [OF _ ping], rule if_succ) (assumption, rule succ_packet_meet [OF _ b ln len])
qed

lemma succ_packet_update:
  assumes k: "stays s t" and n: "\<And>n. clusterLookupNode (m_update_nodename hdr) t = Some n \<Longrightarrow> \<exists>a b. roles t n = Some (a, b, False)"
    and len: "length (m_update_slots hdr) = CLUSTER_SLOTS div 8"
  shows "succ (packet_update b hdr t) (stays s)"
proof (cases "clusterLookupNode (m_update_nodename hdr) t")
  case (Some n)
  have nd: "n \<in> dom (c_heap t)" using lookup_heap [OF staysD(2) [OF k] Some] .
  obtain x where x: "c_heap t n = Some x" using nd by blast
  let ?Q = "\<lambda>u. stays s u \<and> (\<exists>a b. roles u n = Some (a, b, False))"
  have role: "\<exists>a b. roles u n = Some (a, b, False)" if "stays t u" for u using n [OF Some] staysD(7) [OF that] by blast
  have 1: "succ (if nodeIsSlave x then clusterSetNodeAsMaster n t else Some t) (stays t)"
    using succ_setNodeAsMaster [OF stays_refl [OF staysD(1) [OF k]] nd] stays_refl [OF staysD(1) [OF k]] by simp
  have 2: "succ (set_node n (\<lambda>x. x\<lparr>cn_configEpoch := e\<rparr>) u) (stays t)" if u: "stays t u" for u e
    by (rule succ_calm [OF u], rule succ_set_node [OF calm_refl_stays [OF u] staysD(6) [OF u nd]]) (simp_all add: role_bits)
  have 3: "succ (clusterUpdateSlotsConfigWith env n e (m_update_slots hdr) (clusterDoBeforeSleep w u)) (stays s)" if u: "stays t u" for u env e w
  proof -
    have "stays t (clusterDoBeforeSleep w u)" using stays_todo [OF u] .
    then show ?thesis using role [of "clusterDoBeforeSleep w u"] succ_update_slots [OF stays_trans [OF k] _ len] by blast
  qed
  show ?thesis
  proof (cases "m_update_configEpoch hdr \<le> cn_configEpoch x")
    case True
    then show ?thesis using Some x k by (simp add: packet_update_def)
  next
    case False
    show ?thesis
      unfolding packet_update_def Some option.case x bind.simps Let_def if_not_P [OF False]
      by (intro succ_bind [OF 1] succ_bind [OF 2] 3)
  qed
qed (simp add: packet_update_def k)

text \<open>A known sender of a configuration message: another node that is not in a handshake.\<close>

definition known_sender :: "nid option \<Rightarrow> clusterState \<Rightarrow> bool" where
  "known_sender sender s \<longleftrightarrow> (\<forall>n. sender = Some n \<longrightarrow> n \<noteq> c_myself s \<and> (\<exists>a b. roles s n = Some (a, b, False)))"

lemma known_sender_stays:
  assumes "known_sender sender s" "stays s t"
  shows "known_sender sender t"
  using assms staysD(5,7) [OF assms(2)] unfolding known_sender_def by metis

lemma known_sender_dom: "known_sender sender s \<Longrightarrow> sender = Some n \<Longrightarrow> n \<in> dom (c_heap s)"
  by (auto simp: known_sender_def roles_def)

lemma succ_packet_sender:
  assumes k: "stays s t" and sn: "known_sender (Some n) t" and b: "bus_env_ok b" "\<And>ns. b_name b ns \<noteq> m_sender hdr"
    and ln: "\<And>m. link_node = Some m \<Longrightarrow> m \<in> dom (c_heap t)"
    and len: "length (m_myslots hdr) = CLUSTER_SLOTS div 8" "unat (m_count hdr) \<le> length (m_gossip hdr)"
  shows "succ (do {
            s \<leftarrow> packet_role hdr n t;
            s \<leftarrow> packet_slots b hdr n e s;
            s \<leftarrow> packet_collision n e s;
            clusterProcessGossipSection b hdr link_node s
          }) (stays s)"
proof -
  obtain a c where n: "n \<noteq> c_myself t" "roles t n = Some (a, c, False)" using sn by (auto simp: known_sender_def)
  note t0 = stays_refl [OF staysD(1) [OF k]]
  have 2: "succ (packet_slots b hdr n e u) (stays t)" if u: "stays t u" for u
    using known_sender_stays [OF sn u] succ_packet_slots [OF u _ len(1)] by (auto simp: known_sender_def)
  have 3: "succ (packet_collision n e u) (stays t)" if u: "stays t u" for u
    by (rule succ_calm [OF u], rule succ_collision [OF calm_refl_stays [OF u]]) (rule known_sender_dom [OF known_sender_stays [OF sn u] refl])
  have 4: "succ (clusterProcessGossipSection b hdr link_node u) (stays t)" if u: "stays t u" for u
    by (rule succ_weaken [OF succ_gossip [OF grows_refl [OF staysD(1) [OF u]] b _ len(2)]])
      (use ln staysD(6) [OF u] stays_trans [OF u growsD] in blast)+
  show ?thesis
    by (rule succ_weaken [OF succ_bind [OF succ_packet_role [OF t0 n] succ_bind [OF 2 succ_bind [OF 3 4]]]]) (auto intro: stays_trans [OF k])
qed

lemma succ_packet_config:
  assumes k: "stays s t" and sn: "known_sender sender t" and b: "bus_env_ok b" "\<And>ns. b_name b ns \<noteq> m_sender hdr"
    and ln: "\<And>m. link_node = Some m \<Longrightarrow> m \<in> dom (c_heap t)"
    and new: "sender = None \<Longrightarrow> clusterLookupNode (m_sender hdr) t = None"
    and w: "ucast (m_flags hdr) AND (CLUSTER_NODE_MASTER OR CLUSTER_NODE_SLAVE) \<noteq> (0 :: u32)"
    and len: "length (m_myslots hdr) = CLUSTER_SLOTS div 8" "unat (m_count hdr) \<le> length (m_gossip hdr)"
  shows "succ (packet_config b link link_node hdr sender e t) (processed s)"
proof -
  note t0 = stays_refl [OF staysD(1) [OF k]]
  have 1: "succ (case link_node of None \<Rightarrow> Some (t, True) | Some n \<Rightarrow> packet_link_node b link n hdr sender t) (processed t)"
    using succ_packet_link_node [OF t0 ln known_sender_dom [OF sn] new w] processed_stays [OF t0] by (cases link_node) simp_all
  have 2: "succ (case sender of
          None \<Rightarrow> Some u
        | Some sn \<Rightarrow> do {
            x \<leftarrow> c_heap u sn;
            if m_type hdr = CLUSTERMSG_TYPE_PING \<and> \<not> nodeInHandshake x then do {
              (s, updated) \<leftarrow> nodeUpdateAddressIfNeeded b sn link hdr u;
              Some (if updated then clusterDoBeforeSleep (CLUSTER_TODO_SAVE_CONFIG OR CLUSTER_TODO_UPDATE_STATE) s else s)
            } else Some u
          }) (stays t)" if u: "stays t u" for u
  proof (cases sender)
    case (Some n)
    have n: "n \<in> dom (c_heap u)" by (rule known_sender_dom [OF known_sender_stays [OF sn u] Some])
    note c = calm_refl_stays [OF u]
    show ?thesis
      unfolding Some option.case
      by (rule succ_calm [OF u], rule succ_heap [OF n]) (auto simp: c intro!: succ_bind [OF succ_address [OF c n]])
  qed (simp add: u)
  have 3: "succ (case link_node of
          Some n \<Rightarrow> if m_type hdr = CLUSTERMSG_TYPE_PONG then packet_pong n u else Some u
        | None \<Rightarrow> Some u) (stays t)" if u: "stays t u" for u
    using succ_calm [OF u succ_packet_pong [OF calm_refl_stays [OF u] staysD(6) [OF u ln]]] u by (cases link_node) simp_all
  have 4: "succ (case sender of
          None \<Rightarrow> Some u
        | Some sn \<Rightarrow> do {
            s \<leftarrow> packet_role hdr sn u;
            s \<leftarrow> packet_slots b hdr sn e s;
            s \<leftarrow> packet_collision sn e s;
            clusterProcessGossipSection b hdr link_node s
          }) (stays t)" if u: "stays t u" for u
  proof (cases sender)
    case (Some n)
    have "known_sender (Some n) u" using known_sender_stays [OF sn u] Some by simp
    then show ?thesis unfolding Some option.case by (rule succ_packet_sender [OF u _ b staysD(6) [OF u ln] len])
  qed (simp add: u)
  have fin: "processed s r" if "processed t r" for r
    using that staysD(5) [OF k] stays_trans [OF k] by (auto simp: processed_def)
  have "succ (packet_config b link link_node hdr sender e t) (processed t)"
    unfolding packet_config_def
  proof (rule succ_bind [OF 1], unfold split_beta, goal_cases)
    case (1 r)
    show ?case
    proof (cases "snd r")
      case False
      have "r = (fst r, False)" using False by (cases r) simp
      then show ?thesis using 1 False by simp
    next
      case True
      then have u: "stays t (fst r)" using 1 by (simp add: processed_def)
      have t: "\<not> \<not> snd r" using True by simp
      show ?thesis unfolding if_not_P [OF t]
        by (intro succ_bind [OF 2 [OF u, unfolded split_beta]] succ_bind [OF 3] succ_bind [OF 4]) (simp_all add: processed_stays)
    qed
  qed
  then show ?thesis by (rule succ_weaken) (rule fin)
qed

text \<open>
  What the buffer of a received message is known to be: its arrays have the sizes of the structures, the sections at its end are as long as the message, and
  the lengths of a published message do not add up to more than 32 bits (see \<open>publish_length_wraps\<close>). Its sender states a role.
\<close>

definition packet_wf :: "clusterMsg \<Rightarrow> bool" where
  "packet_wf hdr \<longleftrightarrow> length (m_myslots hdr) = CLUSTER_SLOTS div 8 \<and> length (m_update_slots hdr) = CLUSTER_SLOTS div 8 \<and>
     length (m_gossip hdr) = (unat (m_totlen hdr) - CLUSTERMSG_MIN_LEN) div sizeof_gossip \<and>
     length (m_bulk_data hdr) = unat (m_totlen hdr) - (CLUSTERMSG_MIN_LEN + sizeof_publish - 8) \<and>
     unat (m_channel_len hdr) + unat (m_message_len hdr) < 2 ^ 31 \<and>
     ucast (m_flags hdr) AND (CLUSTER_NODE_MASTER OR CLUSTER_NODE_SLAVE) \<noteq> (0 :: u32)"

lemma gossip_length:
  assumes "packet_wf hdr" "clusterPacketLengthOk hdr rcvlen" "m_type hdr = CLUSTERMSG_TYPE_PING \<or> m_type hdr = CLUSTERMSG_TYPE_PONG \<or> m_type hdr = CLUSTERMSG_TYPE_MEET"
  shows "unat (m_count hdr) \<le> length (m_gossip hdr)"
proof -
  have c: "unat (m_count hdr) < 65536" using unsigned_less [of "m_count hdr"] by simp
  have "m_totlen hdr = of_nat CLUSTERMSG_MIN_LEN + of_nat sizeof_gossip * ucast (m_count hdr)"
    using assms(2,3) by (simp add: clusterPacketLengthOk_def Let_def)
  then have "m_totlen hdr = of_nat (CLUSTERMSG_MIN_LEN + sizeof_gossip * unat (m_count hdr))"
    using explen_gossip(1) [OF c] by simp
  then have "unat (m_totlen hdr) = CLUSTERMSG_MIN_LEN + sizeof_gossip * unat (m_count hdr)" using explen_gossip(2) [OF c] by simp
  then show ?thesis using assms(1) by (simp add: packet_wf_def sizeof_gossip_def)
qed

lemma publish_length:
  assumes "packet_wf hdr" "clusterPacketLengthOk hdr rcvlen" "m_type hdr = CLUSTERMSG_TYPE_PUBLISH"
  shows "\<exists>p. publish_payload hdr = Some p"
proof -
  let ?c = "unat (m_channel_len hdr)" and ?m = "unat (m_message_len hdr)"
  have "m_totlen hdr = of_nat CLUSTERMSG_MIN_LEN + (of_nat sizeof_publish - 8 + m_channel_len hdr + m_message_len hdr)"
    using assms(2,3) by (simp add: clusterPacketLengthOk_def Let_def CLUSTERMSG_TYPE_PING_def CLUSTERMSG_TYPE_PONG_def CLUSTERMSG_TYPE_MEET_def
        CLUSTERMSG_TYPE_FAIL_def CLUSTERMSG_TYPE_PUBLISH_def)
  then have e: "m_totlen hdr = of_nat (2264 + ?c + ?m)" by (simp add: sizes)
  have "2264 + ?c + ?m < 2 ^ 32" using assms(1) by (simp add: packet_wf_def)
  then have "unat (m_totlen hdr) = 2264 + ?c + ?m" unfolding e unat_of_nat by simp
  then show ?thesis using assms(1) by (simp add: packet_wf_def publish_payload_def Let_def sizes)
qed

text \<open>
  No name in the message is the random name of a node in a handshake, which only this node knows, or the name of this node as the sender; no random name is
  the name of the sender.
\<close>

definition packet_names :: "bus_env \<Rightarrow> clusterMsg \<Rightarrow> clusterState \<Rightarrow> bool" where
  "packet_names b hdr s \<longleftrightarrow> known_sender (clusterLookupNode (m_sender hdr) s) s \<and>
     (\<forall>n. clusterLookupNode (m_update_nodename hdr) s = Some n \<longrightarrow> (\<exists>r1 r2. roles s n = Some (r1, r2, False))) \<and>
     (\<forall>ns. b_name b ns \<noteq> m_sender hdr)"

lemma succ_packet:
  assumes bus: "bus_ok s" and b: "bus_env_ok b" and wf: "packet_wf hdr" and nm: "packet_names b hdr s"
    and ln: "\<And>m. link_node = Some m \<Longrightarrow> m \<in> dom (c_heap s)"
  shows "succ (clusterProcessPacket b link link_node rcvlen hdr s) (processed s)"
proof (cases "clusterPacketLengthOk hdr rcvlen")
  case False
  then show ?thesis using processed_stays [OF stays_refl [OF bus]] by (simp add: clusterProcessPacket_def)
next
  case True
  note s0 = stays_refl [OF bus]
  let ?sender = "clusterLookupNode (m_sender hdr) s"
  have sn: "known_sender ?sender s" and fr: "\<And>ns. b_name b ns \<noteq> m_sender hdr" using nm by (simp_all add: packet_names_def)
  have len: "length (m_myslots hdr) = CLUSTER_SLOTS div 8" "length (m_update_slots hdr) = CLUSTER_SLOTS div 8"
    and w: "ucast (m_flags hdr) AND (CLUSTER_NODE_MASTER OR CLUSTER_NODE_SLAVE) \<noteq> (0 :: u32)" using wf by (simp_all add: packet_wf_def)
  have known: "(case ?sender of None \<Rightarrow> Some False | Some sn \<Rightarrow> do { x \<leftarrow> c_heap s sn; Some (\<not> nodeInHandshake x) }) = Some (?sender \<noteq> None)"
    using sn by (auto simp: known_sender_def roles_def node_role_def split: option.split)
  have 1: "succ (case ?sender of Some sn \<Rightarrow> if ?sender \<noteq> None then packet_epochs hdr sn s else Some s | None \<Rightarrow> Some s) (calm s)"
    using succ_packet_epochs [OF calm_refl_stays [OF s0] known_sender_dom [OF sn]] calm_refl_stays [OF s0] by (cases ?sender) auto
  have conf: "succ (do {
        s \<leftarrow> (if m_type hdr = CLUSTERMSG_TYPE_PING \<or> m_type hdr = CLUSTERMSG_TYPE_MEET then packet_ping b link link_node hdr ?sender u else Some u);
        packet_config b link link_node hdr ?sender e s
      }) (processed s)"
    if u: "calm s u" and ty: "m_type hdr = CLUSTERMSG_TYPE_PING \<or> m_type hdr = CLUSTERMSG_TYPE_PONG \<or> m_type hdr = CLUSTERMSG_TYPE_MEET" for u e
  proof -
    note gl = gossip_length [OF wf True ty]
    have gu: "grows (m_sender hdr) s u" by (rule grows_frame [OF u grows_refl [OF bus]])
    have "succ (if m_type hdr = CLUSTERMSG_TYPE_PING \<or> m_type hdr = CLUSTERMSG_TYPE_MEET then packet_ping b link link_node hdr ?sender u else Some u)
        (grows (m_sender hdr) s)"
      using succ_packet_ping [OF gu b fr ln gl] gu by simp
    then show ?thesis
    proof (rule succ_bind)
      fix v assume v: "grows (m_sender hdr) s v"
      note sv = growsD [OF v]
      show "succ (packet_config b link link_node hdr ?sender e v) (processed s)"
        by (rule succ_packet_config [OF sv known_sender_stays [OF sn sv] b fr staysD(6) [OF sv ln] _ w len(1) gl])
          (use v in \<open>simp_all add: grows_def\<close>)
    qed
  qed
  have other: "succ (case ?sender of
            None \<Rightarrow> Some u
          | Some sn \<Rightarrow>
              if m_type hdr = CLUSTERMSG_TYPE_FAIL then packet_fail hdr u
              else if m_type hdr = CLUSTERMSG_TYPE_FAILOVER_AUTH_REQUEST then
                clusterSendFailoverAuthIfNeeded sn \<lparr>rq_currentEpoch = m_currentEpoch hdr, rq_configEpoch = m_configEpoch hdr,
                  rq_myslots = m_myslots hdr, rq_force_ack = (m_mflags hdr AND CLUSTERMSG_FLAG0_FORCEACK \<noteq> 0)\<rparr> u
              else if m_type hdr = CLUSTERMSG_TYPE_FAILOVER_AUTH_ACK then packet_auth_ack sn e u
              else if m_type hdr = CLUSTERMSG_TYPE_MFSTART then packet_mfstart b sn u
              else if m_type hdr = CLUSTERMSG_TYPE_UPDATE then packet_update b hdr u
              else Some u) (stays s)" if u: "calm s u" for u e
  proof (cases ?sender)
    case None
    then show ?thesis using stays_frame [OF u s0] by simp
  next
    case (Some n)
    have n: "n \<in> dom (c_heap s)" using known_sender_dom [OF sn Some] .
    have upd: "\<exists>r1 r2. roles u m = Some (r1, r2, False)" if "clusterLookupNode (m_update_nodename hdr) u = Some m" for m
      using nm that calmD(5,6) [OF u] by (simp add: packet_names_def clusterLookupNode_def)
    show ?thesis
      using stays_frame [OF u s0] succ_calm [OF s0 succ_packet_fail [OF u]] succ_calm [OF s0 succ_vote [OF u n]] succ_calm [OF s0 succ_packet_auth_ack [OF u n]]
        succ_calm [OF s0 succ_packet_mfstart [OF u n]] succ_packet_update [OF stays_frame [OF u s0] upd len(2)] len(1)
      by (simp add: Some)
  qed
  have fin: "succ (map_option (\<lambda>s. (s, True)) m) (processed s)" if "succ m (stays s)" for m
    by (rule succ_map, rule succ_weaken [OF that]) (rule processed_stays)
  have nf: "\<not> \<not> clusterPacketLengthOk hdr rcvlen" using True by simp
  show ?thesis
    unfolding clusterProcessPacket_def Let_def if_not_P [OF nf] known bind.simps
  proof (rule succ_bind [OF 1], goal_cases)
    case (1 u)
    show ?case
    proof (cases "m_type hdr = CLUSTERMSG_TYPE_PING \<or> m_type hdr = CLUSTERMSG_TYPE_PONG \<or> m_type hdr = CLUSTERMSG_TYPE_MEET")
      case ty: True
      show ?thesis unfolding if_P [OF ty] by (rule conf [OF 1 ty])
    next
      case ty: False
      then have ty': "\<not> (m_type hdr = CLUSTERMSG_TYPE_PING \<or> m_type hdr = CLUSTERMSG_TYPE_MEET)" by blast
      show ?thesis
      proof (cases "m_type hdr = CLUSTERMSG_TYPE_PUBLISH")
        case pub: True
        obtain p where "publish_payload hdr = Some p" using publish_length [OF wf True pub] by blast
        then show ?thesis unfolding if_not_P [OF ty] if_not_P [OF ty'] bind.simps if_P [OF pub]
          using processed_stays [OF stays_emit [OF stays_frame [OF 1 s0]]] processed_stays [OF stays_frame [OF 1 s0]] by (cases p) simp
      next
        case pub: False
        show ?thesis unfolding if_not_P [OF ty] if_not_P [OF ty'] bind.simps if_not_P [OF pub] by (rule fin [OF other [OF 1]])
      qed
    qed
  qed
qed

end
