(* ===== verification/Cluster_Cron_Inv.thy ===== *)
theory Cluster_Cron_Inv
  imports Cluster_Cron Cluster_Process
begin

text \<open>The periodic work of a node keeps the state consistent: failover, migration, and the loops of \<open>clusterCron\<close>.\<close>

unbundle bit_operations_syntax

section \<open>Failover\<close>

lemma succ_updateState:
  assumes k: "calm s t"
  shows "succ (clusterUpdateState env t) (calm s)"
proof -
  obtain u where u: "clusterUpdateState env t = Some u" "c_heap u = c_heap t" "same_tables t u"
    using clusterUpdateState_ok [OF calmD(1) [OF k]] by blast
  have "keeps t u" by (rule keeps_cong [OF calmD(1) [OF k]]) (use u(2,3) in \<open>simp_all add: same_tables_def\<close>)
  then have "calm t u" using masters_heap [OF u(2)] u(3) by (simp add: calm_def same_tables_def)
  then show ?thesis using u(1) calm_trans [OF k] by simp
qed

lemma succ_take_slot:
  assumes k: "stays s t" and me: "roles t (c_myself t) = Some (True, False, False)" and m: "m \<in> dom (c_heap t)" and j: "j < CLUSTER_SLOTS"
  shows "succ (do {
              b \<leftarrow> clusterNodeGetSlotBit m j t;
              if b then do {
                (s, _) \<leftarrow> clusterDelSlot j t;
                (s, _) \<leftarrow> clusterAddSlot (c_myself s) j s;
                Some s
              } else Some t
            }) (\<lambda>u. stays s u \<and> roles u (c_myself u) = Some (True, False, False))"
proof -
  have ok: "cluster_ok t" using staysD(2) [OF k] .
  obtain y where y: "c_heap t m = Some y" using m by blast
  have gb: "clusterNodeGetSlotBit m j t = Some (c_slots t j = Some m)"
    using ok y j by (simp add: clusterNodeGetSlotBit_def slots_ok_def cluster_ok_def)
  have myt: "c_myself t \<in> dom (c_heap t)" using cluster_ok_me [OF ok] by blast
  obtain t1 t2 b where t2: "clusterDelSlot j t = Some (t1, b)" "clusterAddSlot (c_myself t) j t1 = Some (t2, True)" "keeps t t2" "slot_frame t t1"
    "slot_frame t t2" "c_slots t2 = (c_slots t)(j \<mapsto> c_myself t)"
    using keeps_move [OF ok myt j] by metis
  have my: "c_myself t1 = c_myself t" using t2(4) by (auto simp: slot_frame_def)
  have r: "roles t2 = roles t" "c_myself t2 = c_myself t" using keepsD(3,5) [OF t2(3)] by simp_all
  have "slave_ok t2" using me by (simp add: slave_ok_def r)
  moreover have "hands_ok t2"
    by (rule hands_ok_mono [OF staysD(8) [OF k]]) (use me in \<open>auto simp: r t2(6) split: if_splits\<close>)
  ultimately have "stays t t2" using keepsD(1,2) [OF t2(3)] role_ok_keeps [OF t2(3) staysD(3) [OF k]] r by (auto simp: stays_def bus_ok_def)
  then show ?thesis using gb t2(1,2) my k me r stays_trans [OF k] by simp
qed

lemma succ_replaceMaster:
  assumes k: "stays s t"
  shows "succ (clusterFailoverReplaceYourMaster env t) (stays s)"
proof -
  obtain me where me: "c_heap t (c_myself t) = Some me" using cluster_ok_me [OF staysD(2) [OF k]] by blast
  have lk: "links_ok t" using staysD(2) [OF k] by (simp add: cluster_ok_def)
  obtain a where a: "roles t (c_myself t) = Some (a, \<not> a, False)" using me_role_bus [OF staysD(3) [OF k]] .
  show ?thesis
  proof (cases "cn_slaveof me = None \<or> nodeIsMaster me")
    case True
    then show ?thesis using k by (auto simp: clusterFailoverReplaceYourMaster_def me split: option.splits)
  next
    case False
    then obtain m where m: "cn_slaveof me = Some m" "\<not> nodeIsMaster me" by auto
    have md: "m \<in> dom (c_heap t)" using links_okD(8) [OF lk me m(1)] by simp
    have myd: "c_myself t \<in> dom (c_heap t)" using me by auto
    obtain u where u: "clusterSetNodeAsMaster (c_myself t) t = Some u" "c_myself u = c_myself t" "dom (c_heap u) = dom (c_heap t)"
      "roles u = (roles t)(c_myself t := map_option (\<lambda>(m, sl, h). (True, m \<and> sl, h)) (roles t (c_myself t)))"
      using clusterSetNodeAsMaster_ok [OF staysD(2) [OF k] myd] by blast
    have su: "stays s u" using succ_setNodeAsMaster [OF k myd] u(1) by (simp add: succ_def)
    have ru: "roles u (c_myself u) = Some (True, False, False)" using a by (simp add: u(2,4))
    let ?Q = "\<lambda>v. stays s v \<and> roles v (c_myself v) = Some (True, False, False) \<and> m \<in> dom (c_heap v)"
    let ?e = "emit Replication_unset_master u"
    have e: "?Q ?e" using stays_emit [OF su] ru md u(3) by (simp add: emit_def roles_def)
    have step: "succ (do {
              b \<leftarrow> clusterNodeGetSlotBit m j v;
              if b then do {
                (s, _) \<leftarrow> clusterDelSlot j v;
                (s, _) \<leftarrow> clusterAddSlot (c_myself s) j s;
                Some s
              } else Some v
            }) ?Q" if j: "j \<in> set [0..<CLUSTER_SLOTS]" and v: "?Q v" for j v
    proof -
      have vv: "stays v v" using v staysD(1) stays_refl by blast
      have jj: "j < CLUSTER_SLOTS" using j by simp
      show ?thesis
        by (rule succ_weaken [OF succ_take_slot [OF vv _ _ jj]]) (use v staysD(6) stays_trans in \<open>blast+\<close>)
    qed
    have loop: "succ (foldM (\<lambda>j s. do {
              b \<leftarrow> clusterNodeGetSlotBit m j s;
              if b then do {
                (s, _) \<leftarrow> clusterDelSlot j s;
                (s, _) \<leftarrow> clusterAddSlot (c_myself s) j s;
                Some s
              } else Some s
            }) [0..<CLUSTER_SLOTS] ?e) ?Q" by (rule succ_foldM [OF e step])
    have last: "succ (do {
           s \<leftarrow> clusterUpdateState env v;
           let s = emit Save_config s;
           let s = emit (Broadcast_pong True) s;
           Some (resetManualFailover (e_paused env) s)
         }) (stays s)" if v: "?Q v" for v
    proof -
      have sv: "stays s v" using v by blast
      show ?thesis unfolding Let_def by (rule succ_calm [OF sv], rule succ_bind [OF succ_updateState [OF calm_refl_stays [OF sv]]]) simp
    qed
    have nm: "nodeIsMaster me = False" using m(2) by simp
    show ?thesis
      unfolding clusterFailoverReplaceYourMaster_def me bind.simps m(1) option.case nm if_False u(1) Let_def
      by (rule succ_bind [OF loop last [unfolded Let_def]])
  qed
qed

lemma rank_some:
  assumes ok: "cluster_ok t" and me: "c_heap t (c_myself t) = Some me" "nodeIsSlave me"
  shows "\<exists>r. clusterGetSlaveRank env t = Some r"
proof (cases "cn_slaveof me")
  case None
  then show ?thesis using me by (simp add: clusterGetSlaveRank_def)
next
  case (Some m)
  have lk: "links_ok t" using ok by (simp add: cluster_ok_def)
  obtain y where y: "c_heap t m = Some y" using links_okD(8) [OF lk me(1) Some] by blast
  have "\<exists>ys. those (map (\<lambda>sl. map_option cn_repl_offset (c_heap t sl)) (filter (\<lambda>sl. sl \<noteq> c_myself t) (cn_slaves y))) = Some ys"
    by (rule those_some) (use links_okD(5) [OF lk y] in auto)
  then show ?thesis using me Some y by (auto simp: clusterGetSlaveRank_def)
qed

lemma succ_logCantFailover:
  assumes k: "calm s t"
  shows "succ (clusterLogCantFailover env reason t) (calm s)"
proof -
  obtain me where me: "c_heap t (c_myself t) = Some me" using cluster_ok_me [OF calmD(1) [OF k]] by blast
  have lk: "links_ok t" using calmD(1) [OF k] by (simp add: cluster_ok_def)
  have "succ (do {
        (quiet, s) \<leftarrow> (case cn_slaveof me of
           None \<Rightarrow> Some (False, u)
         | Some master \<Rightarrow> do {
             m \<leftarrow> c_heap u master;
             if nodeFailed m then (let (now, s) = mstime u in Some (now - cn_fail_time m < nf, s))
             else Some (False, u)
           });
        if quiet then Some s else Some (s\<lparr>c_lastlog_time := e_time env\<rparr>)
      }) (calm s)" if "calm s u" "c_heap u = c_heap t" for u nf
  proof (cases "cn_slaveof me")
    case None
    then show ?thesis using that by simp
  next
    case (Some m)
    then obtain y where "c_heap t m = Some y" using links_okD(8) [OF lk me Some] by blast
    then show ?thesis using Some that by (simp add: mstime_def)
  qed
  then show ?thesis using k me by (simp add: clusterLogCantFailover_def Let_def)
qed

lemma rank_cong: "c_heap u = c_heap t \<Longrightarrow> c_myself u = c_myself t \<Longrightarrow> clusterGetSlaveRank env u = clusterGetSlaveRank env t"
  by (simp only: clusterGetSlaveRank_def)

lemma possible_some:
  assumes "cluster_ok t"
  shows "\<exists>p. failover_possible manual t = Some p \<and> (p \<longrightarrow> (\<exists>me. c_heap t (c_myself t) = Some me \<and> \<not> nodeIsMaster me))"
proof -
  obtain me where me: "c_heap t (c_myself t) = Some me" using cluster_ok_me [OF assms] by blast
  have lk: "links_ok t" using assms by (simp add: cluster_ok_def)
  show ?thesis
  proof (cases "nodeIsMaster me \<or> cn_slaveof me = None")
    case True
    then show ?thesis using me by (auto simp: failover_possible_def split: option.split)
  next
    case False
    then obtain m where m: "cn_slaveof me = Some m" by auto
    then obtain y where "c_heap t m = Some y" using links_okD(8) [OF lk me m] by blast
    then show ?thesis using False m me by (simp add: failover_possible_def)
  qed
qed

lemma succ_promote:
  assumes k: "stays s t"
  shows "succ (failover_promote env t) (stays s)"
proof -
  note c = calm_refl_stays [OF k]
  obtain me where me: "c_heap t (c_myself t) = Some me" using cluster_ok_me [OF staysD(2) [OF k]] by blast
  then have myd: "c_myself t \<in> dom (c_heap t)" by blast
  have "succ (if cn_configEpoch me < c_failover_auth_epoch t
       then set_node (c_myself t) (\<lambda>x. x\<lparr>cn_configEpoch := c_failover_auth_epoch t\<rparr>) t else Some t) (stays s)"
    using succ_calm [OF k succ_set_node [OF c myd]] k by (simp add: role_bits)
  then show ?thesis unfolding failover_promote_def me bind.simps by (rule succ_bind) (rule succ_replaceMaster)
qed

lemma succ_slaveFailover:
  assumes k: "stays s t"
  shows "succ (clusterHandleSlaveFailover env t) (stays s)"
proof -
  note c = calm_refl_stays [OF k]
  have sc: "stays s u" if "calm t u" for u using stays_frame [OF that k] .
  have ok: "cluster_ok t" using staysD(2) [OF k] .
  let ?manual = "c_mf_end t \<noteq> 0 \<and> c_mf_can_start t"
  let ?t = "t\<lparr>c_tick := Suc (c_tick t), c_todo_before_sleep := c_todo_before_sleep t AND NOT CLUSTER_TODO_HANDLE_FAILOVER\<rparr>"
  have ct: "calm t ?t" using c by simp
  obtain p where p: "failover_possible ?manual ?t = Some p" "p \<Longrightarrow> \<exists>me. c_heap t (c_myself t) = Some me \<and> \<not> nodeIsMaster me"
    using possible_some [OF calmD(1) [OF ct], of ?manual] by auto
  have log: "succ (clusterLogCantFailover env r u) (stays s)" if "calm t u" for r u
    by (rule succ_calm [OF k succ_logCantFailover [OF that]])
  have pr: "succ (failover_promote env u) (stays s)" if "calm t u" for u using succ_promote [OF sc [OF that]] .
  have ask: "stays s (failover_ask_votes u)" if "calm t u" for u using sc that by (simp add: failover_ask_votes_def Let_def)
  have run: "succ (if failover_data_too_old env ?manual ?t then clusterLogCantFailover env 1 ?t
       else if age > retry then failover_schedule env ?t
       else do {
         s \<leftarrow> failover_update_rank env ?t;
         let (now, s) = mstime s;
         if now < c_failover_auth_time s then clusterLogCantFailover env 2 s
         else if age > timeout then clusterLogCantFailover env 3 s
         else if \<not> c_failover_auth_sent s then Some (failover_ask_votes s)
         else if c_failover_auth_count s \<ge> quorum then failover_promote env s
         else clusterLogCantFailover env 4 s
       }) (stays s)" if pp: p for age retry timeout quorum
  proof -
    obtain me where me: "c_heap t (c_myself t) = Some me" "\<not> nodeIsMaster me" using p(2) [OF pp] by blast
    then have sl: "nodeIsSlave me" using role_ok_me(1) [OF staysD(3) [OF k] me(1)] by simp
    obtain r where r: "clusterGetSlaveRank env t = Some r" using rank_some [OF ok me(1) sl] by blast
    have rank: "clusterGetSlaveRank env u = Some r" if "c_heap u = c_heap t" "c_myself u = c_myself t" for u
      using rank_cong [OF that] r by simp
    have "succ (failover_schedule env ?t) (stays s)" using sc c by (simp add: failover_schedule_def rank mstime_def Let_def)
    moreover have "succ (failover_update_rank env ?t) (calm t)" using c by (simp add: failover_update_rank_def rank)
    then have "succ (do {
         s \<leftarrow> failover_update_rank env ?t;
         let (now, s) = mstime s;
         if now < c_failover_auth_time s then clusterLogCantFailover env 2 s
         else if age > timeout then clusterLogCantFailover env 3 s
         else if \<not> c_failover_auth_sent s then Some (failover_ask_votes s)
         else if c_failover_auth_count s \<ge> quorum then failover_promote env s
         else clusterLogCantFailover env 4 s
       }) (stays s)"
      by (rule succ_bind) (auto simp: mstime_def Let_def intro: log pr ask)
    ultimately show ?thesis using log [OF ct] by simp
  qed
  show ?thesis
  proof (cases p)
    case False
    then show ?thesis using p(1) sc c by (simp add: clusterHandleSlaveFailover_def mstime_def Let_def)
  next
    case True
    have "clusterHandleSlaveFailover env t =
      (if failover_data_too_old env ?manual ?t then clusterLogCantFailover env 1 ?t
       else if c_clock t (c_tick t) - c_failover_auth_time t > (if c_node_timeout t * 2 < 2000 then 2000 else c_node_timeout t * 2) * 2
       then failover_schedule env ?t
       else do {
         s \<leftarrow> failover_update_rank env ?t;
         let (now, s) = mstime s;
         if now < c_failover_auth_time s then clusterLogCantFailover env 2 s
         else if c_clock t (c_tick t) - c_failover_auth_time t > (if c_node_timeout t * 2 < 2000 then 2000 else c_node_timeout t * 2)
         then clusterLogCantFailover env 3 s
         else if \<not> c_failover_auth_sent s then Some (failover_ask_votes s)
         else if c_failover_auth_count s \<ge> c_size t div 2 + 1 then failover_promote env s
         else clusterLogCantFailover env 4 s
       })"
      using p(1) True by (simp add: clusterHandleSlaveFailover_def mstime_def Let_def cong: if_cong)
    then show ?thesis by (simp only: run [OF True])
  qed
qed

section \<open>Migration\<close>

lemma slaves_some:
  assumes "cluster_ok t" "c_heap t n = Some x"
  shows "\<exists>ys. those (map (c_heap t) (cn_slaves x)) = Some ys" "set (cn_slaves x) \<subseteq> dom (c_heap t)"
proof -
  have lk: "links_ok t" using assms(1) by (simp add: cluster_ok_def)
  show "set (cn_slaves x) \<subseteq> dom (c_heap t)" using links_okD(5) [OF lk assms(2)] by auto
  then show "\<exists>ys. those (map (c_heap t) (cn_slaves x)) = Some ys" by (intro those_some) auto
qed

lemma count_slaves_some:
  assumes "cluster_ok t" "c_heap t n = Some x"
  shows "\<exists>k. clusterCountNonFailingSlaves n t = Some k"
  using slaves_some(1) [OF assms] assms(2) by (auto simp: clusterCountNonFailingSlaves_def)

lemma has_slots:
  assumes "slots_ok s" "c_heap s n = Some x" "cn_numslots x > 0"
  shows "\<exists>j < CLUSTER_SLOTS. c_slots s j = Some n"
proof -
  have "cn_numslots x = int (card {j. j < CLUSTER_SLOTS \<and> c_slots s j = Some n})" using assms(1,2) by (simp add: slots_ok_def)
  then have "card {j. j < CLUSTER_SLOTS \<and> c_slots s j = Some n} \<noteq> 0" using assms(3) by linarith
  then have "{j. j < CLUSTER_SLOTS \<and> c_slots s j = Some n} \<noteq> {}" by (metis card.empty)
  then show ?thesis by blast
qed

text \<open>A target of the migration: a node that is not a slave and serves slots.\<close>

definition migration_target :: "clusterState \<Rightarrow> nid option \<Rightarrow> bool" where
  "migration_target t target \<longleftrightarrow> (\<forall>m. target = Some m \<longrightarrow> (\<exists>a h. roles t m = Some (a, False, h)) \<and> (\<exists>j < CLUSTER_SLOTS. c_slots t j = Some m))"

lemma succ_migration_round:
  assumes k: "calm t s" and n: "n \<in> dom (c_heap t)" and c: "candidate \<in> dom (c_heap t)" and tg: "migration_target t target"
  shows "succ (migration_round mx n (s, target, candidate)) (\<lambda>(s', target', candidate'). calm t s' \<and> candidate' \<in> dom (c_heap t) \<and> migration_target t target')"
proof -
  have ok: "cluster_ok s" using calmD(1) [OF k] .
  obtain x where x: "c_heap s n = Some x" using calm_mem [OF k n] by blast
  obtain ks where ks: "(if nodeIsMaster x then clusterCountNonFailingSlaves n s else Some 0) = Some ks"
    using count_slaves_some [OF ok x] by (cases "nodeIsMaster x") auto
  define orphan where "orphan \<longleftrightarrow> \<not> (nodeIsSlave x \<or> nodeFailed x) \<and> cn_flags x AND CLUSTER_NODE_MIGRATE_TO \<noteq> 0 \<and> \<not> ks > 0"
  have role: "roles t n = Some (node_role x)" using calmD(5) [OF k] x by (metis comp_apply option.simps(9) roles_def)
  have tgt: "migration_target t (if target = None \<and> cn_numslots x > 0 then Some n else target)" if orphan
  proof (cases "target = None \<and> cn_numslots x > 0")
    case True
    have "slots_ok s" using ok by (simp add: cluster_ok_def)
    then have "\<exists>j < CLUSTER_SLOTS. c_slots t j = Some n" using has_slots [OF _ x] True k by (auto simp: calm_def)
    then show ?thesis using True role that by (simp add: migration_target_def orphan_def node_role_def)
  qed (use tg in auto)
  have cand: "succ (if ks = mx
       then foldM (\<lambda>sl candidate. do {
           y \<leftarrow> c_heap u sl;
           c \<leftarrow> c_heap u candidate;
           Some (if memcmp_less (cn_name y) (cn_name c) then sl else candidate)
         }) (cn_slaves x) candidate
       else Some candidate) (\<lambda>c. c \<in> dom (c_heap t))" if u: "calm t u" for u
  proof -
    have sl: "set (cn_slaves x) \<subseteq> dom (c_heap t)" using slaves_some(2) [OF ok x] calmD(2) [OF k] by simp
    have "succ (foldM (\<lambda>sl candidate. do {
           y \<leftarrow> c_heap u sl;
           c \<leftarrow> c_heap u candidate;
           Some (if memcmp_less (cn_name y) (cn_name c) then sl else candidate)
         }) (cn_slaves x) candidate) (\<lambda>c. c \<in> dom (c_heap t))"
    proof (rule succ_foldM)
      show "candidate \<in> dom (c_heap t)" by (rule c)
      fix sl c assume "sl \<in> set (cn_slaves x)" "c \<in> dom (c_heap t)"
      then have d: "sl \<in> dom (c_heap t)" "c \<in> dom (c_heap t)" "sl \<in> dom (c_heap u)" "c \<in> dom (c_heap u)" using sl calm_mem [OF u] by blast+
      show "succ (do { y \<leftarrow> c_heap u sl; c' \<leftarrow> c_heap u c; Some (if memcmp_less (cn_name y) (cn_name c') then sl else c) }) (\<lambda>c. c \<in> dom (c_heap t))"
        by (rule succ_heap [OF d(3)], rule succ_heap [OF d(4)]) (use d(1,2) in simp)
    qed
    then show ?thesis using c by simp
  qed
  have mid: "succ (if orphan then do {
         let target = (if target = None \<and> cn_numslots x > 0 then Some n else target);
         s \<leftarrow> (if cn_orphaned_time x = 0
           then (let (now, s) = mstime s in set_node n (\<lambda>x. x\<lparr>cn_orphaned_time := now\<rparr>) s) else Some s);
         Some (s, target)
       } else do {
         s \<leftarrow> set_node n (\<lambda>x. x\<lparr>cn_orphaned_time := 0\<rparr>) s;
         Some (s, target)
       }) (\<lambda>(u, tg'). calm t u \<and> migration_target t tg')"
  proof (cases orphan)
    case True
    have "succ (if cn_orphaned_time x = 0
           then (let (now, s) = mstime s in set_node n (\<lambda>x. x\<lparr>cn_orphaned_time := now\<rparr>) s) else Some s) (calm t)"
      using k by (simp add: mstime_def succ_set_node [OF _ n] role_bits)
    then show ?thesis unfolding if_P [OF True] Let_def using tgt [OF True] by (intro succ_bind) simp_all
  next
    case False
    show ?thesis unfolding if_not_P [OF False] using tg by (intro succ_bind [OF succ_set_node [OF k n]]) (simp_all add: role_bits)
  qed
  show ?thesis
    unfolding migration_round_def prod.case x bind.simps ks
    unfolding Let_def orphan_def [symmetric]
    apply (rule succ_bind [OF mid [unfolded Let_def]])
    apply (auto intro!: succ_bind [OF cand])
    done
qed

lemma succ_migration:
  assumes k: "stays s t"
  shows "succ (clusterHandleSlaveMigration env mx t) (stays s)"
proof -
  have ok: "cluster_ok t" using staysD(2) [OF k] .
  then have lk: "links_ok t" by (simp add: cluster_ok_def)
  obtain me where me: "c_heap t (c_myself t) = Some me" using cluster_ok_me [OF ok] by blast
  show ?thesis
  proof (cases "c_state t \<noteq> CLUSTER_OK \<or> cn_slaveof me = None")
    case True
    then show ?thesis using me k by (auto simp: clusterHandleSlaveMigration_def split: option.split)
  next
    case False
    then obtain m where m: "cn_slaveof me = Some m" "c_state t = CLUSTER_OK" by auto
    obtain y where y: "c_heap t m = Some y" using links_okD(8) [OF lk me m(1)] by blast
    obtain ys where ys: "those (map (c_heap t) (cn_slaves y)) = Some ys" using slaves_some(1) [OF ok y] by blast
    have slv: "nodeIsSlave me" using links_okD(8) [OF lk me m(1)] by simp
    then have rme: "roles t (c_myself t) = Some (False, True, False)"
      using me role_ok_me [OF staysD(3) [OF k] me] by (simp add: roles_def node_role_def)
    have none: "\<And>j. j < CLUSTER_SLOTS \<Longrightarrow> c_slots t j \<noteq> Some (c_myself t)" using staysD(4) [OF k] rme unfolding slave_ok_def by blast
    let ?P = "\<lambda>(u, tg, c). calm t u \<and> c \<in> dom (c_heap t) \<and> migration_target t tg"
    have loop: "succ (foldM (\<lambda>e. migration_round mx (snd e)) (c_nodes t) (t, None, c_myself t)) ?P"
    proof (rule succ_foldM)
      show "?P (t, None, c_myself t)" using calm_refl_stays [OF k] me by (auto simp: migration_target_def)
      fix e r assume e: "e \<in> set (c_nodes t)" and r: "?P r"
      have n: "snd e \<in> dom (c_heap t)" using e links_okD(2) [OF lk] by auto
      obtain u tg c where "r = (u, tg, c)" by (cases r)
      then show "succ (migration_round mx (snd e) r) ?P" using r succ_migration_round [OF _ n] by simp
    qed
    have fin: "succ (case tg of
             None \<Rightarrow> Some u
           | Some w \<Rightarrow>
               if c \<noteq> c_myself u then Some u
               else do {
                 x \<leftarrow> c_heap u w;
                 let (now, s) = mstime u;
                 if now - cn_orphaned_time x > 5000 then clusterSetMaster (e_paused env) w s else Some s
               }) (stays s)" if r: "?P (u, tg, c)" for u tg c
    proof (cases tg)
      case None
      then show ?thesis using r stays_frame [OF _ k] by simp
    next
      case (Some w)
      have cu: "calm t u" using r by simp
      obtain a h j where w: "roles t w = Some (a, False, h)" "j < CLUSTER_SLOTS" "c_slots t j = Some w"
        using r Some by (auto simp: migration_target_def)
      have "h = False" using staysD(8) [OF k] w unfolding hands_ok_def by (cases h) auto
      then have rw: "roles t w = Some (a, False, False)" using w(1) by simp
      have wm: "w \<noteq> c_myself t" using rme rw by auto
      let ?u = "u\<lparr>c_tick := Suc (c_tick u)\<rparr>"
      have cu': "calm t ?u" using cu by simp
      have su: "stays s ?u" using stays_frame [OF cu' k] .
      have "succ (clusterSetMaster (e_paused env) w ?u) (stays s)"
        by (rule succ_setMaster [OF su]) (use rw wm none calmD(3,5) [OF cu'] cu' in \<open>simp_all add: calm_def\<close>)
      moreover have "w \<in> dom (c_heap u)" using calmD(2) [OF cu] rw by (auto simp: roles_def)
      ultimately show ?thesis using Some su stays_frame [OF cu k] by (auto simp: mstime_def)
    qed
    show ?thesis
      unfolding clusterHandleSlaveMigration_def
      using me m y ys k fin by (auto intro!: succ_bind [OF loop])
  qed
qed

section \<open>The periodic work\<close>

lemma succ_announce_ip:
  assumes k: "calm s t"
  shows "succ (cron_announce_ip b t) (calm s)"
proof -
  have "c_myself t \<in> dom (c_heap s)" using calm_me [OF k] calmD(2) [OF k] by simp
  then show ?thesis using k by (simp add: cron_announce_ip_def Let_def succ_set_node role_bits)
qed

definition survives :: "nid \<Rightarrow> clusterState \<Rightarrow> clusterState \<Rightarrow> bool" where
  "survives n t u \<longleftrightarrow> bus_ok u \<and> c_myself u = c_myself t \<and> dom (c_heap t) - {n} \<subseteq> dom (c_heap u)"

lemma calm_survives: "bus_ok t \<Longrightarrow> calm t u \<Longrightarrow> survives n t u"
  using calm_stays [of t u] by (auto simp: survives_def stays_def)

lemma succ_cron_connect:
  assumes b: "bus_ok t" and n: "n \<in> dom (c_heap t)"
  shows "succ (cron_connect e now timeout n t) (survives n t)"
proof -
  have c: "calm t t" using b by (simp add: bus_ok_def calm_refl)
  obtain x where x: "c_heap t n = Some x" using n by blast
  define u where "u = (if cn_flags x AND CLUSTER_NODE_PFAIL \<noteq> 0 then t\<lparr>c_stats_pfail_nodes := Suc (c_stats_pfail_nodes t)\<rparr> else t)"
  have cu: "calm t u" using c by (simp add: u_def)
  have xu: "c_heap u n = Some x" using x by (simp add: u_def)
  show ?thesis
  proof (cases "cn_flags x AND (CLUSTER_NODE_MYSELF OR CLUSTER_NODE_NOADDR) \<noteq> 0")
    case True
    then show ?thesis using x calm_survives [OF b c] by (simp add: cron_connect_def)
  next
    case F: False
    show ?thesis
    proof (cases "nodeInHandshake x \<and> now - cn_ctime x > timeout")
      case True
      have "succ (clusterDelNode n u) (\<lambda>v. processed t (v, False) \<and> dom (c_heap v) = dom (c_heap u) - {n})"
        by (rule succ_del_handshake [OF calm_stays [OF b cu] xu]) (use True in blast)
      then have "succ (clusterDelNode n u) (survives n t)"
        by (rule succ_weaken) (use calmD(2) [OF cu] in \<open>auto simp: processed_def survives_def\<close>)
      then show ?thesis using F True x by (simp add: cron_connect_def Let_def u_def [symmetric])
    next
      case H: False
      have ping: "succ (clusterSendPing e link (Some n) type v) (calm t)" if "calm t v" for link type v
        by (rule succ_ping [OF that]) (use n in simp)
      have rest: "succ (if cn_link x \<noteq> None then Some u
       else case b_connect e n of
         None \<Rightarrow>
           if cn_ping_sent x = 0 then (let (now, s) = mstime u in set_node n (\<lambda>x. x\<lparr>cn_ping_sent := now\<rparr>) s) else Some u
       | Some link \<Rightarrow> do {
           let (ctime, s) = mstime u;
           s \<leftarrow> set_node n (\<lambda>x. x\<lparr>cn_link := Some link\<rparr>) (s\<lparr>c_link_ctime := (c_link_ctime s)(link := ctime)\<rparr>);
           let old_ping_sent = cn_ping_sent x;
           s \<leftarrow> clusterSendPing e link (Some n)
             (if cn_flags x AND CLUSTER_NODE_MEET \<noteq> 0 then CLUSTERMSG_TYPE_MEET else CLUSTERMSG_TYPE_PING) s;
           s \<leftarrow> (if old_ping_sent \<noteq> 0 then set_node n (\<lambda>x. x\<lparr>cn_ping_sent := old_ping_sent\<rparr>) s else Some s);
           set_node n (\<lambda>x. x\<lparr>cn_flags := cn_flags x AND NOT CLUSTER_NODE_MEET\<rparr>) s
         }) (calm t)"
      proof (cases "cn_link x \<noteq> None")
        case True
        then show ?thesis using cu by simp
      next
        case L: False
        show ?thesis
        proof (cases "b_connect e n")
          case None
          then show ?thesis using L cu by (simp add: mstime_def succ_set_node [OF _ n] role_bits)
        next
          case (Some link)
          have old: "succ (if cn_ping_sent x \<noteq> 0 then set_node n (\<lambda>y. y\<lparr>cn_ping_sent := cn_ping_sent x\<rparr>) v else Some v) (calm t)" if "calm t v" for v
            using that by (simp add: succ_set_node [OF _ n] role_bits)
          have meet: "succ (set_node n (\<lambda>x. x\<lparr>cn_flags := cn_flags x AND NOT CLUSTER_NODE_MEET\<rparr>) v) (calm t)" if "calm t v" for v
            by (rule succ_set_node [OF that n]) (simp_all add: role_bits)
          have lnk: "succ (set_node n (\<lambda>x. x\<lparr>cn_link := Some link\<rparr>) (u\<lparr>c_tick := i, c_link_ctime := f\<rparr>)) (calm t)" for i f
            by (rule succ_set_node [OF _ n]) (simp_all add: cu role_bits)
          show ?thesis unfolding if_not_P [OF L] Some option.case mstime_def Let_def prod.case
            by (intro succ_bind [OF lnk] succ_bind [OF ping] succ_bind [OF old] meet)
        qed
      qed
      have "cron_connect e now timeout n t = (if cn_link x \<noteq> None then Some u
       else case b_connect e n of
         None \<Rightarrow>
           if cn_ping_sent x = 0 then (let (now, s) = mstime u in set_node n (\<lambda>x. x\<lparr>cn_ping_sent := now\<rparr>) s) else Some u
       | Some link \<Rightarrow> do {
           let (ctime, s) = mstime u;
           s \<leftarrow> set_node n (\<lambda>x. x\<lparr>cn_link := Some link\<rparr>) (s\<lparr>c_link_ctime := (c_link_ctime s)(link := ctime)\<rparr>);
           let old_ping_sent = cn_ping_sent x;
           s \<leftarrow> clusterSendPing e link (Some n)
             (if cn_flags x AND CLUSTER_NODE_MEET \<noteq> 0 then CLUSTERMSG_TYPE_MEET else CLUSTERMSG_TYPE_PING) s;
           s \<leftarrow> (if old_ping_sent \<noteq> 0 then set_node n (\<lambda>x. x\<lparr>cn_ping_sent := old_ping_sent\<rparr>) s else Some s);
           set_node n (\<lambda>x. x\<lparr>cn_flags := cn_flags x AND NOT CLUSTER_NODE_MEET\<rparr>) s
         })"
        unfolding cron_connect_def x bind.simps if_not_P [OF F] Let_def u_def [symmetric] if_not_P [OF H] ..
      then show ?thesis using succ_weaken [OF rest calm_survives [OF b]] by simp
    qed
  qed
qed

lemma succ_connect_loop:
  assumes b: "bus_ok t" and c: "calm t t'"
  shows "succ (foldM (\<lambda>x. cron_connect e now timeout (snd x)) (c_nodes t) t') (\<lambda>u. bus_ok u \<and> c_myself u = c_myself t)"
proof -
  have lk: "links_ok t" using b by (simp add: bus_ok_def cluster_ok_def)
  have inj: "x = y" if x: "x \<in> set (c_nodes t)" and y: "y \<in> set (c_nodes t)" and xy: "snd x = snd y" for x y
  proof -
    obtain z where z: "c_heap t (snd x) = Some z" using x links_okD(2) [OF lk] by auto
    show ?thesis using name_unique [OF lk z x] name_unique [OF lk z y] xy by (simp add: prod_eq_iff)
  qed
  have d: "distinct (c_nodes t)" using links_okD(1) [OF lk] distinct_map by blast
  let ?P = "\<lambda>ys u. bus_ok u \<and> c_myself u = c_myself t \<and> (\<forall>x \<in> set (c_nodes t). x \<notin> set ys \<longrightarrow> snd x \<in> dom (c_heap u))"
  have "\<exists>u. foldM (\<lambda>x. cron_connect e now timeout (snd x)) (c_nodes t) t' = Some u \<and> ?P (c_nodes t) u"
  proof (rule foldM_prefix_total [where P = ?P])
    show "?P [] t'" using calm_stays [OF b c] links_okD(2) [OF lk] by (auto simp: stays_def)
    fix ys x zs u assume e: "c_nodes t = ys @ x # zs" and P: "?P ys u"
    have x: "x \<in> set (c_nodes t)" "x \<notin> set ys" using e d by auto
    have n: "snd x \<in> dom (c_heap u)" using P x by blast
    have bu: "bus_ok u" using P by blast
    obtain v where v: "cron_connect e now timeout (snd x) u = Some v" "survives (snd x) u v"
      using succ_cron_connect [OF bu n, of e now timeout] by (auto simp: succ_def)
    have "snd y \<in> dom (c_heap v)" if y: "y \<in> set (c_nodes t)" "y \<notin> set (ys @ [x])" for y
    proof -
      have "snd y \<noteq> snd x" using inj [OF y(1) x(1)] y(2) by auto
      moreover have "snd y \<in> dom (c_heap u)" using P y by simp
      ultimately show ?thesis using v(2) by (auto simp: survives_def)
    qed
    then show "\<exists>v. cron_connect e now timeout (snd x) u = Some v \<and> ?P (ys @ [x]) v" using v P by (auto simp: survives_def)
  qed
  then show ?thesis by (auto simp: succ_def)
qed

lemma succ_ping_random:
  assumes k: "calm s t"
  shows "succ (cron_ping_random b t) (calm s)"
proof -
  have ok: "cluster_ok t" using calmD(1) [OF k] .
  then have lk: "links_ok t" by (simp add: cluster_ok_def)
  let ?P = "\<lambda>r :: (nid \<times> int) option. \<forall>n p. r = Some (n, p) \<longrightarrow> (\<exists>x l. c_heap t n = Some x \<and> cn_link x = Some l)"
  have "succ (foldM (cron_min_pong b t) [0..<5] None) ?P"
  proof (rule succ_foldM)
    fix j r assume r: "?P r"
    obtain n x where "random_node (b_random b (length (c_out t)) j) t = Some n" "c_heap t n = Some x" using random_node_some [OF lk] by blast
    then show "succ (cron_min_pong b t j r) ?P" using r by (auto simp: cron_min_pong_def split: option.splits if_splits)
  qed simp
  then have "succ (do {
        min_pong \<leftarrow> foldM (cron_min_pong b t) [0..<5] None;
        case min_pong of
          None \<Rightarrow> Some t
        | Some (n, _) \<Rightarrow> do {
            x \<leftarrow> c_heap t n;
            link \<leftarrow> cn_link x;
            clusterSendPing b link (Some n) CLUSTERMSG_TYPE_PING t
          }
      }) (calm s)"
  proof (rule succ_bind)
    fix r assume r: "?P r"
    show "succ (case r of
          None \<Rightarrow> Some t
        | Some (n, _) \<Rightarrow> do {
            x \<leftarrow> c_heap t n;
            link \<leftarrow> cn_link x;
            clusterSendPing b link (Some n) CLUSTERMSG_TYPE_PING t
          }) (calm s)"
    proof (cases r)
      case None
      then show ?thesis using k by simp
    next
      case (Some np)
      obtain n p where np: "np = (n, p)" by (cases np)
      obtain x l where x: "c_heap t n = Some x" "cn_link x = Some l" using r Some np by blast
      have "n \<in> dom (c_heap s)" using x calmD(2) [OF k] by auto
      then have "succ (clusterSendPing b l (Some n) CLUSTERMSG_TYPE_PING t) (calm s)" by (intro succ_ping [OF k]) simp
      then show ?thesis using Some np x by simp
    qed
  qed
  then show ?thesis using k by (simp add: cron_ping_random_def)
qed

lemma cron_count_some:
  assumes ok: "cluster_ok t" and n: "n \<in> dom (c_heap t)"
  shows "\<exists>k'. cron_count n t k = Some k'"
proof -
  obtain x where x: "c_heap t n = Some x" using n by blast
  obtain me where me: "c_heap t (c_myself t) = Some me" using cluster_ok_me [OF ok] by blast
  obtain c where "clusterCountNonFailingSlaves n t = Some c" using count_slaves_some [OF ok x] by blast
  then show ?thesis using x me by (simp add: cron_count_def Let_def)
qed

lemma succ_delay:
  assumes k: "calm s t" and n: "n \<in> dom (c_heap s)"
  shows "succ (cron_delay n now kk t) (\<lambda>(t', kk'). calm s t')"
  unfolding cron_delay_def
  by (rule succ_heap [OF calm_mem [OF k n]]) (auto simp: k role_bits intro!: succ_map succ_set_node [OF k n])

lemma succ_cron_check:
  assumes k: "calm s t" and n: "n \<in> dom (c_heap s)"
  shows "succ (cron_check b n (t, kk)) (\<lambda>(t', kk'). calm s t')"
proof -
  let ?t = "t\<lparr>c_tick := Suc (c_tick t)\<rparr>"
  have kt: "calm s ?t" using k by simp
  obtain x where x: "c_heap ?t n = Some x" using calm_mem [OF kt n] by blast
  show ?thesis
  proof (cases "cn_flags x AND (CLUSTER_NODE_MYSELF OR CLUSTER_NODE_NOADDR OR CLUSTER_NODE_HANDSHAKE) \<noteq> 0")
    case True
    then show ?thesis using x k by (simp add: cron_check_def mstime_def)
  next
    case F: False
    obtain k' where k': "cron_count n ?t kk = Some k'" using cron_count_some [OF calmD(1) [OF kt] calm_mem [OF kt n]] by blast
    have 1: "succ (case cn_link x of
          Some link \<Rightarrow>
            if c_clock t (c_tick t) - c_link_ctime ?t link > c_node_timeout ?t \<and> cn_ping_sent x \<noteq> 0 \<and> cn_pong_received x < cn_ping_sent x \<and>
               c_clock t (c_tick t) - cn_ping_sent x > c_node_timeout ?t div 2
            then freeNodeLink n ?t else Some ?t
        | None \<Rightarrow> Some ?t) (calm s)"
      using succ_freeNodeLink [OF kt n] kt by (cases "cn_link x") auto
    have ping: "succ (map_option (\<lambda>s. (s, k')) (clusterSendPing b link (Some n) CLUSTERMSG_TYPE_PING u)) (\<lambda>(t', kk'). calm s t')"
      if "calm s u" for link u
      by (rule succ_map, rule succ_weaken [OF succ_ping [OF that]]) (use n in simp_all)
    show ?thesis
      unfolding cron_check_def prod.case mstime_def Let_def x bind.simps if_not_P [OF F] k'
    proof (rule succ_bind [OF 1])
      fix u assume u: "calm s u"
      obtain y me where y: "c_heap u n = Some y" "c_heap u (c_myself u) = Some me" using calm_mem [OF u n] calm_me [OF u] by blast
      show "succ (do {
         x \<leftarrow> c_heap u n;
         me \<leftarrow> c_heap u (c_myself u);
         case cn_link x of
         None \<Rightarrow> cron_delay n (c_clock t (c_tick t)) k' u
       | Some link \<Rightarrow>
           if cn_ping_sent x = 0 \<and> c_clock t (c_tick t) - cn_pong_received x > c_node_timeout u div 2
           then map_option (\<lambda>s. (s, k')) (clusterSendPing b link (Some n) CLUSTERMSG_TYPE_PING u)
           else if c_mf_end u \<noteq> 0 \<and> nodeIsMaster me \<and> c_mf_slave u = Some n
           then map_option (\<lambda>s. (s, k')) (clusterSendPing b link (Some n) CLUSTERMSG_TYPE_PING u)
           else cron_delay n (c_clock t (c_tick t)) k' u
       }) (\<lambda>(t', kk'). calm s t')"
        using y ping [OF u] succ_delay [OF u n] by (cases "cn_link y") simp_all
    qed
  qed
qed

lemma succ_check_loop:
  assumes k: "calm t t"
  shows "succ (foldM (\<lambda>e. cron_check b (snd e)) (c_nodes t) (t, kk)) (\<lambda>(t', kk'). calm t t')"
proof (rule succ_foldM)
  have lk: "links_ok t" using calmD(1) [OF k] by (simp add: cluster_ok_def)
  fix e and r :: "clusterState \<times> cron_counts" assume e: "e \<in> set (c_nodes t)" and r: "case r of (t', kk') \<Rightarrow> calm t t'"
  have n: "snd e \<in> dom (c_heap t)" using e links_okD(2) [OF lk] by auto
  show "succ (cron_check b (snd e) r) (\<lambda>(t', kk'). calm t t')" using r succ_cron_check [OF _ n] by (cases r) simp
qed (simp add: k)

lemma calm_manual [simp]:
  "calm s t \<Longrightarrow> calm s (manualFailoverCheckTimeout env t)" "calm s t \<Longrightarrow> calm s (clusterHandleManualFailover env t)"
  by (simp_all add: manualFailoverCheckTimeout_def clusterHandleManualFailover_def mstime_def Let_def)

lemma succ_cron_slave:
  assumes k: "stays s t"
  shows "succ (cron_slave b kk t) (stays s)"
proof -
  note c = calm_refl_stays [OF k]
  obtain me where me: "c_heap t (c_myself t) = Some me" using cluster_ok_me [OF staysD(2) [OF k]] by blast
  have lk: "links_ok t" using staysD(2) [OF k] by (simp add: cluster_ok_def)
  have 1: "succ (case cn_slaveof me of
        Some m \<Rightarrow> do {
          x \<leftarrow> c_heap t m;
          Some (if nodeIsSlave me \<and> \<not> b_masterhost b \<and> nodeHasAddr x
                then emit (Replication_set_master (cn_ip x) (cn_port x)) t else t)
        }
      | None \<Rightarrow> Some t) (calm t)"
  proof (cases "cn_slaveof me")
    case (Some m)
    then obtain y where "c_heap t m = Some y" using links_okD(8) [OF lk me Some] by blast
    then show ?thesis using Some c by simp
  qed (use c in simp)
  have mig: "succ (if k_orphaned_masters kk \<noteq> 0 \<and> k_max_slaves kk \<ge> 2 \<and> k_this_slaves kk = k_max_slaves kk
       then clusterHandleSlaveMigration (b_env b) (k_max_slaves kk) u else Some u) (stays s)" if "stays s u" for u
    using succ_migration [OF that] that by simp
  show ?thesis
    unfolding cron_slave_def me bind.simps Let_def
  proof (rule succ_bind [OF 1])
    fix u assume u: "calm t u"
    let ?v = "manualFailoverCheckTimeout (b_env b) u"
    have v: "calm t ?v" using u by simp
    have w: "stays s (clusterHandleManualFailover (b_env b) ?v)" using stays_frame [OF _ k] v by simp
    show "succ (do {
       me \<leftarrow> c_heap ?v (c_myself ?v);
       if nodeIsSlave me then do {
         s \<leftarrow> clusterHandleSlaveFailover (b_env b) (clusterHandleManualFailover (b_env b) ?v);
         if k_orphaned_masters kk \<noteq> 0 \<and> k_max_slaves kk \<ge> 2 \<and> k_this_slaves kk = k_max_slaves kk
         then clusterHandleSlaveMigration (b_env b) (k_max_slaves kk) s else Some s
       } else Some ?v
     }) (stays s)"
      by (rule succ_heap [OF calm_me [OF v]]) (use stays_frame [OF v k] succ_bind [OF succ_slaveFailover [OF w] mig] in simp)
  qed
qed

lemma succ_cron:
  assumes b: "bus_ok s"
  shows "succ (clusterCron e s) (\<lambda>u. bus_ok u \<and> c_myself u = c_myself s)"
proof -
  let ?P = "\<lambda>u. bus_ok u \<and> c_myself u = c_myself s"
  have c: "calm s s" using b by (simp add: bus_ok_def calm_refl)
  have ca: "calm u u" if "?P u" for u using that by (simp add: bus_ok_def calm_refl)
  have cp: "?P v" if "?P u" "calm u v" for u v using that calm_stays [of u v] by (simp add: stays_def)
  have sp: "?P v" if "?P u" "stays u v" for u v using that by (simp add: stays_def)
  have 1: "succ (cron_announce_ip e (s\<lparr>c_tick := i, c_iteration := j\<rparr>)) (calm s)" for i j by (rule succ_announce_ip) (simp add: c)
  have 2: "succ (foldM (\<lambda>x. cron_connect e now to (snd x)) (c_nodes u) (u\<lparr>c_stats_pfail_nodes := 0\<rparr>)) ?P" if u: "calm s u" for u now to
  proof -
    have "?P u" using cp [OF _ u] b by simp
    then show ?thesis using succ_connect_loop [of u "u\<lparr>c_stats_pfail_nodes := 0\<rparr>" e now to] ca by simp
  qed
  have 3: "succ (cron_ping_random e u) ?P" if "?P u" for u
    by (rule succ_weaken [OF succ_ping_random [OF ca [OF that]]]) (rule cp [OF that])
  have 4: "succ (foldM (\<lambda>x. cron_check e (snd x)) (c_nodes u) (u, kk)) (\<lambda>(v, kk'). ?P v)" if "?P u" for u kk
    by (rule succ_weaken [OF succ_check_loop [OF ca [OF that]]]) (use cp [OF that] in auto)
  have 5: "succ (cron_slave e kk u) ?P" if "?P u" for u kk
    by (rule succ_weaken [OF succ_cron_slave [OF stays_refl]]) (use that sp [OF that] in auto)
  have 6: "succ (if q then clusterUpdateState (b_env e) u else Some u) ?P" if "?P u" for u q
    using succ_weaken [OF succ_updateState [OF ca [OF that]] cp [OF that]] that by simp
  show ?thesis
    unfolding clusterCron_def mstime_def Let_def prod.case bind.simps
    apply (rule succ_bind [OF 1])
    apply (rule succ_bind [OF 2], assumption)
    apply (rule succ_bind [OF 3], assumption)
    apply (rule succ_bind [OF 4], assumption)
    apply (clarsimp simp only: prod.case)
    apply (rule succ_bind [OF 5], simp)
    apply (rule 6, simp)
    done
qed

lemma succ_beforeSleep:
  assumes b: "bus_ok s"
  shows "succ (clusterBeforeSleep e s) (stays s)"
proof -
  have 1: "succ (if c_todo_before_sleep s AND CLUSTER_TODO_HANDLE_FAILOVER \<noteq> 0 then clusterHandleSlaveFailover (b_env e) s else Some s) (stays s)"
    using succ_slaveFailover [OF stays_refl [OF b]] stays_refl [OF b] by simp
  have 2: "succ (if q then clusterUpdateState (b_env e) u else Some u) (stays s)" if u: "stays s u" for u q
    using succ_calm [OF u succ_updateState [OF calm_refl_stays [OF u]]] u by simp
  have 3: "stays s (u\<lparr>c_todo_before_sleep := 0\<rparr>)" "stays s ((emit Save_config u)\<lparr>c_todo_before_sleep := 0\<rparr>)"
    if u: "stays s u" for u
    using stays_frame [OF _ u] calm_refl_stays [OF u] by auto
  show ?thesis
    unfolding clusterBeforeSleep_def Let_def
    by (intro succ_bind [OF 1] succ_bind [OF 2]) (use 3 in auto)
qed

end
