(* ===== verification/Cluster_Reach.thy ===== *)
theory Cluster_Reach
  imports Cluster_Cron_Inv
begin

text \<open>
  A node as a state machine: its steps are the messages of other nodes, handshakes that are started, the periodic work and the work before sleeping. Every state
  that it can reach is consistent, and in every such state each handler runs without a failed assertion or an access through a wrong pointer.
\<close>

unbundle bit_operations_syntax

section \<open>Rebinding of slots\<close>

text \<open>
  (C15) A message about the slots of a node moves exactly the claimed slots whose owner, if any, has an older configuration epoch and that are not being imported;
  all other slots keep their owner, and the state stays sound.
\<close>

theorem clusterUpdateSlotsConfigWith_spec:
  assumes bus: "bus_ok s" and n: "roles s n = Some (a, b, False)" "n \<noteq> c_myself s" and len: "length bm = CLUSTER_SLOTS div 8"
  shows "\<exists>s'. clusterUpdateSlotsConfigWith env n e bm s = Some s' \<and> bus_ok s' \<and>
    (\<forall>j < CLUSTER_SLOTS. c_slots s' j = (if rebinds s n e bm j then Some n else c_slots s j))"
proof -
  have k: "stays s s" using stays_refl [OF bus] .
  have ok: "cluster_ok s" using bus by (simp add: bus_ok_def)
  have nd: "n \<in> dom (c_heap s)" using n(1) by (auto simp: roles_def)
  obtain s' where s': "clusterUpdateSlotsConfigWith env n e bm s = Some s'" "stays s s'"
    using succ_update_slots [OF k n(1) len, of env e] by (auto simp: succ_def)
  obtain me where me: "c_heap s (c_myself s) = Some me" using cluster_ok_me [OF ok] by blast
  let ?cur = "if nodeIsMaster me then Some (c_myself s) else cn_slaveof me"
  obtain u nm dirty where u: "foldM (rebind_slot env n e bm ?cur) [0..<CLUSTER_SLOTS] (s, False, []) = Some (u, nm, dirty)"
    "\<forall>j < CLUSTER_SLOTS. c_slots u j = (if rebinds s n e bm j then Some n else c_slots s j)"
    using rebind_fold [OF ok nd n(2) len, of env e ?cur] by blast
  have "c_slots (fold (\<lambda>j. emit (Del_keys_in_slot j)) js v) = c_slots v" for js v by (induction js arbitrary: v) (simp_all add: emit_def)
  moreover have "c_slots v' = c_slots v" if "clusterSetMaster p n v = Some v'" for p v v'
    using slots_setMaster [OF that] .
  ultimately have "c_slots s' = c_slots u"
    using s'(1) me n(2) u(1) by (auto simp: clusterUpdateSlotsConfigWith_def Let_def bind_eq_Some_conv clusterDoBeforeSleep_def split: if_splits)
  then show ?thesis using s' u(2) staysD(1) [OF s'(2)] by simp
qed

definition full_map :: "byte list" where
  "full_map = replicate (CLUSTER_SLOTS div 8) 255"

lemma len_full_map: "length full_map = CLUSTER_SLOTS div 8"
  by (simp add: full_map_def)

lemma full_map_bit:
  assumes "j < CLUSTER_SLOTS"
  shows "bitmapTestBit full_map j = Some True"
proof -
  have j: "j div 8 < CLUSTER_SLOTS div 8" using slot_in_bitmap [OF len_full_map assms] by (simp add: len_full_map)
  have m: "(255 :: byte) = mask 8" by (simp add: mask_eq_exp_minus_1)
  have "bit (255 :: byte) (j mod 8)" unfolding m bit_mask_iff by simp
  then show ?thesis using bitmapTestBit_iff [of j full_map] j by (simp add: full_map_def)
qed

lemma demo_pair_bus: "bus_ok demo_pair" "roles demo_pair 1 = Some (True, False, False)"
proof -
  obtain x where x: "c_heap demo_pair 1 = Some x" "cn_flags x = CLUSTER_NODE_MASTER" using demo_pair_ok(6) by blast
  show "roles demo_pair 1 = Some (True, False, False)" using x by (simp add: roles_def node_role_def flag_iff flag_defs)
  have "slave_ok demo_pair" using demo_pair_ok(2) by (auto simp: slave_ok_def me_role_def roles_def node_role_def)
  moreover have "hands_ok demo_pair" by (simp add: hands_ok_def demo_pair_ok)
  ultimately show "bus_ok demo_pair" by (simp add: bus_ok_def demo_pair_ok)
qed

theorem clusterUpdateSlotsConfigWith_spec_witness:
  "\<exists>s'. clusterUpdateSlotsConfigWith demo_env 1 7 full_map demo_pair = Some s' \<and> bus_ok s' \<and>
    (\<forall>j < CLUSTER_SLOTS. c_slots s' j = (if rebinds demo_pair 1 7 full_map j then Some 1 else c_slots demo_pair j))"
  by (rule clusterUpdateSlotsConfigWith_spec [OF demo_pair_bus]) (simp_all add: demo_pair_ok len_full_map)

text \<open>
  (C32) A slave that does not know its master, for example because it was told to replicate a node whose handshake then failed, goes through a null pointer
  when another node claims a slot that nobody serves.
\<close>

theorem update_slots_crash:
  assumes ok: "cluster_ok s" and me: "c_heap s (c_myself s) = Some me" "\<not> nodeIsMaster me" "cn_slaveof me = None"
    and n: "n \<in> dom (c_heap s)" "n \<noteq> c_myself s" and len: "length bm = CLUSTER_SLOTS div 8"
    and j: "j < CLUSTER_SLOTS" "bitmapTestBit bm j = Some True" "c_slots s j = None" "c_importing_slots_from s j = None"
  shows "clusterUpdateSlotsConfigWith env n e bm s = None"
proof -
  have "rebinds s n e bm j \<and> c_slots s j = None" using j by (simp add: rebinds_def)
  then have nm: "\<exists>j < CLUSTER_SLOTS. rebinds s n e bm j \<and> c_slots s j = None" using j(1) by blast
  obtain u dirty where "foldM (rebind_slot env n e bm None) [0..<CLUSTER_SLOTS] (s, False, []) = Some (u, True, dirty)"
    using rebind_fold [OF ok n len, of env e None] nm by auto
  then show ?thesis using me n(2) by (simp add: clusterUpdateSlotsConfigWith_def)
qed

text \<open>A slave that has lost its master.\<close>

definition demo_orphan :: clusterState where
  "demo_orphan = demo_slave\<lparr>c_heap := (c_heap demo_slave)(0 \<mapsto> (the (c_heap demo_slave 0))\<lparr>cn_slaveof := None\<rparr>,
     1 \<mapsto> (the (c_heap demo_slave 1))\<lparr>cn_slaves := remove1 0 (cn_slaves (the (c_heap demo_slave 1)))\<rparr>)\<rparr>"

lemma demo_slave_facts: "c_importing_slots_from demo_slave = (\<lambda>_. None)" "masters demo_slave 0 = Some (Some 1)"
proof -
  have "(1::nat) \<in> dom (c_heap demo_pair)" "1 \<noteq> c_myself demo_pair" using demo_pair_ok(5,6) by auto
  moreover obtain pm where pm: "c_heap demo_pair (c_myself demo_pair) = Some pm" using cluster_ok_me [OF demo_pair_ok(1)] by blast
  ultimately obtain t where t: "clusterSetMaster False 1 demo_pair = Some t"
    using clusterSetMaster_ok [OF demo_pair_ok(1) _ _ pm role_ok_me(1) [OF demo_pair_ok(7) pm], of 1 False] by (auto simp: demo_pair_ok(4))
  have d: "demo_slave = t" unfolding demo_slave_def t by simp
  show "masters demo_slave 0 = Some (Some 1)" using masters_setMaster [OF t] by (simp add: d demo_pair_ok)
  show "c_importing_slots_from demo_slave = (\<lambda>_. None)"
    using t
  proof (rule setMaster_steps)
    fix me u v w c and x :: clusterNode
    assume me: "c_heap demo_pair (c_myself demo_pair) = Some me" "(if nodeIsMaster me
         then map_option clusterCloseAllSlots (set_node (c_myself demo_pair) (\<lambda>x. x\<lparr>cn_flags :=
           (cn_flags x AND NOT (CLUSTER_NODE_MASTER OR CLUSTER_NODE_MIGRATE_TO)) OR CLUSTER_NODE_SLAVE\<rparr>) demo_pair)
         else case cn_slaveof me of
           None \<Rightarrow> Some demo_pair
         | Some m \<Rightarrow> map_option fst (clusterNodeRemoveSlave m (c_myself demo_pair) demo_pair)) = Some u"
      and v: "set_node (c_myself u) (\<lambda>x. x\<lparr>cn_slaveof := Some 1\<rparr>) u = Some v" "clusterNodeAddSlave 1 (c_myself v) v = Some (w, c)"
        "t = resetManualFailover False (emit (Replication_set_master (cn_ip x) (cn_port x)) w)"
    have "nodeIsMaster me" using demo_pair_ok(2) me(1) by (simp add: me_role_def)
    then have "c_importing_slots_from u = (\<lambda>_. None)" using me(2) by (auto simp: clusterCloseAllSlots_def)
    moreover have "c_importing_slots_from v = c_importing_slots_from u" using v(1) by (auto simp: set_node_def bind_eq_Some_conv)
    moreover have "c_importing_slots_from w = c_importing_slots_from v" using v(2)
      by (auto simp: clusterNodeAddSlave_def set_node_def bind_eq_Some_conv split: if_splits)
    ultimately show ?thesis unfolding d v(3) by (simp add: resetManualFailover_def emit_def Let_def)
  qed
qed

lemma demo_orphan_ok:
  "cluster_ok demo_orphan" "\<exists>me. c_heap demo_orphan (c_myself demo_orphan) = Some me \<and> \<not> nodeIsMaster me \<and> cn_slaveof me = None"
  "1 \<in> dom (c_heap demo_orphan)" "c_myself demo_orphan = 0" "c_slots demo_orphan = (\<lambda>_. None)" "c_importing_slots_from demo_orphan = (\<lambda>_. None)"
proof -
  have ok: "cluster_ok demo_slave" by (rule demo_slave_ok)
  then have lk: "links_ok demo_slave" by (simp add: cluster_ok_def)
  obtain x where x: "c_heap demo_slave 0 = Some x" using cluster_ok_me [OF ok] by (auto simp: demo_slave_ok)
  obtain y where y: "c_heap demo_slave 1 = Some y" using demo_slave_ok(6) by blast
  have xs: "cn_slaveof x = Some 1" "\<not> nodeIsMaster x" using demo_slave_facts(2) demo_slave_ok(2,5) x by (auto simp: masters_def me_role_def)
  have h: "c_heap demo_orphan = (c_heap demo_slave)(0 \<mapsto> x\<lparr>cn_slaveof := None\<rparr>, 1 \<mapsto> y\<lparr>cn_slaves := remove1 0 (cn_slaves y)\<rparr>)"
    using x y by (simp add: demo_orphan_def)
  show "cluster_ok demo_orphan"
  proof (rule cluster_ok_reparent [OF ok, of 0 None])
    fix k w0 w assume k: "c_heap demo_slave k = Some w0" "c_heap demo_orphan k = Some w"
    have sl: "cn_slaveof w0 \<noteq> None \<longrightarrow> nodeIsSlave w0" using links_okD(8) [OF lk k(1)] by blast
    have nin: "0 \<notin> set (cn_slaves w0)" if "k \<noteq> 1" using links_okD(5) [OF lk k(1)] x xs(1) that by auto
    have "w = (if k = 0 then x\<lparr>cn_slaveof := None\<rparr> else if k = 1 then y\<lparr>cn_slaves := remove1 0 (cn_slaves y)\<rparr> else w0)"
      using k by (auto simp: h split: if_splits)
    then show "reparent 0 None k w0 w"
      using k(1) x y sl nin links_okD(4) [OF lk k(1)] unfolding reparent_def
      by (cases "k = 0"; cases "k = 1") (auto simp: slots_of_def flag_iff)
  qed (use x y in \<open>auto simp: h demo_orphan_def\<close>)
  show "c_myself demo_orphan = 0" "c_slots demo_orphan = (\<lambda>_. None)" "c_importing_slots_from demo_orphan = (\<lambda>_. None)"
    by (simp_all add: demo_orphan_def demo_slave_ok demo_slave_facts)
  then show "\<exists>me. c_heap demo_orphan (c_myself demo_orphan) = Some me \<and> \<not> nodeIsMaster me \<and> cn_slaveof me = None"
    using xs(2) by (simp add: h nodeIsMaster_def)
  show "1 \<in> dom (c_heap demo_orphan)" by (simp add: h)
qed

theorem update_slots_crash_witness: "clusterUpdateSlotsConfigWith demo_env 1 7 full_map demo_orphan = None"
proof -
  obtain me where me: "c_heap demo_orphan (c_myself demo_orphan) = Some me" "\<not> nodeIsMaster me" "cn_slaveof me = None" using demo_orphan_ok(2) by blast
  have "0 < CLUSTER_SLOTS" by (simp add: CLUSTER_SLOTS_def)
  then show ?thesis
    using update_slots_crash [OF demo_orphan_ok(1) me demo_orphan_ok(3) _ len_full_map, of 0 demo_env 7] full_map_bit [of 0]
    by (simp add: demo_orphan_ok)
qed

section \<open>Runs\<close>

text \<open>
  The steps of a node between two commands of a client: a packet of the bus, the start of a handshake, the cron and the work before the event loop sleeps. What
  a packet claims is arbitrary; its lengths are those of its layout, and the random names of the nodes in handshake are not used by others.
\<close>

inductive node_step :: "clusterState \<Rightarrow> clusterState \<Rightarrow> bool" where
  step_packet: "bus_env_ok b \<Longrightarrow> packet_wf hdr \<Longrightarrow> packet_names b hdr s \<Longrightarrow> \<forall>m. link_node = Some m \<longrightarrow> m \<in> dom (c_heap s) \<Longrightarrow>
     clusterProcessPacket b link link_node rcvlen hdr s = Some (s', alive) \<Longrightarrow> node_step s s'"
| step_meet: "bus_env_ok b \<Longrightarrow> clusterStartHandshake b ip port cport s = Some (s', r) \<Longrightarrow> node_step s s'"
| step_cron: "clusterCron b s = Some s' \<Longrightarrow> node_step s s'"
| step_sleep: "clusterBeforeSleep b s = Some s' \<Longrightarrow> node_step s s'"

inductive_cases node_stepE: "node_step s s'"

lemma succD: "succ m P \<Longrightarrow> m = Some y \<Longrightarrow> P y"
  by (simp add: succ_def)

lemma succ_meet:
  assumes "bus_ok s" "bus_env_ok b"
  shows "succ (clusterStartHandshake b ip port cport s) (\<lambda>(t, r). stays s t)"
proof -
  have "cluster_ok s" using assms(1) by (simp add: bus_ok_def)
  then obtain e where e: "e \<in> set (c_nodes s)" using cluster_ok_me links_okD(2) by (fastforce simp: cluster_ok_def)
  then have "b_name b (c_nodes s) \<noteq> fst e" using assms(2) by (auto simp: bus_env_ok_def image_iff)
  from succ_handshake [OF grows_refl [OF assms(1)] assms(2) this] show ?thesis
    by (rule succ_weaken) (auto dest: growsD)
qed

lemma node_step_keeps:
  assumes "node_step s s'" "bus_ok s"
  shows "bus_ok s' \<and> c_myself s' = c_myself s"
  using assms(1)
proof (rule node_stepE)
  fix b hdr link_node link rcvlen alive
  assume "bus_env_ok b" "packet_wf hdr" "packet_names b hdr s" "\<forall>m. link_node = Some m \<longrightarrow> m \<in> dom (c_heap s)"
    and r: "clusterProcessPacket b link link_node rcvlen hdr s = Some (s', alive)"
  then have "processed s (s', alive)" using succD [OF succ_packet [OF assms(2)] r] by blast
  then show ?thesis by (auto simp: processed_def dest: staysD)
next
  fix b ip port cport r
  assume "bus_env_ok b" "clusterStartHandshake b ip port cport s = Some (s', r)"
  then show ?thesis using succD [OF succ_meet [OF assms(2)]] staysD(1,5) by fastforce
next
  fix b assume "clusterCron b s = Some s'"
  then show ?thesis using succD [OF succ_cron [OF assms(2)]] by simp
next
  fix b assume "clusterBeforeSleep b s = Some s'"
  then show ?thesis using succD [OF succ_beforeSleep [OF assms(2)]] staysD(1,5) by blast
qed

lemma node_steps_keep:
  assumes "node_step\<^sup>*\<^sup>* s s'" "bus_ok s"
  shows "bus_ok s' \<and> c_myself s' = c_myself s"
  using assms by (induction rule: rtranclp_induct) (auto dest: node_step_keeps)


text \<open>A packet of a node that nobody knows.\<close>

definition demo_packet :: clusterMsg where
  "demo_packet = \<lparr>m_totlen = 2256, m_ver = 1, m_port = 6379, m_type = CLUSTERMSG_TYPE_MEET, m_count = 0, m_currentEpoch = 3, m_configEpoch = 2,
    m_offset = 0, m_sender = [], m_myslots = replicate 2048 0, m_slaveof = [], m_myip = [], m_cport = 16379, m_flags = 1, m_state = CLUSTER_OK, m_mflags = 0,
    m_gossip = [], m_fail_nodename = [], m_channel_len = 0, m_message_len = 0, m_bulk_data = [], m_update_configEpoch = 0,
    m_update_nodename = [], m_update_slots = replicate 2048 0\<rparr>"

lemma demo_packet_wf: "packet_wf demo_packet"
  by (simp add: packet_wf_def demo_packet_def CLUSTER_SLOTS_def sizes flag_defs)

lemma demo_bus_ok: "bus_env_ok demo_bus"
proof -
  have "h (LEAST n. h n = None) = None" if fin: "finite (dom h)" for h :: "nat \<Rightarrow> clusterNode option"
  proof -
    obtain n where "n \<notin> dom h" using ex_new_if_finite [OF infinite_UNIV_nat fin] by blast
    then show ?thesis by (intro LeastI) auto
  qed
  moreover have "length (concat (map fst ns) @ [0 :: byte]) > length nm" if "nm \<in> fst ` set ns" for ns :: "(byte list \<times> nid) list" and nm
    using that by (induction ns) (fastforce simp: image_iff)+
  then have "concat (map fst ns) @ [0 :: byte] \<notin> fst ` set ns" for ns :: "(byte list \<times> nid) list" by fastforce
  ultimately show ?thesis by (simp add: bus_env_ok_def demo_bus_def)
qed


lemma clusterInit_bus:
  assumes "clusterInit uninit env timeout clock port = Some s"
  shows "bus_ok s"
proof -
  note s = clusterInit_ok [of uninit env timeout clock port, unfolded assms, simplified]
  then have "slave_ok s" by (auto simp: slave_ok_def me_role_def roles_def node_role_def)
  moreover have "hands_ok s" using s by (simp add: hands_ok_def)
  ultimately show ?thesis using s by (simp add: bus_ok_def)
qed



end
