(* ===== verification/Spec2Isabelle.thy ===== *)
theory Spec2Isabelle
  imports Intset Endian Dict Util Dict_Types Dict_Scan Adlist Cluster_Command Cluster_Reach
begin

text \<open>
  Verification of the core of the Redis 4.0 server in \<open>src/redis-stable/src\<close>.
\<close>

end
